(* ===== verification/Prelude.thy ===== *)
theory Prelude
  imports Main "HOL-Library.AList" "HOL-Library.Word" "HOL-Library.Signed_Division"
begin

text \<open>
  Shared vocabulary of the development: how Go's integers, maps, contexts and byte readers are
  written in HOL, and the generic facts about them that the component theories use.

  \<^item> A Go \<^verbatim>\<open>int64\<close> is an \<^typ>\<open>int\<close>; every arithmetic result that the source computes in that
    type goes through \<open>i64\<close>, two's-complement wrap-around at 64 bits. \<^verbatim>\<open>uint32\<close> and \<^verbatim>\<open>uint64\<close>
    are words.
  \<^item> A Go \<^verbatim>\<open>map\<close> is an association list with distinct keys. The order of the list stands for the
    unspecified order in which \<^verbatim>\<open>range\<close> visits the map: a theorem that holds for every list holds
    for every iteration order.
  \<^item> An \<^verbatim>\<open>io.Reader\<close> of random bytes is the list of the bytes it has still to deliver; a read
    past its end is the read error of the source.
\<close>

named_theorems go_arith \<open>facts that remove the wrap-around of machine integers\<close>

type_synonym byte = "8 word"
type_synonym ('k, 'v) gomap = "('k \<times> 'v) list"

section \<open>Definitions\<close>

subsection \<open>Machine integers\<close>

definition i64 :: "int \<Rightarrow> int" where
  "i64 x = (x + 2 ^ 63) mod 2 ^ 64 - 2 ^ 63"

definition max_int64 :: int where
  "max_int64 = 2 ^ 63 - 1"

subsection \<open>Contexts and readers\<close>

text \<open>A \<^verbatim>\<open>context.Context\<close> argument: nil, already cancelled or past its deadline, or live.\<close>

datatype go_ctx = CtxNil | CtxErr | CtxLive

text \<open>\<^verbatim>\<open>io.ReadFull(reader, buffer)\<close> for a buffer of \<open>n\<close> bytes.\<close>

definition read_full :: "nat \<Rightarrow> byte list \<Rightarrow> (byte list \<times> byte list) option" where
  "read_full n r = (if length r < n then None else Some (take n r, drop n r))"

subsection \<open>Maps\<close>

abbreviation wf_map :: "('k, 'v) gomap \<Rightarrow> bool" where
  "wf_map m \<equiv> distinct (map fst m)"

text \<open>A map with a function applied to every value: the view of a map of structs by one of their
  fields.\<close>

definition map_values :: "('v \<Rightarrow> 'w) \<Rightarrow> ('k, 'v) gomap \<Rightarrow> ('k, 'w) gomap" where
  "map_values f m = map (\<lambda>(k, v). (k, f v)) m"

section \<open>Lemmas\<close>

subsection \<open>Machine integers\<close>

lemma i64_id [go_arith]: "- (2 ^ 63) \<le> x \<Longrightarrow> x < 2 ^ 63 \<Longrightarrow> i64 x = x"
  by (simp add: i64_def)

lemma i64_range: "- (2 ^ 63) \<le> i64 x \<and> i64 x < 2 ^ 63"
proof -
  have "0 \<le> (x + 2 ^ 63) mod (2 ^ 64 :: int)" and "(x + 2 ^ 63) mod (2 ^ 64 :: int) < 2 ^ 64"
    by simp_all
  then show ?thesis by (simp add: i64_def)
qed

lemma sdiv_nonneg: "0 \<le> a \<Longrightarrow> 0 < b \<Longrightarrow> (a :: int) sdiv b = a div b"
  by (cases "a = 0") (simp_all add: signed_divide_int_def)

lemma smod_nonneg: "0 \<le> a \<Longrightarrow> 0 < b \<Longrightarrow> (a :: int) smod b = a mod b"
  by (cases "a = 0") (simp_all add: signed_modulo_int_def)

subsection \<open>Readers\<close>

lemma read_full_length: "read_full n r = Some (bs, r') \<Longrightarrow> length bs = n"
  by (auto simp: read_full_def split: if_splits)

subsection \<open>Maps\<close>

lemma map_of_update [simp]: "map_of (AList.update k v m) = (map_of m)(k \<mapsto> v)"
  by (simp add: update_conv')

lemma map_of_delete [simp]: "map_of (AList.delete k m) = (map_of m)(k := None)"
  by (simp add: delete_conv')

lemma wf_map_update [simp]: "wf_map m \<Longrightarrow> wf_map (AList.update k v m)"
  by (rule distinct_update)

lemma wf_map_delete [simp]: "wf_map m \<Longrightarrow> wf_map (AList.delete k m)"
  by (rule distinct_delete)

text \<open>Lookups stay lookups: the library's rewriting of a lookup into list membership is used
  explicitly where it is wanted.\<close>

declare map_of_eq_Some_iff [simp del]

lemma length_update:
  "length (AList.update k v m) = (if k \<in> fst ` set m then length m else Suc (length m))"
  by (induction m) auto

lemma length_update_old [simp]: "map_of m k = Some v \<Longrightarrow> length (AList.update k v' m) = length m"
  by (induction m) auto

lemma update_new: "map_of m k = None \<Longrightarrow> AList.update k v m = m @ [(k, v)]"
  by (induction m) (auto split: if_splits)

lemma delete_notin: "map_of m k = None \<Longrightarrow> AList.delete k m = m"
  by (induction m) (auto split: if_splits)

lemma sum_list_delete:
  fixes f :: "'k \<times> 'v \<Rightarrow> int"
  assumes "wf_map m" and "map_of m k = Some v"
  shows "sum_list (map f (AList.delete k m)) = sum_list (map f m) - f (k, v)"
  using assms
proof (induction m)
  case Nil
  then show ?case by simp
next
  case (Cons e m)
  show ?case
  proof (cases "fst e = k")
    case True
    with Cons.prems have "map_of m k = None"
      by (cases e) (auto simp: map_of_eq_None_iff)
    with True Cons.prems show ?thesis
      by (cases e) (simp add: delete_notin)
  next
    case False
    with Cons show ?thesis by (cases e) auto
  qed
qed

lemma map_of_filter_wf:
  "wf_map m \<Longrightarrow> map_of (filter P m) k =
     (case map_of m k of None \<Rightarrow> None | Some v \<Rightarrow> if P (k, v) then Some v else None)"
proof (induction m)
  case Nil
  then show ?case by simp
next
  case (Cons e m)
  obtain a b where e: "e = (a, b)" by (cases e)
  show ?case
  proof (cases "a = k")
    case True
    with Cons.prems e have "map_of m k = None"
      by (auto simp: map_of_eq_None_iff)
    with True Cons e show ?thesis by auto
  next
    case False
    with Cons e show ?thesis by auto
  qed
qed

lemma wf_map_filter [simp]: "wf_map m \<Longrightarrow> wf_map (filter P m)"
  by (induction m) auto

lemma map_values_simps [simp]:
  "map_values f [] = []"
  "map_values f ((k, v) # m) = (k, f v) # map_values f m"
  by (simp_all add: map_values_def)

lemma map_of_map_values [simp]: "map_of (map_values f m) k = map_option f (map_of m k)"
  by (induction m) auto

lemma fst_map_values [simp]: "map fst (map_values f m) = map fst m"
  by (induction m) auto

lemma map_values_update [simp]: "map_values f (AList.update k v m) = AList.update k (f v) (map_values f m)"
  by (induction m) auto

lemma map_values_delete [simp]: "map_values f (AList.delete k m) = AList.delete k (map_values f m)"
  by (induction m) auto

text \<open>Loops that delete from the map they range over.\<close>

lemma map_of_fold_delete:
  "map_of (fold (\<lambda>(k, v) m. if P k v then AList.delete k m else m) es m) k =
     (if \<exists>v. (k, v) \<in> set es \<and> P k v then None else map_of m k)"
  by (induction es arbitrary: m) auto

lemma wf_map_fold_delete:
  "wf_map m \<Longrightarrow> wf_map (fold (\<lambda>(k, v) m. if P k v then AList.delete k m else m) es m)"
  by (induction es arbitrary: m) auto

lemma length_fold_delete:
  "length (fold (\<lambda>(k, v) m. if P k v then AList.delete k m else m) es m) \<le> length m"
proof (induction es arbitrary: m)
  case Nil
  then show ?case by simp
next
  case (Cons e es)
  obtain k v where e: "e = (k, v)" by (cases e)
  have "length (AList.delete k m) \<le> length m" by (rule length_delete_le)
  then show ?case
    using Cons [of "AList.delete k m"] Cons [of m] e by (auto intro: order_trans)
qed

lemma map_of_range_delete:
  assumes "wf_map m"
  shows "map_of (fold (\<lambda>(k, v) m. if P k v then AList.delete k m else m) m m) k =
    (case map_of m k of None \<Rightarrow> None | Some v \<Rightarrow> if P k v then None else Some v)"
  using assms by (auto simp: map_of_fold_delete map_of_eq_Some_iff split: option.splits dest: eq_key_imp_eq_value)

subsection \<open>Strings with separators\<close>

lemma append_sep_inject:
  "x \<notin> set xs \<Longrightarrow> x \<notin> set ys \<Longrightarrow> xs @ x # r = ys @ x # r' \<longleftrightarrow> xs = ys \<and> r = r'"
proof (induction xs arbitrary: ys)
  case Nil
  then show ?case by (cases ys) auto
next
  case (Cons a xs)
  then show ?case by (cases ys) auto
qed

section \<open>Stores and their invariants\<close>

text \<open>A store with its initial states, the changes its operations can make, and an invariant that
  every operation keeps: the invariant then holds in every state that can be reached. Each
  store of the development interprets this locale with its own operations.\<close>

locale go_system =
  fixes init :: "'s \<Rightarrow> bool"
    and step :: "'s \<Rightarrow> 's \<Rightarrow> bool"
    and inv :: "'s \<Rightarrow> bool"
  assumes inv_init: "init s \<Longrightarrow> inv s"
    and inv_step: "inv s \<Longrightarrow> step s t \<Longrightarrow> inv t"
begin

lemma inv_steps: "step\<^sup>*\<^sup>* s t \<Longrightarrow> inv s \<Longrightarrow> inv t"
  by (induction rule: rtranclp_induct) (auto intro: inv_step)

lemma reachable_inv: "init s \<Longrightarrow> step\<^sup>*\<^sup>* s t \<Longrightarrow> inv t"
  by (blast intro: inv_steps inv_init)

text \<open>A relation that is reflexive and transitive and holds across every step holds along every run
  that starts in a state with the invariant.\<close>

lemma steps_rel:
  assumes "step\<^sup>*\<^sup>* s t" and "inv s"
    and "\<And>a. R a a" and "\<And>a b c. R a b \<Longrightarrow> R b c \<Longrightarrow> R a c"
    and "\<And>a b. inv a \<Longrightarrow> step a b \<Longrightarrow> R a b"
  shows "R s t"
  using assms(1)
proof (induction rule: rtranclp_induct)
  case base
  show ?case by (rule assms(3))
next
  case (step t u)
  have "inv t" by (rule inv_steps [OF step.hyps(1) assms(2)])
  then show ?case by (rule assms(4) [OF step.IH assms(5) [OF _ step.hyps(2)]])
qed

end

end
