(* ===== verification/Encoding.thy ===== *)
theory Encoding
  imports Prelude
begin

text \<open>
  Text encodings of Go's standard library as the sources use them: unpadded base64url
  (\<^verbatim>\<open>base64.RawURLEncoding\<close>), lower-case hexadecimal, and the identifier checks of
  \<^verbatim>\<open>internal/auth/token.go\<close>. Go strings are byte strings; HOL's \<^typ>\<open>char\<close> is a byte.

  The decoder is the one of Go's library: it skips carriage returns and line feeds wherever they
  stand and does not insist that the unused low bits of the last character are zero, so that the
  sources' canonical-form checks (decode, then compare with the re-encoding) do real work.
\<close>

section \<open>Definitions\<close>

subsection \<open>Bytes and characters\<close>

definition bytes_of :: "string \<Rightarrow> byte list" where
  "bytes_of s = map (\<lambda>c. word_of_nat (of_char c)) s"

definition string_of_bytes :: "byte list \<Rightarrow> string" where
  "string_of_bytes bs = map (\<lambda>b. char_of (unat b)) bs"

subsection \<open>Base64url without padding\<close>

definition b64_char :: "nat \<Rightarrow> char" where
  "b64_char k = char_of (if k < 26 then k + 65 else if k < 52 then k + 71
     else if k < 62 then k - 4 else if k = 62 then 45 else 95)"

definition b64_val :: "char \<Rightarrow> nat option" where
  "b64_val c = (let n = of_char c in
     if 65 \<le> n \<and> n \<le> 90 then Some (n - 65)
     else if 97 \<le> n \<and> n \<le> 122 then Some (n - 71)
     else if 48 \<le> n \<and> n \<le> 57 then Some (n + 4)
     else if n = 45 then Some 62
     else if n = (95 :: nat) then Some 63 else None)"

fun b64_sextets :: "nat list \<Rightarrow> nat list" where
  "b64_sextets [] = []"
| "b64_sextets [a] = [a div 4, (a mod 4) * 16]"
| "b64_sextets [a, b] = [a div 4, (a mod 4) * 16 + b div 16, (b mod 16) * 4]"
| "b64_sextets (a # b # c # r) =
     a div 4 # ((a mod 4) * 16 + b div 16) # ((b mod 16) * 4 + c div 64) # (c mod 64)
       # b64_sextets r"

fun b64_octets :: "nat list \<Rightarrow> nat list option" where
  "b64_octets [] = Some []"
| "b64_octets [x] = None"
| "b64_octets [x, y] = Some [x * 4 + y div 16]"
| "b64_octets [x, y, z] = Some [x * 4 + y div 16, (y mod 16) * 16 + z div 4]"
| "b64_octets (x # y # z # w # r) = map_option (\<lambda>bs.
     (x * 4 + y div 16) # ((y mod 16) * 16 + z div 4) # ((z mod 4) * 64 + w) # bs) (b64_octets r)"

definition b64_encode :: "byte list \<Rightarrow> string" where
  "b64_encode bs = map b64_char (b64_sextets (map unat bs))"

definition b64_decode :: "string \<Rightarrow> byte list option" where
  "b64_decode s =
     (case those (map b64_val (filter (\<lambda>c. c \<noteq> CHR 0x0A \<and> c \<noteq> CHR 0x0D) s)) of
        None \<Rightarrow> None
      | Some vs \<Rightarrow> map_option (map word_of_nat) (b64_octets vs))"

text \<open>The idiom \<^verbatim>\<open>decoded, err := DecodeString(value)\<close>; \<^verbatim>\<open>err == nil && len(decoded) == size\<close> and
  the value is the encoding of what was decoded.\<close>

definition canonical_bytes :: "string \<Rightarrow> nat \<Rightarrow> bool" where
  "canonical_bytes value n = (case b64_decode value of
     None \<Rightarrow> False
   | Some decoded \<Rightarrow> length decoded = n \<and> b64_encode decoded = value)"

subsection \<open>Hexadecimal\<close>

definition hex_digit :: "nat \<Rightarrow> char" where
  "hex_digit k = char_of (if k < 10 then k + 48 else k + 87)"

definition hex_encode :: "byte list \<Rightarrow> string" where
  "hex_encode bs = concat (map (\<lambda>b. [hex_digit (unat b div 16), hex_digit (unat b mod 16)]) bs)"

subsection \<open>Identifiers\<close>

definition ident_char :: "char \<Rightarrow> bool" where
  "ident_char c = (let n = (of_char c :: nat) in
     (97 \<le> n \<and> n \<le> 122) \<or> (65 \<le> n \<and> n \<le> 90) \<or> (48 \<le> n \<and> n \<le> 57) \<or>
     n = 58 \<or> n = 45 \<or> n = 95 \<or> n = 46)" \<comment> \<open>\<^verbatim>\<open>: - _ .\<close>\<close>

definition ValidIdentifier :: "string \<Rightarrow> nat \<Rightarrow> bool" where
  "ValidIdentifier value maxlen =
     (if value = [] \<or> length value > maxlen then False else list_all ident_char value)"

definition lower_hex_char :: "char \<Rightarrow> bool" where
  "lower_hex_char c = (let n = (of_char c :: nat) in
     \<not> ((n < 48 \<or> n > 57) \<and> (n < 97 \<or> n > 102)))"

definition validSHA256 :: "string \<Rightarrow> bool" where
  "validSHA256 value = (if length value \<noteq> 64 then False else list_all lower_hex_char value)"

definition MaximumBindingRevision :: "64 word" where
  "MaximumBindingRevision = 4294967295"

definition ValidBindingRevision :: "64 word \<Rightarrow> bool" where
  "ValidBindingRevision value \<longleftrightarrow> value > 0 \<and> value \<le> MaximumBindingRevision"

definition ValidBindingID :: "string \<Rightarrow> bool" where
  "ValidBindingID value = canonical_bytes value 16"

section \<open>Lemmas\<close>

lemma char_of_eq_iff_nat: "n < 256 \<Longrightarrow> m < 256 \<Longrightarrow> (char_of (n :: nat) = char_of m) = (n = m)"
  by (metis mod_less of_char_of)

lemma string_bytes [simp]: "string_of_bytes (bytes_of s) = s"
  by (induction s) (simp_all add: string_of_bytes_def bytes_of_def unat_of_nat take_bit_eq_mod)

lemma length_bytes_of [simp]: "length (bytes_of s) = length s"
  by (simp add: bytes_of_def)

subsection \<open>The base64 round trip\<close>

lemma b64_val_char [simp]: "k < 64 \<Longrightarrow> b64_val (b64_char k) = Some k"
  by (auto simp: b64_val_def b64_char_def Let_def)

lemma b64_char_not_newline [simp]:
  assumes "k < 64"
  shows "b64_char k \<noteq> CHR 0x0A" and "b64_char k \<noteq> CHR 0x0D"
proof -
  have "b64_val (CHR 0x0A) = None" and "b64_val (CHR 0x0D) = None"
    by (simp_all add: b64_val_def of_char_def)
  with b64_val_char [OF assms] show "b64_char k \<noteq> CHR 0x0A" and "b64_char k \<noteq> CHR 0x0D"
    by (metis option.distinct(1))+
qed

lemma b64_sextets_bound: "\<forall>b \<in> set bs. b < 256 \<Longrightarrow> \<forall>k \<in> set (b64_sextets bs). k < 64"
  by (induction bs rule: b64_sextets.induct) auto

lemma b64_octets_sextets: "\<forall>b \<in> set bs. b < 256 \<Longrightarrow> b64_octets (b64_sextets bs) = Some bs"
  by (induction bs rule: b64_sextets.induct) auto

lemma those_map_val_char:
  "\<forall>k \<in> set ks. k < 64 \<Longrightarrow> those (map b64_val (map b64_char ks)) = Some ks"
  by (induction ks) auto

lemma filter_newline_b64:
  "\<forall>k \<in> set ks. k < 64 \<Longrightarrow>
     filter (\<lambda>c. c \<noteq> CHR 0x0A \<and> c \<noteq> CHR 0x0D) (map b64_char ks) = map b64_char ks"
  by (induction ks) auto

lemma unat_byte_bound: "unat (b :: byte) < 256"
  using unsigned_less [of b, where 'a = nat] by simp

lemma b64_decode_encode [simp]: "b64_decode (b64_encode bs) = Some bs"
proof -
  have bytes: "\<forall>b \<in> set (map unat bs). b < 256"
    by (auto simp: unat_byte_bound)
  have sextets: "\<forall>k \<in> set (b64_sextets (map unat bs)). k < 64"
    by (rule b64_sextets_bound [OF bytes])
  have unat_back: "map (word_of_nat \<circ> unat) bs = bs"
    by (simp add: map_idI)
  show ?thesis
    unfolding b64_decode_def b64_encode_def
    by (simp only: filter_newline_b64 [OF sextets] those_map_val_char [OF sextets])
       (simp add: b64_octets_sextets [OF bytes] unat_back)
qed

lemma b64_encode_inject [simp]: "(b64_encode cs = b64_encode bs) = (cs = bs)"
  by (metis b64_decode_encode option.inject)

lemma canonical_bytes_iff: "canonical_bytes value n \<longleftrightarrow> (\<exists>bs. length bs = n \<and> value = b64_encode bs)"
  by (auto simp: canonical_bytes_def split: option.splits)

lemma canonical_bytes_encode [simp]: "canonical_bytes (b64_encode bs) n \<longleftrightarrow> length bs = n"
  by (auto simp: canonical_bytes_iff)

lemma length_b64_sextets: "length (b64_sextets bs) = (4 * length bs + 2) div 3"
  by (induction bs rule: b64_sextets.induct) auto

lemma length_b64_encode: "length (b64_encode bs) = (4 * length bs + 2) div 3"
  by (simp add: b64_encode_def length_b64_sextets)

lemma b64_char_ident: "ident_char (b64_char k)"
  by (auto simp: ident_char_def b64_char_def Let_def)

lemma ValidIdentifier_b64:
  "bs \<noteq> [] \<Longrightarrow> (4 * length bs + 2) div 3 \<le> n \<Longrightarrow> ValidIdentifier (b64_encode bs) n"
proof -
  assume nonempty: "bs \<noteq> []" and short: "(4 * length bs + 2) div 3 \<le> n"
  have "b64_encode bs \<noteq> []"
    using nonempty length_b64_encode [of bs] by (cases bs) auto
  then show ?thesis
    using short by (simp add: ValidIdentifier_def length_b64_encode)
      (simp add: b64_encode_def list_all_iff b64_char_ident)
qed

subsection \<open>Identifiers\<close>

lemma ValidIdentifier_nonempty: "ValidIdentifier v n \<Longrightarrow> v \<noteq> []"
  by (auto simp: ValidIdentifier_def)

lemma ValidIdentifier_empty [simp]: "\<not> ValidIdentifier [] n"
  by (simp add: ValidIdentifier_def)

lemma ValidIdentifier_chars: "ValidIdentifier v n \<Longrightarrow> c \<in> set v \<Longrightarrow> ident_char c"
  by (auto simp: ValidIdentifier_def list_all_iff split: if_splits)

lemma ident_char_not_NUL [simp]: "\<not> ident_char (CHR 0x00)"
  by (simp add: ident_char_def of_char_def)

lemma ValidIdentifier_no_NUL: "ValidIdentifier v n \<Longrightarrow> CHR 0x00 \<notin> set v"
  using ValidIdentifier_chars ident_char_not_NUL by blast

end
