(* ===== verification/Ledger_Spec.thy ===== *)
theory Ledger_Spec
  imports Complex_Main Encoding
begin

text \<open>
  What both budget ledgers promise (\<^verbatim>\<open>internal/usagebudget\<close> for Agent tokens, \<^verbatim>\<open>internal/speechbudget\<close>
  for speech): money is reserved before a provider is called, and each reservation ends exactly
  once, as settled, as uncertain or as released. A view of a ledger has, per account (one subject on
  one day), the committed, uncertain and reserved amounts, and the open reservations; \<open>ledger_step\<close>
  lists the permitted changes. The locale \<open>budget_ledger\<close> is the contract of an implementation: its
  operations simulate these steps. The bounds on spending are proved once, in the locale.
\<close>

section \<open>Definitions\<close>

datatype budget_error =
  BudgetInvalid | BudgetUnavailable | BudgetExceeded | ReservationLost | UsageExceeded

text \<open>The profile pattern \<^verbatim>\<open>^[A-Za-z0-9][A-Za-z0-9_.:-]{0,63}$\<close> of both packages.\<close>

definition profilePattern :: "string \<Rightarrow> bool" where
  "profilePattern s = (case s of [] \<Rightarrow> False
     | c # r \<Rightarrow> (let n = (of_char c :: nat) in
         (65 \<le> n \<and> n \<le> 90) \<or> (97 \<le> n \<and> n \<le> 122) \<or> (48 \<le> n \<and> n \<le> 57))
       \<and> length r \<le> 63 \<and> list_all ident_char r)"

text \<open>The price of a number of units at a rate per million, rounded up: the reference that the cost
  functions of both packages are compared with.\<close>

definition price_per_million :: "int \<Rightarrow> int \<Rightarrow> int" where
  "price_per_million units rate = (units * rate + 999999) div 1000000"

record ('k, 'id) ledger_view =
  lv_committed :: "'k \<Rightarrow> int"
  lv_uncertain :: "'k \<Rightarrow> int"
  lv_reserved :: "'k \<Rightarrow> int"
  lv_holds :: "('id, 'k \<times> int) gomap"

definition lv_spent :: "('k, 'id) ledger_view \<Rightarrow> 'k \<Rightarrow> int" where
  "lv_spent v k = lv_committed v k + lv_uncertain v k + lv_reserved v k"

definition held :: "('id, 'k \<times> int) gomap \<Rightarrow> 'k \<Rightarrow> int" where
  "held holds k = sum_list (map (\<lambda>(_, k', c). if k' = k then c else 0) holds)"

inductive ledger_step :: "int \<Rightarrow> ('k, 'id) ledger_view \<Rightarrow> ('k, 'id) ledger_view \<Rightarrow> bool" for budget where
  hold: "map_of (lv_holds v) i = None \<Longrightarrow> 0 < c \<Longrightarrow> lv_spent v k + c \<le> budget \<Longrightarrow>
    ledger_step budget v
      (v\<lparr>lv_reserved := (lv_reserved v)(k := lv_reserved v k + c),
        lv_holds := AList.update i (k, c) (lv_holds v)\<rparr>)"
| settle: "map_of (lv_holds v) i = Some (k, c) \<Longrightarrow> 0 \<le> cost \<Longrightarrow> cost \<le> c \<Longrightarrow>
    ledger_step budget v
      (v\<lparr>lv_reserved := (lv_reserved v)(k := lv_reserved v k - c),
        lv_committed := (lv_committed v)(k := lv_committed v k + cost),
        lv_holds := AList.delete i (lv_holds v)\<rparr>)"
| uncertain: "map_of (lv_holds v) i = Some (k, c) \<Longrightarrow>
    ledger_step budget v
      (v\<lparr>lv_reserved := (lv_reserved v)(k := lv_reserved v k - c),
        lv_uncertain := (lv_uncertain v)(k := lv_uncertain v k + c),
        lv_holds := AList.delete i (lv_holds v)\<rparr>)"
| release: "map_of (lv_holds v) i = Some (k, c) \<Longrightarrow>
    ledger_step budget v
      (v\<lparr>lv_reserved := (lv_reserved v)(k := lv_reserved v k - c),
        lv_holds := AList.delete i (lv_holds v)\<rparr>)"

abbreviation ledger_steps :: "int \<Rightarrow> ('k, 'id) ledger_view \<Rightarrow> ('k, 'id) ledger_view \<Rightarrow> bool" where
  "ledger_steps budget \<equiv> (ledger_step budget)\<^sup>*\<^sup>*"

definition ledger_inv :: "int \<Rightarrow> ('k, 'id) ledger_view \<Rightarrow> bool" where
  "ledger_inv budget v \<longleftrightarrow>
     wf_map (lv_holds v) \<and> (\<forall>i k c. map_of (lv_holds v) i = Some (k, c) \<longrightarrow> 0 < c) \<and>
     (\<forall>k. 0 \<le> lv_committed v k \<and> 0 \<le> lv_uncertain v k \<and>
          lv_reserved v k = held (lv_holds v) k \<and> lv_spent v k \<le> budget)"

section \<open>Lemmas\<close>

lemma price_split:
  assumes "0 \<le> units" and "0 \<le> rate"
  shows "units div 1000000 * rate +
      (if units mod 1000000 = 0 then 0 else (units mod 1000000 * rate + 999999) div 1000000) =
    price_per_million units rate"
proof -
  define q r where "q = units div 1000000" and "r = units mod 1000000"
  have "units = q * 1000000 + r" by (simp add: q_def r_def)
  then have "price_per_million units rate = (r * rate + 999999 + q * rate * 1000000) div 1000000"
    by (simp add: price_per_million_def algebra_simps)
  also have "\<dots> = q * rate + (r * rate + 999999) div 1000000"
    by simp
  finally show ?thesis
    by (simp add: q_def r_def)
qed

lemma price_per_million_ceiling: "price_per_million units rate = \<lceil>rat_of_int (units * rate) / 1000000\<rceil>"
proof -
  define x y where "x = units * rate" and "y = price_per_million units rate"
  define m where "m = (x + 999999) mod 1000000"
  have "x + 999999 = y * 1000000 + m" and "0 \<le> m" and "m < 1000000"
    by (simp_all add: x_def y_def m_def price_per_million_def)
  then have "(y - 1) * 1000000 < x" and "x \<le> y * 1000000" by simp_all
  then have "rat_of_int ((y - 1) * 1000000) < rat_of_int x" and "rat_of_int x \<le> rat_of_int (y * 1000000)"
    by (simp_all only: of_int_less_iff of_int_le_iff)
  then have "\<lceil>rat_of_int x / 1000000\<rceil> = y"
    by (intro ceiling_unique) (simp_all add: field_simps)
  then show ?thesis by (simp add: x_def y_def)
qed

lemma price_bounds:
  assumes "0 \<le> units" and "units \<le> u" and "0 \<le> rate" and "rate \<le> r"
  shows "0 \<le> price_per_million units rate" and "price_per_million units rate \<le> (u * r + 999999) div 1000000"
  using assms mult_mono [of units u rate r]
  by (auto simp: price_per_million_def intro!: zdiv_mono1 pos_imp_zdiv_nonneg_iff [THEN iffD2] add_nonneg_nonneg)

text \<open>The int64 computation both cost functions make: whole millions first, then the remainder
  rounded up. Within the bounds of the packages nothing wraps and the overflow guard never fires.\<close>

lemma million_arith:
  assumes "0 \<le> units" and "units \<le> 86400000" and "1 \<le> rate" and "rate \<le> 1000000000000"
  defines "whole \<equiv> i64 ((units sdiv 1000000) * rate)"
  shows "\<not> (max_int64 - (1000000 - 1)) sdiv rate < units smod 1000000"
    and "units smod 1000000 = 0 \<Longrightarrow> whole = price_per_million units rate"
    and "units smod 1000000 \<noteq> 0 \<Longrightarrow>
      i64 (whole + i64 (i64 (i64 ((units smod 1000000) * rate) + 1000000) - 1) sdiv 1000000) =
      price_per_million units rate"
proof -
  define q r where "q = units div 1000000" and "r = units mod 1000000"
  have q: "0 \<le> q" "q \<le> 86" and r: "0 \<le> r" "r < 1000000"
    using assms(1,2) by (simp_all add: q_def r_def)
  have go: "units sdiv 1000000 = q" "units smod 1000000 = r"
    using assms(1) by (simp_all add: sdiv_nonneg smod_nonneg q_def r_def)
  have qr: "0 \<le> q * rate" "q * rate \<le> 86 * 1000000000000" "0 \<le> r * rate" "r * rate \<le> 1000000 * 1000000000000"
    using q r assms(3,4) mult_mono [of q 86 rate 1000000000000] mult_mono [of r 1000000 rate 1000000000000]
    by simp_all
  have ceil: "0 \<le> (r * rate + 999999) div 1000000" "(r * rate + 999999) div 1000000 \<le> 1000000000001"
    using qr(3,4) zdiv_mono1 [of "r * rate + 999999" "1000000000000999999" 1000000]
    by (simp_all add: pos_imp_zdiv_nonneg_iff)
  have price: "price_per_million units rate = q * rate + (if r = 0 then 0 else (r * rate + 999999) div 1000000)"
    unfolding q_def r_def using assms(1,3) by (intro price_split [symmetric]) simp_all
  have "(max_int64 - (1000000 - 1)) div 1000000000000 \<le> (max_int64 - (1000000 - 1)) div rate"
    using assms(3,4) by (intro zdiv_mono2) (simp_all add: max_int64_def)
  then show "\<not> (max_int64 - (1000000 - 1)) sdiv rate < units smod 1000000"
    using r assms(3) by (simp add: go sdiv_nonneg max_int64_def)
  show "units smod 1000000 = 0 \<Longrightarrow> whole = price_per_million units rate"
    using qr by (simp add: whole_def go price i64_id)
  show "units smod 1000000 \<noteq> 0 \<Longrightarrow>
      i64 (whole + i64 (i64 (i64 ((units smod 1000000) * rate) + 1000000) - 1) sdiv 1000000) =
      price_per_million units rate"
    using qr ceil by (simp add: whole_def go price i64_id sdiv_nonneg add.commute [of 999999])
qed

lemma price_mono: "0 \<le> rate \<Longrightarrow> u \<le> v \<Longrightarrow> price_per_million u rate \<le> price_per_million v rate"
  unfolding price_per_million_def by (intro zdiv_mono1) (simp_all add: mult_right_mono)

lemma price_pos: "1 \<le> units \<Longrightarrow> 1 \<le> rate \<Longrightarrow> 1 \<le> price_per_million units rate"
proof -
  assume "1 \<le> units" and "1 \<le> rate"
  then have "1 * 1 \<le> units * rate" by (intro mult_mono) auto
  then have "1000000 div 1000000 \<le> (units * rate + 999999) div 1000000"
    by (intro zdiv_mono1) auto
  then show ?thesis by (simp add: price_per_million_def)
qed

lemma held_Nil [simp]: "held [] k = 0"
  by (simp add: held_def)

lemma held_update_new:
  "map_of holds i = None \<Longrightarrow> held (AList.update i (k, c) holds) k' = held holds k' + (if k = k' then c else 0)"
  by (simp add: held_def update_new)

lemma held_delete:
  assumes "wf_map holds" and "map_of holds i = Some (k, c)"
  shows "held (AList.delete i holds) k' = held holds k' - (if k = k' then c else 0)"
  using sum_list_delete [OF assms, of "\<lambda>(_, k'', c). if k'' = k' then c else 0"]
  by (simp add: held_def)

lemma held_nonneg:
  assumes "wf_map holds" and "\<forall>i k c. map_of holds i = Some (k, c) \<longrightarrow> 0 < c"
  shows "0 \<le> held holds k"
  unfolding held_def
proof (rule sum_list_nonneg)
  fix x
  assume "x \<in> set (map (\<lambda>(_, k', c). if k' = k then c else 0) holds)"
  then obtain i k' c where "(i, k', c) \<in> set holds" and x: "x = (if k' = k then c else 0)"
    by auto
  then have "map_of holds i = Some (k', c)"
    using assms(1) by (simp add: map_of_eq_Some_iff)
  with assms(2) x show "0 \<le> x"
    by (auto intro: less_imp_le)
qed

lemma held_ge:
  assumes "wf_map holds" and "\<forall>i k c. map_of holds i = Some (k, c) \<longrightarrow> 0 < c"
    and "map_of holds i = Some (k, c)"
  shows "c \<le> held holds k"
proof -
  have "0 \<le> held (AList.delete i holds) k"
    using assms by (intro held_nonneg) (auto split: if_splits)
  then show ?thesis
    using held_delete [OF assms(1,3), of k] by simp
qed

lemma ledger_invD:
  assumes "ledger_inv budget v"
  shows "wf_map (lv_holds v)" and "map_of (lv_holds v) i = Some (k, c) \<Longrightarrow> 0 < c"
    and "0 \<le> lv_committed v k" and "0 \<le> lv_uncertain v k"
    and "lv_reserved v k = held (lv_holds v) k" and "lv_spent v k \<le> budget"
  using assms by (simp_all add: ledger_inv_def)

lemma ledger_inv_reserved:
  assumes "ledger_inv budget v"
  shows "0 \<le> lv_reserved v k" and "map_of (lv_holds v) i = Some (k, c) \<Longrightarrow> c \<le> lv_reserved v k"
proof -
  have holds: "wf_map (lv_holds v)" "\<forall>i k c. map_of (lv_holds v) i = Some (k, c) \<longrightarrow> 0 < c"
    using assms by (simp_all add: ledger_inv_def)
  show "0 \<le> lv_reserved v k"
    using held_nonneg [OF holds] ledger_invD(5) [OF assms] by simp
  show "map_of (lv_holds v) i = Some (k, c) \<Longrightarrow> c \<le> lv_reserved v k"
    using held_ge [OF holds] ledger_invD(5) [OF assms] by simp
qed

lemma ledger_invI:
  assumes "wf_map (lv_holds v)" and "\<And>i k c. map_of (lv_holds v) i = Some (k, c) \<Longrightarrow> 0 < c"
    and "\<And>k. 0 \<le> lv_committed v k" and "\<And>k. 0 \<le> lv_uncertain v k"
    and "\<And>k. lv_reserved v k = held (lv_holds v) k" and "\<And>k. lv_spent v k \<le> budget"
  shows "ledger_inv budget v"
  unfolding ledger_inv_def using assms by blast

text \<open>Closing a reservation: the hold disappears, the reserved amount shrinks by it, and the
  account's total does not grow.\<close>

lemma ledger_inv_close:
  assumes inv: "ledger_inv budget v" and hold: "map_of (lv_holds v) i = Some (k, c)"
    and holds: "lv_holds w = AList.delete i (lv_holds v)"
    and reserved: "lv_reserved w = (lv_reserved v)(k := lv_reserved v k - c)"
    and committed: "\<And>k'. lv_committed v k' \<le> lv_committed w k'"
    and uncertain: "\<And>k'. lv_uncertain v k' \<le> lv_uncertain w k'"
    and spent: "\<And>k'. lv_spent w k' \<le> lv_spent v k'"
  shows "ledger_inv budget w"
proof (rule ledger_invI)
  show "wf_map (lv_holds w)"
    using ledger_invD(1) [OF inv] by (simp add: holds)
next
  fix i' k' c'
  assume "map_of (lv_holds w) i' = Some (k', c')"
  then show "0 < c'"
    using ledger_invD(2) [OF inv, of i' k' c'] by (simp add: holds split: if_splits)
next
  fix k'
  show "0 \<le> lv_committed w k'"
    using ledger_invD(3) [OF inv, of k'] committed [of k'] by simp
  show "0 \<le> lv_uncertain w k'"
    using ledger_invD(4) [OF inv, of k'] uncertain [of k'] by simp
  show "lv_reserved w k' = held (lv_holds w) k'"
    using ledger_invD(5) [OF inv, of k'] held_delete [OF ledger_invD(1) [OF inv] hold, of k']
    by (auto simp: holds reserved)
  show "lv_spent w k' \<le> budget"
    using ledger_invD(6) [OF inv, of k'] spent [of k'] by simp
qed

lemma ledger_step_inv: "ledger_step budget v w \<Longrightarrow> ledger_inv budget v \<Longrightarrow> ledger_inv budget w"
proof (induction rule: ledger_step.induct)
  case (hold v i c k)
  show ?case
  proof (rule ledger_invI)
    fix k'
    show "lv_spent (v\<lparr>lv_reserved := (lv_reserved v)(k := lv_reserved v k + c),
        lv_holds := AList.update i (k, c) (lv_holds v)\<rparr>) k' \<le> budget"
      using hold(3) ledger_invD(6) [OF hold(4), of k'] by (simp add: lv_spent_def)
  qed (use hold(1,2) ledger_invD [OF hold(4)] in \<open>auto simp: held_update_new split: if_splits\<close>)
next
  case (settle v i k c cost)
  then show ?case
    by (intro ledger_inv_close [OF settle(4,1)]) (auto simp: lv_spent_def)
next
  case (uncertain v i k c)
  with ledger_invD(2) [OF uncertain(2,1)] show ?case
    by (intro ledger_inv_close [OF uncertain(2,1)]) (auto simp: lv_spent_def)
next
  case (release v i k c)
  with ledger_invD(2) [OF release(2,1)] show ?case
    by (intro ledger_inv_close [OF release(2,1)]) (auto simp: lv_spent_def)
qed

lemma ledger_steps_inv: "ledger_steps budget v w \<Longrightarrow> ledger_inv budget v \<Longrightarrow> ledger_inv budget w"
  by (induction rule: rtranclp_induct) (auto intro: ledger_step_inv)

text \<open>What has been charged is never given back.\<close>

lemma ledger_step_charged:
  "ledger_step budget v w \<Longrightarrow> ledger_inv budget v \<Longrightarrow>
     lv_committed v k + lv_uncertain v k \<le> lv_committed w k + lv_uncertain w k"
  by (induction rule: ledger_step.induct) (auto dest: ledger_invD(2))

lemma ledger_steps_charged:
  "ledger_steps budget v w \<Longrightarrow> ledger_inv budget v \<Longrightarrow>
     lv_committed v k + lv_uncertain v k \<le> lv_committed w k + lv_uncertain w k"
proof (induction rule: rtranclp_induct)
  case base
  then show ?case by simp
next
  case (step w x)
  then show ?case
    using ledger_step_charged [OF step(2), of k] ledger_steps_inv [OF step(1)] by fastforce
qed

section \<open>The contract of an implementation\<close>

locale budget_ledger =
  fixes budget :: int
    and view :: "'s \<Rightarrow> ('k, 'id) ledger_view"
    and wf :: "'s \<Rightarrow> bool"
    and init :: "'s \<Rightarrow> bool"
    and step :: "'s \<Rightarrow> 's \<Rightarrow> bool"
  assumes init_wf: "init s \<Longrightarrow> wf s"
    and init_view: "init s \<Longrightarrow> ledger_inv budget (view s)"
    and step_wf: "wf s \<Longrightarrow> ledger_inv budget (view s) \<Longrightarrow> step s t \<Longrightarrow> wf t"
    and step_view: "wf s \<Longrightarrow> ledger_inv budget (view s) \<Longrightarrow> step s t \<Longrightarrow>
      ledger_steps budget (view s) (view t)"
begin

lemma step_inv:
  assumes "wf s \<and> ledger_inv budget (view s)" and "step s t"
  shows "wf t \<and> ledger_inv budget (view t)"
proof -
  have s: "wf s" "ledger_inv budget (view s)" using assms(1) by simp_all
  show ?thesis
    using step_wf [OF s assms(2)] ledger_steps_inv [OF step_view [OF s assms(2)] s(2)] by (rule conjI)
qed

lemma run_inv: "step\<^sup>*\<^sup>* s t \<Longrightarrow> wf s \<and> ledger_inv budget (view s) \<Longrightarrow> wf t \<and> ledger_inv budget (view t)"
proof (induction rule: rtranclp_induct)
  case (step t u)
  show ?case by (rule step_inv [OF step.IH [OF step.prems] step.hyps(2)])
qed

lemma run_steps: "step\<^sup>*\<^sup>* s t \<Longrightarrow> wf s \<and> ledger_inv budget (view s) \<Longrightarrow> ledger_steps budget (view s) (view t)"
proof (induction rule: rtranclp_induct)
  case base
  show ?case by simp
next
  case (step t u)
  note t = run_inv [OF step.hyps(1) step.prems]
  have "ledger_steps budget (view t) (view u)"
    using t by (intro step_view [OF _ _ step.hyps(2)]) simp_all
  with step.IH [OF step.prems] show ?case
    by (rule rtranclp_trans)
qed

lemma reachable_inv: "init s \<Longrightarrow> step\<^sup>*\<^sup>* s t \<Longrightarrow> wf t \<and> ledger_inv budget (view t)"
  by (erule run_inv) (intro conjI init_wf init_view)

lemma reachable_bounds:
  assumes "init s" and "step\<^sup>*\<^sup>* s t"
  shows "0 \<le> lv_committed (view t) k" and "0 \<le> lv_uncertain (view t) k"
    and "lv_reserved (view t) k = held (lv_holds (view t)) k" and "lv_spent (view t) k \<le> budget"
    and "0 \<le> lv_reserved (view t) k"
proof -
  have "ledger_inv budget (view t)"
    using reachable_inv [OF assms] by simp
  then show "0 \<le> lv_committed (view t) k" and "0 \<le> lv_uncertain (view t) k"
    and "lv_reserved (view t) k = held (lv_holds (view t)) k" and "lv_spent (view t) k \<le> budget"
    and "0 \<le> lv_reserved (view t) k"
    by (rule ledger_invD(3), rule ledger_invD(4), rule ledger_invD(5), rule ledger_invD(6),
        rule ledger_inv_reserved(1))
qed

lemma run_charged:
  assumes "init s" and "step\<^sup>*\<^sup>* s t" and "step\<^sup>*\<^sup>* t u"
  shows "lv_committed (view t) k + lv_uncertain (view t) k \<le> lv_committed (view u) k + lv_uncertain (view u) k"
proof -
  note t = reachable_inv [OF assms(1,2)]
  show ?thesis
    by (rule ledger_steps_charged [OF run_steps [OF assms(3) t]]) (simp add: t)
qed

end

end
