(* ===== verification/GoTime.thy ===== *)
theory GoTime
  imports Prelude
begin

text \<open>
  The part of Go's \<^verbatim>\<open>time\<close> package that the sources use. A wall-clock instant is the number of
  nanoseconds since the zero time (January 1 of year 1, UTC), so that \<^verbatim>\<open>IsZero\<close> is equality with 0
  and \<^verbatim>\<open>Unix\<close> subtracts a constant number of seconds. A \<^verbatim>\<open>time.Time\<close> read from the system clock
  carries a monotonic reading besides; \<^verbatim>\<open>UTC\<close> strips it, \<^verbatim>\<open>Add\<close> moves both, and \<^verbatim>\<open>Sub\<close>, \<^verbatim>\<open>After\<close>
  and \<^verbatim>\<open>Before\<close> compare the monotonic readings when both operands have one. Stores whose operations
  start with \<^verbatim>\<open>now.UTC()\<close> never see a monotonic reading and take the wall instant alone.
\<close>

section \<open>Definitions\<close>

type_synonym wall_time = int \<comment> \<open>nanoseconds since the zero time\<close>
type_synonym duration = int  \<comment> \<open>nanoseconds, \<^verbatim>\<open>time.Duration\<close>\<close>

record go_time =
  wall :: wall_time
  mono :: "int option"

abbreviation (input) second :: duration where "second \<equiv> 1000000000"
abbreviation (input) millisecond :: duration where "millisecond \<equiv> 1000000"
abbreviation (input) minute :: duration where "minute \<equiv> 60 * second"
abbreviation (input) hour :: duration where "hour \<equiv> 60 * minute"

definition unix_of_wall :: "wall_time \<Rightarrow> int" where
  "unix_of_wall t = t div second - 62135596800"

definition wall_of_unix :: "int \<Rightarrow> wall_time" where
  "wall_of_unix s = (s + 62135596800) * second"

definition time_zero :: go_time where
  "time_zero = \<lparr>wall = 0, mono = None\<rparr>"

definition time_is_zero :: "go_time \<Rightarrow> bool" where
  "time_is_zero t \<longleftrightarrow> wall t = 0"

definition time_utc :: "go_time \<Rightarrow> go_time" where
  "time_utc t = t\<lparr>mono := None\<rparr>"

definition time_unix :: "go_time \<Rightarrow> int" where
  "time_unix t = unix_of_wall (wall t)"

definition time_add :: "go_time \<Rightarrow> duration \<Rightarrow> go_time" where
  "time_add t d = \<lparr>wall = wall t + d, mono = map_option (\<lambda>m. m + d) (mono t)\<rparr>"

text \<open>\<^verbatim>\<open>Sub\<close> saturates at the ends of the \<^verbatim>\<open>time.Duration\<close> range.\<close>

definition saturate64 :: "int \<Rightarrow> duration" where
  "saturate64 d = max (- (2 ^ 63)) (min max_int64 d)"

definition time_sub :: "go_time \<Rightarrow> go_time \<Rightarrow> duration" where
  "time_sub t u = saturate64 (case (mono t, mono u) of
     (Some m, Some n) \<Rightarrow> m - n | _ \<Rightarrow> wall t - wall u)"

definition time_before :: "go_time \<Rightarrow> go_time \<Rightarrow> bool" where
  "time_before t u = (case (mono t, mono u) of
     (Some m, Some n) \<Rightarrow> m < n | _ \<Rightarrow> wall t < wall u)"

text \<open>
  The civil date of a wall instant, in the proleptic Gregorian calendar, and its rendering by the
  layout \<^verbatim>\<open>2006-01-02\<close>. Days are counted from March 1 of year 0, which puts the leap day at the end
  of the (March-based) year.
\<close>

definition civil_of_days :: "int \<Rightarrow> int \<times> int \<times> int" where
  "civil_of_days z =
     (let era = z div 146097;
          doe = z mod 146097;
          yoe = (doe - doe div 1460 + doe div 36524 - doe div 146096) div 365;
          doy = doe - (365 * yoe + yoe div 4 - yoe div 100);
          mp = (5 * doy + 2) div 153;
          d = doy - (153 * mp + 2) div 5 + 1;
          m = (if mp < 10 then mp + 3 else mp - 9);
          y = yoe + era * 400
      in (if m \<le> 2 then y + 1 else y, m, d))"

definition civil_of_wall :: "wall_time \<Rightarrow> int \<times> int \<times> int" where
  "civil_of_wall t = civil_of_days (t div (24 * hour) + 306)"

fun decimal_fixed :: "nat \<Rightarrow> int \<Rightarrow> string" where
  "decimal_fixed 0 n = []"
| "decimal_fixed (Suc w) n = decimal_fixed w (n div 10) @ [char_of (48 + nat (n mod 10))]"

text \<open>\<^verbatim>\<open>Format("2006-01-02")\<close> for the years up to 9999.\<close>

definition format_day :: "wall_time \<Rightarrow> string" where
  "format_day t = (case civil_of_wall t of (y, m, d) \<Rightarrow>
     decimal_fixed 4 y @ ''-'' @ decimal_fixed 2 m @ ''-'' @ decimal_fixed 2 d)"

section \<open>Lemmas\<close>

lemmas time_defs = time_is_zero_def time_utc_def time_unix_def time_add_def time_sub_def
  time_before_def saturate64_def max_int64_def

lemma unix_wall_of_unix [simp]: "unix_of_wall (wall_of_unix s) = s"
  by (simp add: unix_of_wall_def wall_of_unix_def)

lemma unix_of_wall_add_seconds: "unix_of_wall (t + n * second) = unix_of_wall t + n"
  by (simp add: unix_of_wall_def)

lemma unix_of_wall_mono: "t \<le> u \<Longrightarrow> unix_of_wall t \<le> unix_of_wall u"
  by (simp add: unix_of_wall_def zdiv_mono1)

lemma unix_le_wall_le: "unix_of_wall t < s \<Longrightarrow> t < wall_of_unix s"
proof -
  assume "unix_of_wall t < s"
  then have "t div second < s + 62135596800" by (simp add: unix_of_wall_def)
  then show ?thesis
    by (simp add: wall_of_unix_def div_less_iff_less_mult)
qed

lemma length_decimal_fixed [simp]: "length (decimal_fixed w n) = w"
  by (induction w arbitrary: n) auto

lemma length_format_day: "length (format_day t) = 10"
  by (cases "civil_of_wall t") (simp add: format_day_def)

end
