(* ===== verification/Sha256.thy ===== *)
theory Sha256
  imports Encoding
begin

unbundle bit_operations_syntax

text \<open>
  SHA-256 (FIPS 180-4) and HMAC-SHA-256 (RFC 2104), which the sources take from \<^verbatim>\<open>crypto/sha256\<close>
  and \<^verbatim>\<open>crypto/hmac\<close>. The components only need that both are functions with a 32-byte result; they
  are defined in full so that the models of token signing, claim digests and subject keys compute.
\<close>

section \<open>Definitions\<close>

type_synonym u32 = "32 word"

definition rotr32 :: "nat \<Rightarrow> u32 \<Rightarrow> u32" where
  "rotr32 n x = (drop_bit n x) OR (push_bit (32 - n) x)"

text \<open>The constants are those the standard derives: the first 32 bits of the fractional parts of the
  cube roots of the first 64 primes, and of the square roots of the first eight.\<close>

definition sha_primes :: "nat list" where
  "sha_primes = filter (\<lambda>n. list_all (\<lambda>d. n mod d \<noteq> 0) [2..<n]) [2..<312]"

text \<open>Bits from the top down, each kept when the candidate's power stays below the radicand.\<close>

fun root_bits :: "nat \<Rightarrow> int \<Rightarrow> nat \<Rightarrow> int \<Rightarrow> int" where
  "root_bits k n 0 r = r"
| "root_bits k n (Suc b) r = root_bits k n b (if (r + 2 ^ b) ^ k \<le> n then r + 2 ^ b else r)"

definition sha_k :: "u32 list" where
  "sha_k = map (\<lambda>p. word_of_int (root_bits 3 (int p * 2 ^ 96) 36 0)) sha_primes"

definition sha_h0 :: "u32 list" where
  "sha_h0 = map (\<lambda>p. word_of_int (root_bits 2 (int p * 2 ^ 64) 36 0)) [2, 3, 5, 7, 11, 13, 17, 19 :: nat]"

definition be64 :: "64 word \<Rightarrow> byte list" where
  "be64 n = map (\<lambda>i. ucast (drop_bit i n)) [56, 48, 40, 32, 24, 16, 8, 0]"

definition sha_pad :: "byte list \<Rightarrow> byte list" where
  "sha_pad m = m @ [0x80] @ replicate ((119 - length m mod 64) mod 64) 0 @ be64 (push_bit 3 (word_of_nat (length m)))"

fun words_be :: "byte list \<Rightarrow> u32 list" where
  "words_be (a # b # c # d # r) =
     (push_bit 24 (ucast a) OR push_bit 16 (ucast b) OR push_bit 8 (ucast c) OR ucast d) # words_be r"
| "words_be _ = []"

text \<open>The message schedule, kept as the sliding window of its last sixteen words.\<close>

fun sha_next_w :: "u32 list \<Rightarrow> u32" where
  "sha_next_w w = (let s0 = w ! 1; s1 = w ! 14 in
     w ! 0 + (rotr32 7 s0 XOR rotr32 18 s0 XOR drop_bit 3 s0) + w ! 9
           + (rotr32 17 s1 XOR rotr32 19 s1 XOR drop_bit 10 s1))"

fun sha_round :: "u32 list \<Rightarrow> u32 \<Rightarrow> u32 \<Rightarrow> u32 list" where
  "sha_round [a, b, c, d, e, f, g, h] k w =
     (let t1 = h + (rotr32 6 e XOR rotr32 11 e XOR rotr32 25 e) + ((e AND f) XOR (NOT e AND g)) + k + w;
          t2 = (rotr32 2 a XOR rotr32 13 a XOR rotr32 22 a) + ((a AND b) XOR (a AND c) XOR (b AND c))
      in [t1 + t2, a, b, c, d + t1, e, f, g])"
| "sha_round s k w = s"

fun sha_rounds :: "u32 list \<Rightarrow> u32 list \<Rightarrow> u32 list \<Rightarrow> u32 list" where
  "sha_rounds [] w s = s"
| "sha_rounds (k # ks) w s = sha_rounds ks (tl w @ [sha_next_w w]) (sha_round s k (hd w))"

definition sha_block :: "u32 list \<Rightarrow> byte list \<Rightarrow> u32 list" where
  "sha_block h block = map2 (+) h (sha_rounds sha_k (words_be block) h)"

function sha_blocks :: "u32 list \<Rightarrow> byte list \<Rightarrow> u32 list" where
  "sha_blocks h m = (if length m < 64 then h else sha_blocks (sha_block h (take 64 m)) (drop 64 m))"
  by pat_completeness auto
termination
  by (relation "measure (\<lambda>(h, m). length m)") auto

definition bytes_be :: "u32 \<Rightarrow> byte list" where
  "bytes_be w = [ucast (drop_bit 24 w), ucast (drop_bit 16 w), ucast (drop_bit 8 w), ucast w]"

definition sha256 :: "byte list \<Rightarrow> byte list" where
  "sha256 m = concat (map bytes_be (sha_blocks sha_h0 (sha_pad m)))"

definition hmac_sha256 :: "byte list \<Rightarrow> byte list \<Rightarrow> byte list" where
  "hmac_sha256 key m =
     (let k = (if length key > 64 then sha256 key else key);
          k' = k @ replicate (64 - length k) 0
      in sha256 (map (\<lambda>b. b XOR 0x5c) k' @ sha256 (map (\<lambda>b. b XOR 0x36) k' @ m)))"

section \<open>Lemmas\<close>

declare sha_blocks.simps [simp del]

lemma length_sha_round [simp]: "length (sha_round s k w) = length s"
  by (cases "(s, k, w)" rule: sha_round.cases) (auto simp: Let_def)

lemma length_sha_rounds [simp]: "length (sha_rounds ks w s) = length s"
  by (induction ks w s rule: sha_rounds.induct) auto

lemma length_sha_block [simp]: "length (sha_block h b) = length h"
  by (simp add: sha_block_def)

lemma length_sha_blocks [simp]: "length (sha_blocks h m) = length h"
proof (induction h m rule: sha_blocks.induct)
  case (1 h m)
  then show ?case by (cases "length m < 64") (simp_all add: sha_blocks.simps [of h m])
qed

lemma length_concat_bytes_be: "length (concat (map bytes_be ws)) = 4 * length ws"
  by (induction ws) (simp_all add: bytes_be_def)

lemma length_sha256 [simp]: "length (sha256 m) = 32"
  by (simp add: sha256_def length_concat_bytes_be sha_h0_def)

lemma length_hmac_sha256 [simp]: "length (hmac_sha256 k m) = 32"
  by (simp add: hmac_sha256_def Let_def)

end
