(* ===== verification/UsageBudget.thy ===== *)
theory UsageBudget
  imports Ledger_Spec GoTime Sha256
begin

text \<open>
  \<^verbatim>\<open>internal/usagebudget\<close>: the daily Agent token budget. The theory models the pricing and usage
  contract (\<^verbatim>\<open>contract.go\<close>) and the in-memory ledger (\<^verbatim>\<open>memory.go\<close>) with every operation as a state
  transformer, errors included; methods are modelled on non-nil receivers, and the clock reading is
  an argument. The ledger is shown to implement \<open>budget_ledger\<close>.
\<close>

section \<open>Definitions\<close>

subsection \<open>Contract\<close>

definition usage_MaximumTokenBound :: int where "usage_MaximumTokenBound = 2000000"
definition usage_MaximumRate :: int where "usage_MaximumRate = 1000000000000"
definition usage_MaximumBudget :: int where "usage_MaximumBudget = 1000000000000000"

record usage_pricing =
  up_ProfileID :: string
  up_InputMicrousdPerMillionToken :: int
  up_OutputMicrousdPerMillionToken :: int
  up_DailyBudgetMicrousd :: int
  up_InputTokenOverhead :: int
  up_ReservationTTL :: duration

definition usage_Pricing_Validate :: "usage_pricing \<Rightarrow> budget_error option" where
  "usage_Pricing_Validate p =
     (if \<not> profilePattern (up_ProfileID p) \<or>
         up_InputMicrousdPerMillionToken p < 1 \<or>
         up_InputMicrousdPerMillionToken p > usage_MaximumRate \<or>
         up_OutputMicrousdPerMillionToken p < 1 \<or>
         up_OutputMicrousdPerMillionToken p > usage_MaximumRate \<or>
         up_DailyBudgetMicrousd p < 1 \<or>
         up_DailyBudgetMicrousd p > usage_MaximumBudget \<or>
         up_InputTokenOverhead p < 0 \<or>
         up_InputTokenOverhead p > 65536 \<or>
         up_ReservationTTL p < 30 * second \<or>
         up_ReservationTTL p > 10 * minute
      then Some BudgetInvalid else None)"

record usage_reservation =
  ur_ID :: "byte list"
  ur_ReservedMicrousd :: int
  ur_InputTokenLimit :: int
  ur_OutputTokenLimit :: int

record usage_usage =
  uu_InputTokens :: int
  uu_OutputTokens :: int
  uu_TotalTokens :: int

definition usage_Usage_Validate :: "usage_usage \<Rightarrow> budget_error option" where
  "usage_Usage_Validate u =
     (if uu_InputTokens u < 1 \<or> uu_InputTokens u > usage_MaximumTokenBound \<or>
         uu_OutputTokens u < 1 \<or> uu_OutputTokens u > usage_MaximumTokenBound \<or>
         uu_TotalTokens u \<noteq> i64 (uu_InputTokens u + uu_OutputTokens u) \<or>
         uu_TotalTokens u > usage_MaximumTokenBound
      then Some BudgetInvalid else None)"

definition usage_tokenCost :: "int \<Rightarrow> int \<Rightarrow> budget_error + int" where
  "usage_tokenCost tokens rate =
     (if tokens < 0 \<or> tokens > usage_MaximumTokenBound \<or> rate < 1 \<or> rate > usage_MaximumRate
      then Inl BudgetInvalid
      else
        let whole = i64 ((tokens sdiv 1000000) * rate);
            remainder = tokens smod 1000000
        in if remainder \<noteq> 0 \<and> remainder > (max_int64 - (1000000 - 1)) sdiv rate then Inl BudgetInvalid
           else
             let whole' = (if remainder \<noteq> 0
                   then i64 (whole + i64 (i64 (i64 (remainder * rate) + 1000000) - 1) sdiv 1000000)
                   else whole)
             in if whole' < 0 \<or> whole' > usage_MaximumBudget then Inl BudgetInvalid else Inr whole')"

definition usage_reservationCost :: "usage_pricing \<Rightarrow> int \<Rightarrow> int \<Rightarrow> budget_error + int" where
  "usage_reservationCost p inputTokens outputTokens =
     (case usage_tokenCost inputTokens (up_InputMicrousdPerMillionToken p) of
        Inl e \<Rightarrow> Inl e
      | Inr input \<Rightarrow>
          (case usage_tokenCost outputTokens (up_OutputMicrousdPerMillionToken p) of
             Inl _ \<Rightarrow> Inl BudgetInvalid
           | Inr output \<Rightarrow>
               if input > i64 (usage_MaximumBudget - output) then Inl BudgetInvalid
               else Inr (i64 (input + output))))"

definition usage_validReservation :: "usage_reservation \<Rightarrow> bool" where
  "usage_validReservation r = (\<not> list_all (\<lambda>v. v = 0) (ur_ID r))"

subsection \<open>The in-memory ledger\<close>

record usage_daily =
  ud_CommittedMicrousd :: int
  ud_UncertainMicrousd :: int
  ud_ReservedMicrousd :: int
  ud_InputTokens :: int
  ud_OutputTokens :: int
  ud_SettledRequests :: int
  ud_UncertainRequests :: int

definition usage_daily_zero :: usage_daily where
  "usage_daily_zero = \<lparr>ud_CommittedMicrousd = 0, ud_UncertainMicrousd = 0, ud_ReservedMicrousd = 0,
     ud_InputTokens = 0, ud_OutputTokens = 0, ud_SettledRequests = 0, ud_UncertainRequests = 0\<rparr>"

record usage_hold =
  uh_day :: string
  uh_subject :: string
  uh_profile :: string
  uh_inputLimit :: int
  uh_outputLimit :: int
  uh_reserved :: int
  uh_expiresAt :: wall_time

record usage_ledger =
  ul_pricing :: usage_pricing
  ul_digestKey :: "byte list"
  ul_random :: "byte list"
  ul_daily :: "(string, usage_daily) gomap"
  ul_reservations :: "(byte list, usage_hold) gomap"

definition usage_NewMemoryLedger ::
  "usage_pricing \<Rightarrow> byte list \<Rightarrow> byte list \<Rightarrow> budget_error + usage_ledger" where
  "usage_NewMemoryLedger p digestKey random =
     (if usage_Pricing_Validate p \<noteq> None \<or> length digestKey \<noteq> 32 then Inl BudgetInvalid
      else Inr \<lparr>ul_pricing = p, ul_digestKey = digestKey, ul_random = random,
                ul_daily = [], ul_reservations = []\<rparr>)"

definition usage_subjectDigestDomain :: string where
  "usage_subjectDigestDomain = ''xiaozhi-agent-usage-subject-v1'' @ [CHR 0x00]"

definition usage_subjectKey :: "usage_ledger \<Rightarrow> string \<Rightarrow> string" where
  "usage_subjectKey L subject =
     hex_encode (hmac_sha256 (ul_digestKey L) (bytes_of (usage_subjectDigestDomain @ subject)))"

text \<open>The key of a reservation's account, \<^verbatim>\<open>reservation.day+":"+reservation.subject\<close>.\<close>

definition usage_daily_key :: "usage_hold \<Rightarrow> string" where
  "usage_daily_key h = uh_day h @ '':'' @ uh_subject h"

text \<open>One iteration of the loop of \<^verbatim>\<open>reconcileExpired\<close>, and the loop over the entries the map has
  when it starts.\<close>

definition usage_reconcile_one :: "wall_time \<Rightarrow> byte list \<times> usage_hold \<Rightarrow> usage_ledger \<Rightarrow> usage_ledger" where
  "usage_reconcile_one now e L =
     (case e of (i, h) \<Rightarrow>
        if uh_expiresAt h > now then L
        else
          let L' = (case map_of (ul_daily L) (usage_daily_key h) of
                None \<Rightarrow> L
              | Some d \<Rightarrow>
                  if ud_ReservedMicrousd d \<ge> uh_reserved h then
                    L\<lparr>ul_daily := AList.update (usage_daily_key h)
                        (d\<lparr>ud_ReservedMicrousd := i64 (ud_ReservedMicrousd d - uh_reserved h),
                          ud_UncertainMicrousd := i64 (ud_UncertainMicrousd d + uh_reserved h),
                          ud_UncertainRequests := i64 (ud_UncertainRequests d + 1)\<rparr>) (ul_daily L)\<rparr>
                  else L)
          in L'\<lparr>ul_reservations := AList.delete i (ul_reservations L')\<rparr>)"

definition usage_reconcileExpired :: "usage_ledger \<Rightarrow> wall_time \<Rightarrow> usage_ledger" where
  "usage_reconcileExpired L now = fold (usage_reconcile_one now) (ul_reservations L) L"

definition usage_Reserve ::
  "usage_ledger \<Rightarrow> go_ctx \<Rightarrow> string \<Rightarrow> int \<Rightarrow> int \<Rightarrow> wall_time \<Rightarrow>
   (budget_error + usage_reservation) \<times> usage_ledger" where
  "usage_Reserve L ctx subject inputLimit outputLimit now =
     (if ctx \<noteq> CtxLive \<or> subject = [] \<or> inputLimit < 1 \<or> inputLimit > usage_MaximumTokenBound \<or>
         outputLimit < 1 \<or> outputLimit > usage_MaximumTokenBound
      then (Inl BudgetInvalid, L)
      else case usage_reservationCost (ul_pricing L) inputLimit outputLimit of
        Inl _ \<Rightarrow> (Inl BudgetInvalid, L)
      | Inr cost \<Rightarrow>
        if cost < 1 then (Inl BudgetInvalid, L)
        else
          let L1 = usage_reconcileExpired L now;
              day = format_day now;
              subjectKey = usage_subjectKey L1 subject;
              dailyKey = day @ '':'' @ subjectKey;
              daily = (case map_of (ul_daily L1) dailyKey of None \<Rightarrow> usage_daily_zero | Some d \<Rightarrow> d);
              L2 = L1\<lparr>ul_daily := AList.update dailyKey daily (ul_daily L1)\<rparr>
          in
          if i64 (i64 (ud_CommittedMicrousd daily + ud_UncertainMicrousd daily) + ud_ReservedMicrousd daily)
               > i64 (up_DailyBudgetMicrousd (ul_pricing L2) - cost)
          then (Inl BudgetExceeded, L2)
          else case read_full 16 (ul_random L2) of
            None \<Rightarrow> (Inl BudgetUnavailable, L2\<lparr>ul_random := []\<rparr>)
          | Some (i, random) \<Rightarrow>
              let L3 = L2\<lparr>ul_random := random\<rparr> in
              if map_of (ul_reservations L3) i \<noteq> None then (Inl BudgetUnavailable, L3)
              else
                (Inr \<lparr>ur_ID = i, ur_ReservedMicrousd = cost,
                      ur_InputTokenLimit = inputLimit, ur_OutputTokenLimit = outputLimit\<rparr>,
                 L3\<lparr>ul_reservations := AList.update i
                       \<lparr>uh_day = day, uh_subject = subjectKey,
                        uh_profile = up_ProfileID (ul_pricing L3),
                        uh_inputLimit = inputLimit, uh_outputLimit = outputLimit,
                        uh_reserved = cost,
                        uh_expiresAt = now + up_ReservationTTL (ul_pricing L3)\<rparr> (ul_reservations L3),
                    ul_daily := AList.update dailyKey
                       (daily\<lparr>ud_ReservedMicrousd := i64 (ud_ReservedMicrousd daily + cost)\<rparr>)
                       (ul_daily L3)\<rparr>))"

definition usage_Settle ::
  "usage_ledger \<Rightarrow> go_ctx \<Rightarrow> usage_reservation \<Rightarrow> usage_usage \<Rightarrow>
   (budget_error + int) \<times> usage_ledger" where
  "usage_Settle L ctx r u =
     (if ctx \<noteq> CtxLive \<or> \<not> usage_validReservation r \<or> usage_Usage_Validate u \<noteq> None
      then (Inl BudgetInvalid, L)
      else case map_of (ul_reservations L) (ur_ID r) of
        None \<Rightarrow> (Inl ReservationLost, L)
      | Some stored \<Rightarrow>
        if uu_InputTokens u > uh_inputLimit stored \<or> uu_OutputTokens u > uh_outputLimit stored
        then (Inl UsageExceeded, L)
        else case usage_reservationCost (ul_pricing L) (uu_InputTokens u) (uu_OutputTokens u) of
          Inl _ \<Rightarrow> (Inl UsageExceeded, L)
        | Inr cost \<Rightarrow>
          if cost > uh_reserved stored then (Inl UsageExceeded, L)
          else case map_of (ul_daily L) (usage_daily_key stored) of
            None \<Rightarrow> (Inl BudgetUnavailable, L)
          | Some daily \<Rightarrow>
            if ud_ReservedMicrousd daily < uh_reserved stored then (Inl BudgetUnavailable, L)
            else
              (Inr cost,
               L\<lparr>ul_daily := AList.update (usage_daily_key stored)
                   (daily\<lparr>ud_ReservedMicrousd := i64 (ud_ReservedMicrousd daily - uh_reserved stored),
                     ud_CommittedMicrousd := i64 (ud_CommittedMicrousd daily + cost),
                     ud_InputTokens := i64 (ud_InputTokens daily + uu_InputTokens u),
                     ud_OutputTokens := i64 (ud_OutputTokens daily + uu_OutputTokens u),
                     ud_SettledRequests := i64 (ud_SettledRequests daily + 1)\<rparr>) (ul_daily L),
                  ul_reservations := AList.delete (ur_ID r) (ul_reservations L)\<rparr>))"

definition usage_MarkUncertain ::
  "usage_ledger \<Rightarrow> go_ctx \<Rightarrow> usage_reservation \<Rightarrow> (budget_error + int) \<times> usage_ledger" where
  "usage_MarkUncertain L ctx r =
     (if ctx \<noteq> CtxLive \<or> \<not> usage_validReservation r then (Inl BudgetInvalid, L)
      else case map_of (ul_reservations L) (ur_ID r) of
        None \<Rightarrow> (Inl ReservationLost, L)
      | Some stored \<Rightarrow>
        (case map_of (ul_daily L) (usage_daily_key stored) of
           None \<Rightarrow> (Inl BudgetUnavailable, L)
         | Some daily \<Rightarrow>
           if ud_ReservedMicrousd daily < uh_reserved stored then (Inl BudgetUnavailable, L)
           else
             (Inr (uh_reserved stored),
              L\<lparr>ul_daily := AList.update (usage_daily_key stored)
                  (daily\<lparr>ud_ReservedMicrousd := i64 (ud_ReservedMicrousd daily - uh_reserved stored),
                    ud_UncertainMicrousd := i64 (ud_UncertainMicrousd daily + uh_reserved stored),
                    ud_UncertainRequests := i64 (ud_UncertainRequests daily + 1)\<rparr>) (ul_daily L),
                 ul_reservations := AList.delete (ur_ID r) (ul_reservations L)\<rparr>)))"

definition usage_Release ::
  "usage_ledger \<Rightarrow> go_ctx \<Rightarrow> usage_reservation \<Rightarrow> (budget_error + unit) \<times> usage_ledger" where
  "usage_Release L ctx r =
     (if ctx \<noteq> CtxLive \<or> \<not> usage_validReservation r then (Inl BudgetInvalid, L)
      else case map_of (ul_reservations L) (ur_ID r) of
        None \<Rightarrow> (Inl ReservationLost, L)
      | Some stored \<Rightarrow>
        (case map_of (ul_daily L) (usage_daily_key stored) of
           None \<Rightarrow> (Inl BudgetUnavailable, L)
         | Some daily \<Rightarrow>
           if ud_ReservedMicrousd daily < uh_reserved stored then (Inl BudgetUnavailable, L)
           else
             (Inr (),
              L\<lparr>ul_daily := AList.update (usage_daily_key stored)
                  (daily\<lparr>ud_ReservedMicrousd := i64 (ud_ReservedMicrousd daily - uh_reserved stored)\<rparr>)
                  (ul_daily L),
                 ul_reservations := AList.delete (ur_ID r) (ul_reservations L)\<rparr>)))"

text \<open>Any one call on the ledger, in any order and at any clock reading.\<close>

inductive usage_step :: "usage_ledger \<Rightarrow> usage_ledger \<Rightarrow> bool" where
  reserve: "usage_step L (snd (usage_Reserve L ctx subject inputLimit outputLimit now))"
| settle: "usage_step L (snd (usage_Settle L ctx r u))"
| markUncertain: "usage_step L (snd (usage_MarkUncertain L ctx r))"
| release: "usage_step L (snd (usage_Release L ctx r))"

text \<open>A later call that does not issue the reservation ID \<open>i\<close>: \<^verbatim>\<open>Reserve\<close> draws its IDs at random and compares them
  with the open reservations only, so a closed ID may be drawn again.\<close>

inductive usage_later :: "byte list \<Rightarrow> usage_ledger \<Rightarrow> usage_ledger \<Rightarrow> bool" for i where
  reserve: "(\<And>r. fst (usage_Reserve L ctx subject inputLimit outputLimit now) = Inr r \<Longrightarrow> ur_ID r \<noteq> i) \<Longrightarrow>
    usage_later i L (snd (usage_Reserve L ctx subject inputLimit outputLimit now))"
| settle: "usage_later i L (snd (usage_Settle L ctx r u))"
| markUncertain: "usage_later i L (snd (usage_MarkUncertain L ctx r))"
| release: "usage_later i L (snd (usage_Release L ctx r))"

subsection \<open>The abstract view\<close>

definition usage_account :: "(usage_daily \<Rightarrow> int) \<Rightarrow> usage_ledger \<Rightarrow> string \<Rightarrow> int" where
  "usage_account f L k = (case map_of (ul_daily L) k of None \<Rightarrow> 0 | Some d \<Rightarrow> f d)"

definition usage_view :: "usage_ledger \<Rightarrow> (string, byte list) ledger_view" where
  "usage_view L =
     \<lparr>lv_committed = usage_account ud_CommittedMicrousd L,
      lv_uncertain = usage_account ud_UncertainMicrousd L,
      lv_reserved = usage_account ud_ReservedMicrousd L,
      lv_holds = map_values (\<lambda>h. (usage_daily_key h, uh_reserved h)) (ul_reservations L)\<rparr>"

definition usage_hold_ok :: "usage_pricing \<Rightarrow> usage_hold \<Rightarrow> bool" where
  "usage_hold_ok p h \<longleftrightarrow>
     1 \<le> uh_inputLimit h \<and> uh_inputLimit h \<le> usage_MaximumTokenBound \<and>
     1 \<le> uh_outputLimit h \<and> uh_outputLimit h \<le> usage_MaximumTokenBound \<and>
     usage_reservationCost p (uh_inputLimit h) (uh_outputLimit h) = Inr (uh_reserved h)"

definition usage_wf :: "usage_pricing \<Rightarrow> usage_ledger \<Rightarrow> bool" where
  "usage_wf p L \<longleftrightarrow> ul_pricing L = p \<and> usage_Pricing_Validate p = None \<and>
     wf_map (ul_daily L) \<and> wf_map (ul_reservations L) \<and>
     (\<forall>i h. map_of (ul_reservations L) i = Some h \<longrightarrow> usage_hold_ok p h)"

definition usage_init :: "usage_pricing \<Rightarrow> usage_ledger \<Rightarrow> bool" where
  "usage_init p L \<longleftrightarrow> (\<exists>key random. usage_NewMemoryLedger p key random = Inr L)"

subsection \<open>Example\<close>

text \<open>A ledger for the witnesses: one account, a small budget, and enough random bytes for two
  reservation IDs.\<close>

definition usage_example_pricing :: usage_pricing where
  "usage_example_pricing = \<lparr>up_ProfileID = ''primary-model'', up_InputMicrousdPerMillionToken = 150000,
     up_OutputMicrousdPerMillionToken = 600000, up_DailyBudgetMicrousd = 1000,
     up_InputTokenOverhead = 64, up_ReservationTTL = 60 * second\<rparr>"

definition usage_example_ledger :: usage_ledger where
  "usage_example_ledger = \<lparr>ul_pricing = usage_example_pricing, ul_digestKey = replicate 32 7,
     ul_random = replicate 16 1 @ replicate 16 2, ul_daily = [], ul_reservations = []\<rparr>"

text \<open>The first reservation on the example ledger, for 1000 input and 500 output tokens at the
  zero time: 150 + 300 micro-USD.\<close>

definition usage_example_key :: string where
  "usage_example_key = format_day 0 @ '':'' @ usage_subjectKey usage_example_ledger ''user-1''"

definition usage_example_reserved :: usage_ledger where
  "usage_example_reserved = snd (usage_Reserve usage_example_ledger CtxLive ''user-1'' 1000 500 0)"

section \<open>Lemmas\<close>

subsection \<open>Costs\<close>

lemmas usage_consts = usage_MaximumTokenBound_def usage_MaximumRate_def usage_MaximumBudget_def

lemma tokenCost_exact:
  assumes "0 \<le> tokens" "tokens \<le> usage_MaximumTokenBound" "1 \<le> rate" "rate \<le> usage_MaximumRate"
  shows "usage_tokenCost tokens rate = Inr (price_per_million tokens rate)"
  using assms million_arith [of tokens rate] price_bounds [of tokens 2000000 rate 1000000000000]
  by (simp add: usage_tokenCost_def Let_def usage_consts)

lemma reservationCost_exact:
  assumes "usage_Pricing_Validate p = None"
    and "0 \<le> i" "i \<le> usage_MaximumTokenBound" "0 \<le> out" "out \<le> usage_MaximumTokenBound"
  shows "usage_reservationCost p i out =
    Inr (price_per_million i (up_InputMicrousdPerMillionToken p) +
         price_per_million out (up_OutputMicrousdPerMillionToken p))"
    and "price_per_million i (up_InputMicrousdPerMillionToken p) +
         price_per_million out (up_OutputMicrousdPerMillionToken p) \<le> 4000000000001"
proof -
  let ?ri = "up_InputMicrousdPerMillionToken p" and ?ro = "up_OutputMicrousdPerMillionToken p"
  have rates: "1 \<le> ?ri" "?ri \<le> usage_MaximumRate" "1 \<le> ?ro" "?ro \<le> usage_MaximumRate"
    using assms(1) by (auto simp: usage_Pricing_Validate_def split: if_splits)
  have pi: "0 \<le> price_per_million i ?ri" "price_per_million i ?ri \<le> 2000000000000"
    using price_bounds [OF assms(2,3) _ rates(2)] rates(1) by (simp_all add: usage_consts)
  have po: "0 \<le> price_per_million out ?ro" "price_per_million out ?ro \<le> 2000000000000"
    using price_bounds [OF assms(4,5) _ rates(4)] rates(3) by (simp_all add: usage_consts)
  show "usage_reservationCost p i out = Inr (price_per_million i ?ri + price_per_million out ?ro)"
    using assms rates pi po unfolding usage_reservationCost_def
    by (simp add: tokenCost_exact i64_id usage_MaximumBudget_def)
  show "price_per_million i ?ri + price_per_million out ?ro \<le> 4000000000001"
    using pi po by simp
qed

subsection \<open>The ledger implements the contract\<close>

lemma usage_account_Some [simp]: "map_of (ul_daily L) k = Some d \<Longrightarrow> usage_account f L k = f d"
  by (simp add: usage_account_def)

lemma usage_view_close:
  "usage_view (L\<lparr>ul_daily := AList.update k d (ul_daily L), ul_reservations := AList.delete i (ul_reservations L)\<rparr>) =
   (usage_view L)\<lparr>lv_reserved := (lv_reserved (usage_view L))(k := ud_ReservedMicrousd d),
     lv_committed := (lv_committed (usage_view L))(k := ud_CommittedMicrousd d),
     lv_uncertain := (lv_uncertain (usage_view L))(k := ud_UncertainMicrousd d),
     lv_holds := AList.delete i (lv_holds (usage_view L))\<rparr>"
  by (simp add: usage_view_def usage_account_def fun_eq_iff)

lemma usage_budget_bound:
  "usage_Pricing_Validate p = None \<Longrightarrow> 1 \<le> up_DailyBudgetMicrousd p \<and> up_DailyBudgetMicrousd p \<le> 1000000000000000"
  by (auto simp: usage_Pricing_Validate_def usage_MaximumBudget_def split: if_splits)

text \<open>The account of an open reservation exists and covers it; its amounts are far from overflow.\<close>

lemma usage_open_daily:
  assumes "usage_wf p L" and "ledger_inv (up_DailyBudgetMicrousd p) (usage_view L)"
    and "map_of (ul_reservations L) i = Some h"
  obtains d where "map_of (ul_daily L) (usage_daily_key h) = Some d"
    and "0 < uh_reserved h" and "uh_reserved h \<le> ud_ReservedMicrousd d"
    and "0 \<le> ud_CommittedMicrousd d" and "0 \<le> ud_UncertainMicrousd d"
    and "ud_CommittedMicrousd d + ud_UncertainMicrousd d + ud_ReservedMicrousd d \<le> 1000000000000000"
proof -
  let ?k = "usage_daily_key h"
  have hold: "map_of (lv_holds (usage_view L)) i = Some (?k, uh_reserved h)"
    using assms(3) by (simp add: usage_view_def)
  note facts = ledger_invD(2) [OF assms(2) hold] ledger_inv_reserved(2) [OF assms(2) hold]
    ledger_invD(3,4,6) [OF assms(2), of ?k]
  from facts(1,2) obtain d where "map_of (ul_daily L) ?k = Some d"
    by (auto simp: usage_view_def usage_account_def split: option.splits)
  moreover have "up_DailyBudgetMicrousd p \<le> 1000000000000000"
    using assms(1) usage_budget_bound by (simp add: usage_wf_def)
  ultimately show ?thesis
    using facts that by (simp add: usage_view_def lv_spent_def)
qed

lemma usage_wf_close:
  "usage_wf p L \<Longrightarrow> usage_wf p (L\<lparr>ul_daily := AList.update k d (ul_daily L),
     ul_reservations := AList.delete i (ul_reservations L)\<rparr>)"
  by (auto simp: usage_wf_def split: if_splits)

text \<open>Turning an expired or abandoned reservation into an uncertain charge.\<close>

lemma usage_uncertain_step:
  assumes "usage_wf p L" and "ledger_inv (up_DailyBudgetMicrousd p) (usage_view L)"
    and hold: "map_of (ul_reservations L) i = Some h"
    and daily: "map_of (ul_daily L) (usage_daily_key h) = Some d"
  shows "ledger_step (up_DailyBudgetMicrousd p) (usage_view L)
    (usage_view (L\<lparr>ul_daily := AList.update (usage_daily_key h)
        (d\<lparr>ud_ReservedMicrousd := i64 (ud_ReservedMicrousd d - uh_reserved h),
          ud_UncertainMicrousd := i64 (ud_UncertainMicrousd d + uh_reserved h),
          ud_UncertainRequests := i64 (ud_UncertainRequests d + 1)\<rparr>) (ul_daily L),
        ul_reservations := AList.delete i (ul_reservations L)\<rparr>))"
proof -
  obtain d' where d': "map_of (ul_daily L) (usage_daily_key h) = Some d'"
    "0 < uh_reserved h" "uh_reserved h \<le> ud_ReservedMicrousd d'"
    "0 \<le> ud_CommittedMicrousd d'" "0 \<le> ud_UncertainMicrousd d'"
    "ud_CommittedMicrousd d' + ud_UncertainMicrousd d' + ud_ReservedMicrousd d' \<le> 1000000000000000"
    by (rule usage_open_daily [OF assms(1,2) hold])
  with daily have bounds: "0 < uh_reserved h" "uh_reserved h \<le> ud_ReservedMicrousd d"
    "0 \<le> ud_CommittedMicrousd d" "0 \<le> ud_UncertainMicrousd d"
    "ud_CommittedMicrousd d + ud_UncertainMicrousd d + ud_ReservedMicrousd d \<le> 1000000000000000"
    by simp_all
  have "map_of (lv_holds (usage_view L)) i = Some (usage_daily_key h, uh_reserved h)"
    using hold by (simp add: usage_view_def)
  from ledger_step.uncertain [OF this, of "up_DailyBudgetMicrousd p"] show ?thesis
    unfolding usage_view_close using bounds daily
    by (simp add: i64_id usage_view_def fun_upd_idem)
qed

lemma usage_reconcile_one_open:
  assumes "usage_wf p L" and "ledger_inv (up_DailyBudgetMicrousd p) (usage_view L)"
    and hold: "map_of (ul_reservations L) i = Some h"
  shows "usage_wf p (usage_reconcile_one now (i, h) L)"
    and "ledger_steps (up_DailyBudgetMicrousd p) (usage_view L) (usage_view (usage_reconcile_one now (i, h) L))"
    and "ul_reservations (usage_reconcile_one now (i, h) L) =
      (if uh_expiresAt h > now then ul_reservations L else AList.delete i (ul_reservations L))"
    and "ul_random (usage_reconcile_one now (i, h) L) = ul_random L"
    and "ul_digestKey (usage_reconcile_one now (i, h) L) = ul_digestKey L"
proof -
  obtain d where d: "map_of (ul_daily L) (usage_daily_key h) = Some d" "uh_reserved h \<le> ud_ReservedMicrousd d"
    by (rule usage_open_daily [OF assms])
  have eq: "usage_reconcile_one now (i, h) L =
    (if uh_expiresAt h > now then L
     else L\<lparr>ul_daily := AList.update (usage_daily_key h)
        (d\<lparr>ud_ReservedMicrousd := i64 (ud_ReservedMicrousd d - uh_reserved h),
          ud_UncertainMicrousd := i64 (ud_UncertainMicrousd d + uh_reserved h),
          ud_UncertainRequests := i64 (ud_UncertainRequests d + 1)\<rparr>) (ul_daily L),
        ul_reservations := AList.delete i (ul_reservations L)\<rparr>)"
    using d by (simp add: usage_reconcile_one_def)
  show "usage_wf p (usage_reconcile_one now (i, h) L)"
    unfolding eq using assms(1) usage_wf_close by simp
  show "ledger_steps (up_DailyBudgetMicrousd p) (usage_view L) (usage_view (usage_reconcile_one now (i, h) L))"
    unfolding eq using usage_uncertain_step [OF assms d(1)] by (auto intro: r_into_rtranclp)
  show "ul_reservations (usage_reconcile_one now (i, h) L) =
      (if uh_expiresAt h > now then ul_reservations L else AList.delete i (ul_reservations L))"
    and "ul_random (usage_reconcile_one now (i, h) L) = ul_random L"
    and "ul_digestKey (usage_reconcile_one now (i, h) L) = ul_digestKey L"
    unfolding eq by simp_all
qed

lemma usage_reconcile_fold:
  assumes "usage_wf p L" and "ledger_inv (up_DailyBudgetMicrousd p) (usage_view L)"
    and "wf_map es" and "\<And>i h. (i, h) \<in> set es \<Longrightarrow> map_of (ul_reservations L) i = Some h"
  shows "usage_wf p (fold (usage_reconcile_one now) es L) \<and>
    ledger_steps (up_DailyBudgetMicrousd p) (usage_view L) (usage_view (fold (usage_reconcile_one now) es L)) \<and>
    ul_random (fold (usage_reconcile_one now) es L) = ul_random L \<and>
    ul_digestKey (fold (usage_reconcile_one now) es L) = ul_digestKey L"
  using assms
proof (induction es arbitrary: L)
  case Nil
  then show ?case by simp
next
  case (Cons e es)
  obtain i h where e: "e = (i, h)" by (cases e)
  have hold: "map_of (ul_reservations L) i = Some h"
    using Cons.prems(4) e by simp
  note one = usage_reconcile_one_open [OF Cons.prems(1,2) hold, of now]
  let ?L = "usage_reconcile_one now (i, h) L"
  have keep: "map_of (ul_reservations ?L) i' = Some h'" if "(i', h') \<in> set es" for i' h'
  proof -
    have "i' \<noteq> i" using Cons.prems(3) e that by (auto simp: image_iff)
    then show ?thesis using Cons.prems(4) [of i' h'] that one(3) by simp
  qed
  have "wf_map es" using Cons.prems(3) by simp
  from Cons.IH [OF one(1) ledger_steps_inv [OF one(2) Cons.prems(2)] this keep] show ?case
    using one(2,4,5) e by (auto intro: rtranclp_trans)
qed

lemma usage_reconcileExpired_sim:
  assumes "usage_wf p L" and "ledger_inv (up_DailyBudgetMicrousd p) (usage_view L)"
  shows "usage_wf p (usage_reconcileExpired L now)"
    and "ledger_steps (up_DailyBudgetMicrousd p) (usage_view L) (usage_view (usage_reconcileExpired L now))"
    and "ul_random (usage_reconcileExpired L now) = ul_random L"
    and "ul_digestKey (usage_reconcileExpired L now) = ul_digestKey L"
  using usage_reconcile_fold [OF assms, of "ul_reservations L" now] assms(1)
  by (auto simp: usage_reconcileExpired_def usage_wf_def map_of_eq_Some_iff)

text \<open>Creating the account on first use does not change the view.\<close>

definition usage_touch :: "string \<Rightarrow> usage_ledger \<Rightarrow> usage_ledger" where
  "usage_touch k L = L\<lparr>ul_daily := AList.update k
     (case map_of (ul_daily L) k of None \<Rightarrow> usage_daily_zero | Some d \<Rightarrow> d) (ul_daily L)\<rparr>"

lemma usage_view_touch [simp]: "usage_view (usage_touch k L) = usage_view L"
  by (auto simp: usage_touch_def usage_view_def usage_account_def usage_daily_zero_def fun_eq_iff
      split: option.splits)

lemma usage_view_random [simp]: "usage_view (L\<lparr>ul_random := r\<rparr>) = usage_view L"
  by (simp add: usage_view_def usage_account_def fun_eq_iff)

lemma usage_wf_touch: "usage_wf p L \<Longrightarrow> usage_wf p (usage_touch k L)"
  by (simp add: usage_touch_def usage_wf_def)

lemma usage_wf_random: "usage_wf p L \<Longrightarrow> usage_wf p (L\<lparr>ul_random := r\<rparr>)"
  by (simp add: usage_wf_def)

text \<open>Opening a reservation.\<close>

lemma usage_hold_step:
  assumes wf: "usage_wf p L" and inv: "ledger_inv (up_DailyBudgetMicrousd p) (usage_view L)"
    and new: "map_of (ul_reservations L) i = None"
    and daily: "map_of (ul_daily L) (usage_daily_key h) = Some d"
    and hold: "usage_hold_ok p h" and pos: "1 \<le> uh_reserved h"
    and room: "\<not> i64 (i64 (ud_CommittedMicrousd d + ud_UncertainMicrousd d) + ud_ReservedMicrousd d)
        > i64 (up_DailyBudgetMicrousd p - uh_reserved h)"
  defines "L' \<equiv> L\<lparr>ul_reservations := AList.update i h (ul_reservations L),
      ul_daily := AList.update (usage_daily_key h)
        (d\<lparr>ud_ReservedMicrousd := i64 (ud_ReservedMicrousd d + uh_reserved h)\<rparr>) (ul_daily L)\<rparr>"
  shows "usage_wf p L'" and "ledger_step (up_DailyBudgetMicrousd p) (usage_view L) (usage_view L')"
proof -
  let ?k = "usage_daily_key h"
  have p: "usage_Pricing_Validate p = None" using wf by (simp add: usage_wf_def)
  show "usage_wf p L'"
    using wf hold by (auto simp: L'_def usage_wf_def split: if_splits)
  have acct: "0 \<le> ud_CommittedMicrousd d" "0 \<le> ud_UncertainMicrousd d" "0 \<le> ud_ReservedMicrousd d"
      "ud_CommittedMicrousd d + ud_UncertainMicrousd d + ud_ReservedMicrousd d \<le> up_DailyBudgetMicrousd p"
    using ledger_invD(3,4,6) [OF inv, of ?k] ledger_inv_reserved(1) [OF inv, of ?k] daily
    by (simp_all add: usage_view_def lv_spent_def)
  have cost: "uh_reserved h \<le> 4000000000001"
    using reservationCost_exact [OF p, of "uh_inputLimit h" "uh_outputLimit h"] hold
    by (simp add: usage_hold_ok_def)
  have fits: "lv_spent (usage_view L) ?k + uh_reserved h \<le> up_DailyBudgetMicrousd p"
    using room acct cost pos usage_budget_bound [OF p] daily
    by (simp add: i64_id usage_view_def lv_spent_def)
  have view: "usage_view L' = (usage_view L)\<lparr>
      lv_reserved := (lv_reserved (usage_view L))(?k := lv_reserved (usage_view L) ?k + uh_reserved h),
      lv_holds := AList.update i (?k, uh_reserved h) (lv_holds (usage_view L))\<rparr>"
    using daily acct cost pos usage_budget_bound [OF p]
    by (simp add: L'_def usage_view_def usage_account_def fun_eq_iff i64_id)
  show "ledger_step (up_DailyBudgetMicrousd p) (usage_view L) (usage_view L')"
    unfolding view using new pos fits by (intro ledger_step.hold) (simp_all add: usage_view_def)
qed

lemma usage_Reserve_sim:
  assumes wf: "usage_wf p L" and inv: "ledger_inv (up_DailyBudgetMicrousd p) (usage_view L)"
    and L': "L' = snd (usage_Reserve L ctx subject inputLimit outputLimit now)"
  shows "usage_wf p L' \<and> ledger_steps (up_DailyBudgetMicrousd p) (usage_view L) (usage_view L')"
proof -
  define L1 where "L1 = usage_reconcileExpired L now"
  define k where "k = format_day now @ '':'' @ usage_subjectKey L1 subject"
  define L2 where "L2 = usage_touch k L1"
  note rec = usage_reconcileExpired_sim [OF wf inv, of now, folded L1_def]
  have wf2: "usage_wf p (L2\<lparr>ul_random := r\<rparr>)" for r
    unfolding L2_def by (intro usage_wf_random usage_wf_touch rec(1))
  have inv2: "ledger_inv (up_DailyBudgetMicrousd p) (usage_view (L2\<lparr>ul_random := r\<rparr>))" for r
    using ledger_steps_inv [OF rec(2) inv] by (simp add: L2_def)
  have pricing: "ul_pricing L = p" "ul_pricing L1 = p" using wf rec(1) by (simp_all add: usage_wf_def)
  let ?bad = "ctx \<noteq> CtxLive \<or> subject = [] \<or> inputLimit < 1 \<or> inputLimit > usage_MaximumTokenBound \<or>
     outputLimit < 1 \<or> outputLimit > usage_MaximumTokenBound"
  define d where "d = (case map_of (ul_daily L1) k of None \<Rightarrow> usage_daily_zero | Some d \<Rightarrow> d)"
  have daily2: "map_of (ul_daily (L2\<lparr>ul_random := r\<rparr>)) k = Some d" for r
    by (simp add: L2_def usage_touch_def d_def)
  have L2_eq: "L1\<lparr>ul_daily := AList.update k d (ul_daily L1)\<rparr> = L2"
    by (simp add: L2_def usage_touch_def d_def)
  have keep2: "usage_wf p (L2\<lparr>ul_random := r\<rparr>) \<and>
      ledger_steps (up_DailyBudgetMicrousd p) (usage_view L) (usage_view (L2\<lparr>ul_random := r\<rparr>))" for r
    using wf2 rec(2) by (simp add: L2_def)
  have random2: "ul_random L2 = ul_random L1" "L2\<lparr>ul_random := ul_random L1\<rparr> = L2"
    by (simp_all add: L2_def usage_touch_def)
  show ?thesis
  proof (cases "usage_reservationCost p inputLimit outputLimit")
    case (Inl e)
    then have "L' = L" by (simp add: L' usage_Reserve_def pricing)
    then show ?thesis using wf by simp
  next
    case (Inr cost)
    note reserve = L' [unfolded usage_Reserve_def pricing Inr sum.case Let_def, folded L1_def, folded k_def, folded d_def, unfolded L2_eq]
    let ?full = "i64 (i64 (ud_CommittedMicrousd d + ud_UncertainMicrousd d) + ud_ReservedMicrousd d)
        > i64 (up_DailyBudgetMicrousd p - cost)"
    have pricing2: "ul_pricing L2 = p" by (simp add: L2_def usage_touch_def pricing)
    consider "?bad \<or> cost < 1" | "\<not> ?bad" "1 \<le> cost" "?full"
      | "\<not> ?bad" "1 \<le> cost" "\<not> ?full" "read_full 16 (ul_random L2) = None"
      | i r where "\<not> ?bad" "1 \<le> cost" "\<not> ?full" "read_full 16 (ul_random L2) = Some (i, r)"
      by force
    then show ?thesis
    proof cases
      case 1
      then have "L' = L" unfolding reserve by auto
      then show ?thesis using wf by simp
    next
      case 2
      then have "L' = L2" unfolding reserve by (simp add: pricing2)
      then show ?thesis using keep2 [of "ul_random L1"] random2 by simp
    next
      case 3
      then have "L' = L2\<lparr>ul_random := []\<rparr>" unfolding reserve by (simp add: pricing2)
      then show ?thesis using keep2 by simp
    next
      case 4
      let ?L3 = "L2\<lparr>ul_random := r\<rparr>"
      let ?h = "\<lparr>uh_day = format_day now, uh_subject = usage_subjectKey L1 subject, uh_profile = up_ProfileID p,
         uh_inputLimit = inputLimit, uh_outputLimit = outputLimit, uh_reserved = cost,
         uh_expiresAt = now + up_ReservationTTL p\<rparr>"
      have key: "usage_daily_key ?h = k" by (simp add: usage_daily_key_def k_def)
      have ok: "usage_hold_ok p ?h" using 4 Inr by (simp add: usage_hold_ok_def)
      show ?thesis
      proof (cases "map_of (ul_reservations ?L3) i")
        case None
        then have "L' = ?L3\<lparr>ul_reservations := AList.update i ?h (ul_reservations ?L3),
            ul_daily := AList.update (usage_daily_key ?h)
              (d\<lparr>ud_ReservedMicrousd := i64 (ud_ReservedMicrousd d + uh_reserved ?h)\<rparr>) (ul_daily ?L3)\<rparr>"
          unfolding reserve using 4 by (simp add: pricing2 key)
        moreover note usage_hold_step [OF wf2 inv2 None _ ok, unfolded key, OF daily2]
        ultimately show ?thesis
          using 4 rec(2) by (simp add: key L2_def rtranclp.rtrancl_into_rtrancl)
      next
        case (Some x)
        then have "L' = ?L3" unfolding reserve using 4 by (simp add: pricing2)
        then show ?thesis using keep2 by simp
      qed
    qed
  qed
qed

text \<open>Usage within the limits of a reservation is priced at most at what the reservation holds.\<close>

lemma usage_cost_within:
  assumes "usage_Pricing_Validate p = None" and "usage_hold_ok p h"
    and "0 \<le> i" "i \<le> uh_inputLimit h" "0 \<le> out" "out \<le> uh_outputLimit h"
  shows "usage_reservationCost p i out =
      Inr (price_per_million i (up_InputMicrousdPerMillionToken p) +
           price_per_million out (up_OutputMicrousdPerMillionToken p))"
    and "price_per_million i (up_InputMicrousdPerMillionToken p) +
         price_per_million out (up_OutputMicrousdPerMillionToken p) \<le> uh_reserved h"
    and "0 \<le> price_per_million i (up_InputMicrousdPerMillionToken p) +
         price_per_million out (up_OutputMicrousdPerMillionToken p)"
proof -
  let ?ri = "up_InputMicrousdPerMillionToken p" and ?ro = "up_OutputMicrousdPerMillionToken p"
  have rates: "1 \<le> ?ri" "1 \<le> ?ro"
    using assms(1) by (auto simp: usage_Pricing_Validate_def split: if_splits)
  have lims: "uh_inputLimit h \<le> usage_MaximumTokenBound" "uh_outputLimit h \<le> usage_MaximumTokenBound"
    using assms(2) by (simp_all add: usage_hold_ok_def)
  show "usage_reservationCost p i out = Inr (price_per_million i ?ri + price_per_million out ?ro)"
    using assms lims by (intro reservationCost_exact(1)) simp_all
  have "uh_reserved h = price_per_million (uh_inputLimit h) ?ri + price_per_million (uh_outputLimit h) ?ro"
    using reservationCost_exact(1) [OF assms(1), of "uh_inputLimit h" "uh_outputLimit h"] assms(2)
    by (simp add: usage_hold_ok_def)
  then show "price_per_million i ?ri + price_per_million out ?ro \<le> uh_reserved h"
    using price_mono [of ?ri i "uh_inputLimit h"] price_mono [of ?ro out "uh_outputLimit h"] rates assms(4,6)
    by simp
  show "0 \<le> price_per_million i ?ri + price_per_million out ?ro"
    using rates assms(3,5) price_bounds(1) [of i i ?ri ?ri] price_bounds(1) [of out out ?ro ?ro] by simp
qed

lemma usage_settle_step:
  assumes wf: "usage_wf p L" and inv: "ledger_inv (up_DailyBudgetMicrousd p) (usage_view L)"
    and hold: "map_of (ul_reservations L) i = Some h"
    and daily: "map_of (ul_daily L) (usage_daily_key h) = Some d"
    and cost: "0 \<le> cost" "cost \<le> uh_reserved h"
    and d': "ud_ReservedMicrousd d' = i64 (ud_ReservedMicrousd d - uh_reserved h)"
      "ud_CommittedMicrousd d' = i64 (ud_CommittedMicrousd d + cost)"
      "ud_UncertainMicrousd d' = ud_UncertainMicrousd d"
  shows "ledger_step (up_DailyBudgetMicrousd p) (usage_view L)
    (usage_view (L\<lparr>ul_daily := AList.update (usage_daily_key h) d' (ul_daily L),
        ul_reservations := AList.delete i (ul_reservations L)\<rparr>))"
proof -
  obtain d0 where d0: "map_of (ul_daily L) (usage_daily_key h) = Some d0"
    "0 < uh_reserved h" "uh_reserved h \<le> ud_ReservedMicrousd d0"
    "0 \<le> ud_CommittedMicrousd d0" "0 \<le> ud_UncertainMicrousd d0"
    "ud_CommittedMicrousd d0 + ud_UncertainMicrousd d0 + ud_ReservedMicrousd d0 \<le> 1000000000000000"
    by (rule usage_open_daily [OF wf inv hold])
  have "map_of (lv_holds (usage_view L)) i = Some (usage_daily_key h, uh_reserved h)"
    using hold by (simp add: usage_view_def)
  from ledger_step.settle [OF this cost, of "up_DailyBudgetMicrousd p"] show ?thesis
    unfolding usage_view_close using d0 daily cost d'
    by (simp add: i64_id usage_view_def fun_upd_idem)
qed

lemma usage_release_step:
  assumes wf: "usage_wf p L" and inv: "ledger_inv (up_DailyBudgetMicrousd p) (usage_view L)"
    and hold: "map_of (ul_reservations L) i = Some h"
    and daily: "map_of (ul_daily L) (usage_daily_key h) = Some d"
  shows "ledger_step (up_DailyBudgetMicrousd p) (usage_view L)
    (usage_view (L\<lparr>ul_daily := AList.update (usage_daily_key h)
        (d\<lparr>ud_ReservedMicrousd := i64 (ud_ReservedMicrousd d - uh_reserved h)\<rparr>) (ul_daily L),
        ul_reservations := AList.delete i (ul_reservations L)\<rparr>))"
proof -
  obtain d0 where d0: "map_of (ul_daily L) (usage_daily_key h) = Some d0"
    "0 < uh_reserved h" "uh_reserved h \<le> ud_ReservedMicrousd d0"
    "0 \<le> ud_CommittedMicrousd d0" "0 \<le> ud_UncertainMicrousd d0"
    "ud_CommittedMicrousd d0 + ud_UncertainMicrousd d0 + ud_ReservedMicrousd d0 \<le> 1000000000000000"
    by (rule usage_open_daily [OF wf inv hold])
  have "map_of (lv_holds (usage_view L)) i = Some (usage_daily_key h, uh_reserved h)"
    using hold by (simp add: usage_view_def)
  from ledger_step.release [OF this, of "up_DailyBudgetMicrousd p"] show ?thesis
    unfolding usage_view_close using d0 daily
    by (simp add: i64_id usage_view_def fun_upd_idem)
qed

text \<open>What each closing operation answers for an open reservation of a reachable ledger: the
  account exists and covers the reservation, so the \<^verbatim>\<open>ErrUnavailable\<close> branches are not taken.\<close>

lemma usage_hold_covered:
  assumes "usage_wf p L" and "ledger_inv (up_DailyBudgetMicrousd p) (usage_view L)"
    and "map_of (ul_reservations L) i = Some h" and "map_of (ul_daily L) (usage_daily_key h) = Some d"
  shows "\<not> ud_ReservedMicrousd d < uh_reserved h"
  using usage_open_daily [OF assms(1-3)] assms(4) by fastforce

lemma usage_MarkUncertain_open:
  assumes wf: "usage_wf p L" and inv: "ledger_inv (up_DailyBudgetMicrousd p) (usage_view L)"
    and r: "usage_validReservation r" and hold: "map_of (ul_reservations L) (ur_ID r) = Some h"
    and d: "map_of (ul_daily L) (usage_daily_key h) = Some d"
  shows "usage_MarkUncertain L CtxLive r =
     (Inr (uh_reserved h), L\<lparr>ul_daily := AList.update (usage_daily_key h)
        (d\<lparr>ud_ReservedMicrousd := i64 (ud_ReservedMicrousd d - uh_reserved h),
          ud_UncertainMicrousd := i64 (ud_UncertainMicrousd d + uh_reserved h),
          ud_UncertainRequests := i64 (ud_UncertainRequests d + 1)\<rparr>) (ul_daily L),
        ul_reservations := AList.delete (ur_ID r) (ul_reservations L)\<rparr>)"
  using r hold d usage_hold_covered [OF wf inv hold d] by (simp add: usage_MarkUncertain_def)

lemma usage_Release_open:
  assumes wf: "usage_wf p L" and inv: "ledger_inv (up_DailyBudgetMicrousd p) (usage_view L)"
    and r: "usage_validReservation r" and hold: "map_of (ul_reservations L) (ur_ID r) = Some h"
    and d: "map_of (ul_daily L) (usage_daily_key h) = Some d"
  shows "usage_Release L CtxLive r =
     (Inr (), L\<lparr>ul_daily := AList.update (usage_daily_key h)
        (d\<lparr>ud_ReservedMicrousd := i64 (ud_ReservedMicrousd d - uh_reserved h)\<rparr>) (ul_daily L),
        ul_reservations := AList.delete (ur_ID r) (ul_reservations L)\<rparr>)"
  using r hold d usage_hold_covered [OF wf inv hold d] by (simp add: usage_Release_def)

lemma usage_Settle_open:
  assumes wf: "usage_wf p L" and inv: "ledger_inv (up_DailyBudgetMicrousd p) (usage_view L)"
    and r: "usage_validReservation r" and hold: "map_of (ul_reservations L) (ur_ID r) = Some h"
    and d: "map_of (ul_daily L) (usage_daily_key h) = Some d"
    and within: "usage_Usage_Validate u = None"
      "uu_InputTokens u \<le> uh_inputLimit h" "uu_OutputTokens u \<le> uh_outputLimit h"
  defines "cost \<equiv> price_per_million (uu_InputTokens u) (up_InputMicrousdPerMillionToken p) +
      price_per_million (uu_OutputTokens u) (up_OutputMicrousdPerMillionToken p)"
  shows "usage_Settle L CtxLive r u =
     (Inr cost, L\<lparr>ul_daily := AList.update (usage_daily_key h)
        (d\<lparr>ud_ReservedMicrousd := i64 (ud_ReservedMicrousd d - uh_reserved h),
           ud_CommittedMicrousd := i64 (ud_CommittedMicrousd d + cost),
           ud_InputTokens := i64 (ud_InputTokens d + uu_InputTokens u),
           ud_OutputTokens := i64 (ud_OutputTokens d + uu_OutputTokens u),
           ud_SettledRequests := i64 (ud_SettledRequests d + 1)\<rparr>) (ul_daily L),
        ul_reservations := AList.delete (ur_ID r) (ul_reservations L)\<rparr>)"
    and "0 \<le> cost" and "cost \<le> uh_reserved h"
proof -
  have p: "ul_pricing L = p" "usage_Pricing_Validate p = None" "usage_hold_ok p h"
    using wf hold by (auto simp: usage_wf_def)
  have u: "0 \<le> uu_InputTokens u" "uu_InputTokens u \<le> uh_inputLimit h"
      "0 \<le> uu_OutputTokens u" "uu_OutputTokens u \<le> uh_outputLimit h"
    using within by (auto simp: usage_Usage_Validate_def split: if_splits)
  note price = usage_cost_within [OF p(2,3) u, folded cost_def]
  show "usage_Settle L CtxLive r u =
     (Inr cost, L\<lparr>ul_daily := AList.update (usage_daily_key h)
        (d\<lparr>ud_ReservedMicrousd := i64 (ud_ReservedMicrousd d - uh_reserved h),
           ud_CommittedMicrousd := i64 (ud_CommittedMicrousd d + cost),
           ud_InputTokens := i64 (ud_InputTokens d + uu_InputTokens u),
           ud_OutputTokens := i64 (ud_OutputTokens d + uu_OutputTokens u),
           ud_SettledRequests := i64 (ud_SettledRequests d + 1)\<rparr>) (ul_daily L),
        ul_reservations := AList.delete (ur_ID r) (ul_reservations L)\<rparr>)"
    using r hold d within price usage_hold_covered [OF wf inv hold d] p(1)
    by (simp add: usage_Settle_def)
  show "0 \<le> cost" and "cost \<le> uh_reserved h" by (rule price)+
qed

text \<open>A closed reservation stays closed to all three.\<close>

lemma usage_closed_lost:
  assumes "map_of (ul_reservations L) (ur_ID r) = None" and "usage_validReservation r"
  shows "usage_Settle L CtxLive r u \<in> {(Inl ReservationLost, L), (Inl BudgetInvalid, L)}"
    and "usage_MarkUncertain L CtxLive r = (Inl ReservationLost, L)"
    and "usage_Release L CtxLive r = (Inl ReservationLost, L)"
  using assms by (simp_all add: usage_Settle_def usage_MarkUncertain_def usage_Release_def)

text \<open>A closed reservation stays closed.\<close>

lemma usage_reconcileExpired_closed:
  assumes "map_of (ul_reservations L) i = None"
  shows "map_of (ul_reservations (usage_reconcileExpired L now)) i = None"
proof -
  have one: "map_of (ul_reservations (usage_reconcile_one now e M)) i = None" if "map_of (ul_reservations M) i = None" for e M
    using that by (cases e) (auto simp: usage_reconcile_one_def Let_def simp del: map_of_eq_None_iff split: option.splits)
  have "map_of (ul_reservations (fold (usage_reconcile_one now) es M)) i = None" if "map_of (ul_reservations M) i = None" for es M
    using that by (induction es arbitrary: M) (simp_all add: one del: map_of_eq_None_iff)
  with assms show ?thesis by (simp add: usage_reconcileExpired_def del: map_of_eq_None_iff)
qed

lemma usage_Reserve_issues:
  assumes "map_of (ul_reservations L) i = None" and "usage_Reserve L ctx subject inputLimit outputLimit now = (res, L')"
  shows "map_of (ul_reservations L') i = None \<or> (\<exists>r. res = Inr r \<and> ur_ID r = i)"
  using assms usage_reconcileExpired_closed [OF assms(1), of now] unfolding usage_Reserve_def
  by (auto simp: Let_def simp del: map_of_eq_None_iff split: if_splits sum.splits option.splits)

lemma usage_later_closed:
  assumes "usage_later i L L'" and "map_of (ul_reservations L) i = None"
  shows "map_of (ul_reservations L') i = None"
  using assms
proof cases
  case (reserve ctx subject inputLimit outputLimit now)
  then show ?thesis using usage_Reserve_issues [OF assms(2) prod.collapse [symmetric]] by metis
next
  case (settle ctx r u)
  show ?thesis
    using assms(2) unfolding settle usage_Settle_def
    by (auto simp: Let_def simp del: map_of_eq_None_iff split: if_splits sum.splits option.splits)
next
  case (markUncertain ctx r)
  show ?thesis
    using assms(2) unfolding markUncertain usage_MarkUncertain_def
    by (auto simp: Let_def simp del: map_of_eq_None_iff split: if_splits sum.splits option.splits)
next
  case (release ctx r)
  show ?thesis
    using assms(2) unfolding release usage_Release_def
    by (auto simp: Let_def simp del: map_of_eq_None_iff split: if_splits sum.splits option.splits)
qed

lemma usage_later_lost:
  assumes "(usage_later (ur_ID r))\<^sup>*\<^sup>* L L'" and "map_of (ul_reservations L) (ur_ID r) = None" and "usage_validReservation r"
  shows "usage_Settle L' CtxLive r u \<in> {(Inl ReservationLost, L'), (Inl BudgetInvalid, L')}"
    and "usage_MarkUncertain L' CtxLive r = (Inl ReservationLost, L')"
    and "usage_Release L' CtxLive r = (Inl ReservationLost, L')"
proof -
  have "map_of (ul_reservations L') (ur_ID r) = None"
    using assms(1,2) by (induction rule: rtranclp_induct) (blast intro: usage_later_closed)+
  note lost = usage_closed_lost [OF this assms(3)]
  show "usage_Settle L' CtxLive r u \<in> {(Inl ReservationLost, L'), (Inl BudgetInvalid, L')}"
    "usage_MarkUncertain L' CtxLive r = (Inl ReservationLost, L')" "usage_Release L' CtxLive r = (Inl ReservationLost, L')"
    by (rule lost)+
qed

lemma usage_Settle_sim:
  assumes wf: "usage_wf p L" and inv: "ledger_inv (up_DailyBudgetMicrousd p) (usage_view L)"
    and L': "L' = snd (usage_Settle L ctx r u)"
  shows "usage_wf p L' \<and> ledger_steps (up_DailyBudgetMicrousd p) (usage_view L) (usage_view L')"
proof (cases "map_of (ul_reservations L) (ur_ID r)")
  case None
  then have "L' = L" by (simp add: L' usage_Settle_def)
  then show ?thesis using wf by simp
next
  case (Some h)
  obtain d where d: "map_of (ul_daily L) (usage_daily_key h) = Some d"
    by (rule usage_open_daily [OF wf inv Some])
  show ?thesis
  proof (cases "ctx = CtxLive \<and> usage_validReservation r \<and> usage_Usage_Validate u = None \<and>
      uu_InputTokens u \<le> uh_inputLimit h \<and> uu_OutputTokens u \<le> uh_outputLimit h")
    case True
    then have r: "usage_validReservation r" and u: "usage_Usage_Validate u = None"
      "uu_InputTokens u \<le> uh_inputLimit h" "uu_OutputTokens u \<le> uh_outputLimit h" and ctx: "ctx = CtxLive"
      by simp_all
    note settle = usage_Settle_open [OF wf inv r Some d u]
    show ?thesis
      unfolding L' ctx settle(1) snd_conv using usage_wf_close [OF wf] settle(2,3)
      by (auto intro!: r_into_rtranclp usage_settle_step [OF wf inv Some d])
  next
    case False
    then have "L' = L" using Some by (auto simp: L' usage_Settle_def)
    then show ?thesis using wf by simp
  qed
qed

lemma usage_MarkUncertain_sim:
  assumes wf: "usage_wf p L" and inv: "ledger_inv (up_DailyBudgetMicrousd p) (usage_view L)"
    and L': "L' = snd (usage_MarkUncertain L ctx r)"
  shows "usage_wf p L' \<and> ledger_steps (up_DailyBudgetMicrousd p) (usage_view L) (usage_view L')"
proof (cases "ctx = CtxLive \<and> usage_validReservation r \<and> (\<exists>h. map_of (ul_reservations L) (ur_ID r) = Some h)")
  case True
  then obtain h where r: "usage_validReservation r" and h: "map_of (ul_reservations L) (ur_ID r) = Some h"
    and ctx: "ctx = CtxLive" by auto
  obtain d where d: "map_of (ul_daily L) (usage_daily_key h) = Some d"
    by (rule usage_open_daily [OF wf inv h])
  show ?thesis
    unfolding L' ctx usage_MarkUncertain_open [OF wf inv r h d] snd_conv
    using usage_wf_close [OF wf] usage_uncertain_step [OF wf inv h d] by (auto intro: r_into_rtranclp)
next
  case False
  then have "L' = L" by (auto simp: L' usage_MarkUncertain_def split: option.splits)
  then show ?thesis using wf by simp
qed

lemma usage_Release_sim:
  assumes wf: "usage_wf p L" and inv: "ledger_inv (up_DailyBudgetMicrousd p) (usage_view L)"
    and L': "L' = snd (usage_Release L ctx r)"
  shows "usage_wf p L' \<and> ledger_steps (up_DailyBudgetMicrousd p) (usage_view L) (usage_view L')"
proof (cases "ctx = CtxLive \<and> usage_validReservation r \<and> (\<exists>h. map_of (ul_reservations L) (ur_ID r) = Some h)")
  case True
  then obtain h where r: "usage_validReservation r" and h: "map_of (ul_reservations L) (ur_ID r) = Some h"
    and ctx: "ctx = CtxLive" by auto
  obtain d where d: "map_of (ul_daily L) (usage_daily_key h) = Some d"
    by (rule usage_open_daily [OF wf inv h])
  show ?thesis
    unfolding L' ctx usage_Release_open [OF wf inv r h d] snd_conv
    using usage_wf_close [OF wf] usage_release_step [OF wf inv h d] by (auto intro: r_into_rtranclp)
next
  case False
  then have "L' = L" by (auto simp: L' usage_Release_def split: option.splits)
  then show ?thesis using wf by simp
qed

lemma usage_step_sim:
  assumes "usage_step L L'" and "usage_wf p L" and "ledger_inv (up_DailyBudgetMicrousd p) (usage_view L)"
  shows "usage_wf p L' \<and> ledger_steps (up_DailyBudgetMicrousd p) (usage_view L) (usage_view L')"
  using assms(1)
proof cases
  case reserve
  with assms show ?thesis by (intro usage_Reserve_sim)
next
  case settle
  with assms show ?thesis by (intro usage_Settle_sim)
next
  case markUncertain
  with assms show ?thesis by (intro usage_MarkUncertain_sim)
next
  case release
  with assms show ?thesis by (intro usage_Release_sim)
qed

lemma usage_init_ok:
  assumes "usage_init p L"
  shows "usage_wf p L" and "ledger_inv (up_DailyBudgetMicrousd p) (usage_view L)"
proof -
  have L: "ul_pricing L = p" "usage_Pricing_Validate p = None" "ul_daily L = []" "ul_reservations L = []"
    using assms by (auto simp: usage_init_def usage_NewMemoryLedger_def split: if_splits)
  then show "usage_wf p L" by (simp add: usage_wf_def)
  show "ledger_inv (up_DailyBudgetMicrousd p) (usage_view L)"
    using L usage_budget_bound [OF L(2)]
    by (intro ledger_invI) (simp_all add: usage_view_def usage_account_def lv_spent_def map_values_def)
qed

interpretation ub: budget_ledger "up_DailyBudgetMicrousd p" usage_view "usage_wf p" "usage_init p" usage_step for p
  by unfold_locales (auto dest: usage_init_ok usage_step_sim)

lemma usage_reachable_account:
  assumes "usage_NewMemoryLedger p key random = Inr L0" and "usage_step\<^sup>*\<^sup>* L0 L"
  shows "0 \<le> usage_account ud_CommittedMicrousd L k" and "0 \<le> usage_account ud_UncertainMicrousd L k"
    and "usage_account ud_ReservedMicrousd L k =
      (\<Sum>(i, h) \<leftarrow> ul_reservations L. if usage_daily_key h = k then uh_reserved h else 0)"
    and "usage_account ud_CommittedMicrousd L k + usage_account ud_UncertainMicrousd L k +
      usage_account ud_ReservedMicrousd L k \<le> up_DailyBudgetMicrousd p"
    and "0 \<le> usage_account ud_ReservedMicrousd L k"
proof -
  have init: "usage_init p L0" using assms(1) by (auto simp: usage_init_def)
  note bounds = ub.reachable_bounds [OF init assms(2), of k]
  have "held (lv_holds (usage_view L)) k =
      (\<Sum>(i, h) \<leftarrow> ul_reservations L. if usage_daily_key h = k then uh_reserved h else 0)"
    by (simp add: held_def usage_view_def map_values_def comp_def case_prod_unfold cong: if_cong)
  then show "0 \<le> usage_account ud_CommittedMicrousd L k" and "0 \<le> usage_account ud_UncertainMicrousd L k"
    and "usage_account ud_ReservedMicrousd L k =
      (\<Sum>(i, h) \<leftarrow> ul_reservations L. if usage_daily_key h = k then uh_reserved h else 0)"
    and "usage_account ud_CommittedMicrousd L k + usage_account ud_UncertainMicrousd L k +
      usage_account ud_ReservedMicrousd L k \<le> up_DailyBudgetMicrousd p"
    and "0 \<le> usage_account ud_ReservedMicrousd L k"
    using bounds by (simp_all add: usage_view_def lv_spent_def)
qed

section \<open>Properties\<close>

text \<open>C4. From a new ledger, after any sequence of \<^verbatim>\<open>Reserve\<close>, \<^verbatim>\<open>Settle\<close>, \<^verbatim>\<open>MarkUncertain\<close> and
  \<^verbatim>\<open>Release\<close> calls with arbitrary arguments, clock readings, expiries and random-source failures,
  every (day, subject) account has non-negative totals, its reserved total is exactly the sum of its
  open reservations, and committed + uncertain + reserved never exceeds the daily budget.\<close>

theorem usage_never_overspends:
  assumes "usage_NewMemoryLedger p key random = Inr L0" and "usage_step\<^sup>*\<^sup>* L0 L"
    and "map_of (ul_daily L) k = Some d"
  shows "0 \<le> ud_CommittedMicrousd d \<and> 0 \<le> ud_UncertainMicrousd d \<and> 0 \<le> ud_ReservedMicrousd d \<and>
    ud_ReservedMicrousd d = (\<Sum>(i, h) \<leftarrow> ul_reservations L. if usage_daily_key h = k then uh_reserved h else 0) \<and>
    ud_CommittedMicrousd d + ud_UncertainMicrousd d + ud_ReservedMicrousd d \<le> up_DailyBudgetMicrousd p"
  using usage_reachable_account [OF assms(1,2), of k] assms(3) by simp

text \<open>The example run, evaluated.\<close>

lemma usage_example_valid: "usage_Pricing_Validate usage_example_pricing = None"
  by code_simp

lemma usage_example_new:
  "usage_NewMemoryLedger usage_example_pricing (replicate 32 7) (replicate 16 1 @ replicate 16 2) =
    Inr usage_example_ledger"
  by (simp add: usage_NewMemoryLedger_def usage_example_ledger_def usage_example_valid)

lemma usage_example_Reserve:
  "usage_Reserve usage_example_ledger CtxLive ''user-1'' 1000 500 0 =
    (Inr \<lparr>ur_ID = replicate 16 1, ur_ReservedMicrousd = 450, ur_InputTokenLimit = 1000, ur_OutputTokenLimit = 500\<rparr>,
     usage_example_ledger\<lparr>ul_random := replicate 16 2,
       ul_daily := [(usage_example_key, usage_daily_zero\<lparr>ud_ReservedMicrousd := 450\<rparr>)],
       ul_reservations := [(replicate 16 1, \<lparr>uh_day = format_day 0,
         uh_subject = usage_subjectKey usage_example_ledger ''user-1'', uh_profile = ''primary-model'',
         uh_inputLimit = 1000, uh_outputLimit = 500, uh_reserved = 450, uh_expiresAt = 60 * second\<rparr>)]\<rparr>)"
proof -
  have cost: "usage_reservationCost usage_example_pricing 1000 500 = Inr 450"
    by code_simp
  have "usage_reconcileExpired usage_example_ledger 0 = usage_example_ledger"
    by (simp add: usage_reconcileExpired_def usage_example_ledger_def)
  moreover have "ul_pricing usage_example_ledger = usage_example_pricing" "ul_daily usage_example_ledger = []"
      "ul_reservations usage_example_ledger = []" "ul_random usage_example_ledger = replicate 16 1 @ replicate 16 2"
    by (simp_all add: usage_example_ledger_def)
  moreover have "up_ProfileID usage_example_pricing = ''primary-model''"
      "up_DailyBudgetMicrousd usage_example_pricing = 1000" "up_ReservationTTL usage_example_pricing = 60 * second"
    by (simp_all add: usage_example_pricing_def)
  ultimately show ?thesis
    by (simp add: usage_Reserve_def cost Let_def read_full_def usage_consts usage_example_key_def
        usage_daily_zero_def i64_id)
qed

theorem usage_never_overspends_witness:
  "usage_step\<^sup>*\<^sup>* usage_example_ledger usage_example_reserved \<and>
   map_of (ul_daily usage_example_reserved) usage_example_key = Some (usage_daily_zero\<lparr>ud_ReservedMicrousd := 450\<rparr>) \<and>
   ul_reservations usage_example_reserved \<noteq> [] \<and>
   ud_ReservedMicrousd (usage_daily_zero\<lparr>ud_ReservedMicrousd := 450\<rparr>) =
     (\<Sum>(i, h) \<leftarrow> ul_reservations usage_example_reserved. if usage_daily_key h = usage_example_key then uh_reserved h else 0)"
proof -
  have run: "usage_step\<^sup>*\<^sup>* usage_example_ledger usage_example_reserved"
    unfolding usage_example_reserved_def by (intro r_into_rtranclp usage_step.reserve)
  have d: "map_of (ul_daily usage_example_reserved) usage_example_key = Some (usage_daily_zero\<lparr>ud_ReservedMicrousd := 450\<rparr>)"
    "ul_reservations usage_example_reserved \<noteq> []"
    by (simp_all add: usage_example_reserved_def usage_example_Reserve)
  show ?thesis
    using usage_never_overspends [OF usage_example_new run d(1)] run d by simp
qed

text \<open>C30. Charging for tokens is exact: \<^verbatim>\<open>tokenCost\<close> rejects exactly the token counts and rates outside
  its bounds, and otherwise returns the price rounded up to a whole micro-USD; the int64 products
  and sums inside it never wrap, and the later bound checks never reject.\<close>

theorem usage_tokenCost_is_ceiling:
  "usage_tokenCost tokens rate =
     (if 0 \<le> tokens \<and> tokens \<le> 2000000 \<and> 1 \<le> rate \<and> rate \<le> 1000000000000
      then Inr \<lceil>rat_of_int (tokens * rate) / 1000000\<rceil> else Inl BudgetInvalid)"
proof (cases "0 \<le> tokens \<and> tokens \<le> 2000000 \<and> 1 \<le> rate \<and> rate \<le> 1000000000000")
  case True
  then show ?thesis
    using tokenCost_exact [of tokens rate] by (simp add: usage_consts price_per_million_ceiling)
next
  case False
  then show ?thesis by (auto simp: usage_tokenCost_def usage_consts)
qed

text \<open>C5. In every reachable ledger, a call with a live context and an open reservation whose usage
  is valid and within the reserved token limits settles: it returns the exact price of the tokens
  used, which is at most the amount reserved, moves the account's committed and reserved totals by exactly those
  amounts and no other total, and closes this reservation and no other. After any sequence of later calls in which
  \<^verbatim>\<open>Reserve\<close> does not draw the same random ID again, a second \<^verbatim>\<open>Settle\<close>, a \<^verbatim>\<open>MarkUncertain\<close> or a \<^verbatim>\<open>Release\<close> of the
  reservation is refused and changes nothing.\<close>

theorem usage_Settle_exact_once:
  assumes "usage_NewMemoryLedger p key random = Inr L0" and "usage_step\<^sup>*\<^sup>* L0 L"
    and "usage_validReservation r" and "map_of (ul_reservations L) (ur_ID r) = Some h"
    and "usage_Usage_Validate u = None"
    and "uu_InputTokens u \<le> uh_inputLimit h" and "uu_OutputTokens u \<le> uh_outputLimit h"
  shows "\<exists>L' cost. usage_Settle L CtxLive r u = (Inr cost, L') \<and>
    cost = price_per_million (uu_InputTokens u) (up_InputMicrousdPerMillionToken p) +
      price_per_million (uu_OutputTokens u) (up_OutputMicrousdPerMillionToken p) \<and>
    0 \<le> cost \<and> cost \<le> uh_reserved h \<and>
    (\<forall>k. usage_account ud_CommittedMicrousd L' k =
      usage_account ud_CommittedMicrousd L k + (if k = usage_daily_key h then cost else 0)) \<and>
    (\<forall>k. usage_account ud_ReservedMicrousd L' k =
      usage_account ud_ReservedMicrousd L k - (if k = usage_daily_key h then uh_reserved h else 0)) \<and>
    (\<forall>k. usage_account ud_UncertainMicrousd L' k = usage_account ud_UncertainMicrousd L k) \<and>
    ul_reservations L' = AList.delete (ur_ID r) (ul_reservations L) \<and>
    (\<forall>L''. (usage_later (ur_ID r))\<^sup>*\<^sup>* L' L'' \<longrightarrow>
      (\<forall>u'. usage_Settle L'' CtxLive r u' \<in> {(Inl ReservationLost, L''), (Inl BudgetInvalid, L'')}) \<and>
      usage_MarkUncertain L'' CtxLive r = (Inl ReservationLost, L'') \<and>
      usage_Release L'' CtxLive r = (Inl ReservationLost, L''))"
proof -
  have "usage_init p L0" using assms(1) by (auto simp: usage_init_def)
  then have inv: "usage_wf p L" "ledger_inv (up_DailyBudgetMicrousd p) (usage_view L)"
    using ub.reachable_inv assms(2) by blast+
  obtain d where d: "map_of (ul_daily L) (usage_daily_key h) = Some d"
    "0 < uh_reserved h" "uh_reserved h \<le> ud_ReservedMicrousd d"
    "0 \<le> ud_CommittedMicrousd d" "0 \<le> ud_UncertainMicrousd d"
    "ud_CommittedMicrousd d + ud_UncertainMicrousd d + ud_ReservedMicrousd d \<le> 1000000000000000"
    by (rule usage_open_daily [OF inv assms(4)])
  note settle = usage_Settle_open [OF inv assms(3,4) d(1) assms(5-7)]
  define cost where "cost = price_per_million (uu_InputTokens u) (up_InputMicrousdPerMillionToken p) +
      price_per_million (uu_OutputTokens u) (up_OutputMicrousdPerMillionToken p)"
  define L' where "L' = snd (usage_Settle L CtxLive r u)"
  have closed: "ul_reservations L' = AList.delete (ur_ID r) (ul_reservations L)"
    by (simp add: L'_def settle(1))
  then have "map_of (ul_reservations L') (ur_ID r) = None" by simp
  note lost = usage_later_lost [OF _ this assms(3)]
  have eq: "usage_Settle L CtxLive r u = (Inr cost, L')" "0 \<le> cost" "cost \<le> uh_reserved h"
    using settle by (simp_all add: L'_def cost_def)
  have "usage_account ud_CommittedMicrousd L' k =
      usage_account ud_CommittedMicrousd L k + (if k = usage_daily_key h then cost else 0)"
    and "usage_account ud_ReservedMicrousd L' k =
      usage_account ud_ReservedMicrousd L k - (if k = usage_daily_key h then uh_reserved h else 0)"
    and "usage_account ud_UncertainMicrousd L' k = usage_account ud_UncertainMicrousd L k" for k
    using d eq(2,3) by (simp_all add: L'_def settle(1) usage_account_def i64_id flip: cost_def)
  with eq closed lost show ?thesis
    by (intro exI conjI allI impI) (assumption | rule cost_def lost)+
qed

theorem usage_Settle_exact_once_witness:
  "\<exists>L'. usage_Settle usage_example_reserved CtxLive
     \<lparr>ur_ID = replicate 16 1, ur_ReservedMicrousd = 450, ur_InputTokenLimit = 1000, ur_OutputTokenLimit = 500\<rparr>
     \<lparr>uu_InputTokens = 900, uu_OutputTokens = 101, uu_TotalTokens = 1001\<rparr> = (Inr 196, L') \<and>
   usage_account ud_CommittedMicrousd L' usage_example_key = 196 \<and>
   usage_account ud_ReservedMicrousd L' usage_example_key = 0"
proof -
  let ?r = "\<lparr>ur_ID = replicate 16 1, ur_ReservedMicrousd = 450, ur_InputTokenLimit = 1000, ur_OutputTokenLimit = 500\<rparr>"
  let ?u = "\<lparr>uu_InputTokens = 900, uu_OutputTokens = 101, uu_TotalTokens = 1001\<rparr>"
  have run: "usage_step\<^sup>*\<^sup>* usage_example_ledger usage_example_reserved"
    unfolding usage_example_reserved_def by (intro r_into_rtranclp usage_step.reserve)
  have valid: "usage_validReservation ?r" "usage_Usage_Validate ?u = None" by code_simp+
  have hold: "map_of (ul_reservations usage_example_reserved) (ur_ID ?r) = Some \<lparr>uh_day = format_day 0,
         uh_subject = usage_subjectKey usage_example_ledger ''user-1'', uh_profile = ''primary-model'',
         uh_inputLimit = 1000, uh_outputLimit = 500, uh_reserved = 450, uh_expiresAt = 60 * second\<rparr>"
    by (simp add: usage_example_reserved_def usage_example_Reserve)
  have accounts: "usage_account ud_CommittedMicrousd usage_example_reserved usage_example_key = 0"
      "usage_account ud_ReservedMicrousd usage_example_reserved usage_example_key = 450"
    by (simp_all add: usage_example_reserved_def usage_example_Reserve usage_account_def usage_daily_zero_def)
  have rates: "up_InputMicrousdPerMillionToken usage_example_pricing = 150000"
      "up_OutputMicrousdPerMillionToken usage_example_pricing = 600000"
    by (simp_all add: usage_example_pricing_def)
  show ?thesis
    using usage_Settle_exact_once [OF usage_example_new run valid(1) hold valid(2)] accounts
    by (auto simp: rates price_per_million_def usage_daily_key_def usage_example_key_def)
qed

end
