(* ===== verification/SpeechBudget.thy ===== *)
theory SpeechBudget
  imports Ledger_Spec GoTime Sha256
begin

text \<open>
  \<^verbatim>\<open>internal/speechbudget\<close>: the daily budget of speech-to-text and text-to-speech usage. The theory
  models the pricing and usage contract (\<^verbatim>\<open>contract.go\<close>) and the in-memory ledger (\<^verbatim>\<open>memory.go\<close>) in
  the same way as the token ledger, and shows that it implements the same \<open>budget_ledger\<close> contract.
\<close>

section \<open>Definitions\<close>

subsection \<open>Contract\<close>

definition speech_MaximumUnitBound :: int where "speech_MaximumUnitBound = 86400000"
definition speech_MaximumRate :: int where "speech_MaximumRate = 1000000000000"
definition speech_MaximumBudget :: int where "speech_MaximumBudget = 1000000000000000"
definition MinimumSTTChunkMS :: int where "MinimumSTTChunkMS = 1000"
definition MaximumSTTChunkMS :: int where "MaximumSTTChunkMS = 60000"
definition MinimumTTSOutputMS :: int where "MinimumTTSOutputMS = 1000"
definition MaximumTTSOutputMS :: int where "MaximumTTSOutputMS = 600000"
definition MinimumReservationTTL :: duration where "MinimumReservationTTL = 60 * second"

record speech_pricing =
  sp_ProfileID :: string
  sp_STTMicrousdPerMillionAudioMS :: int
  sp_TTSMicrousdPerMillionCharacters :: int
  sp_TTSMicrousdPerMillionOutputAudioMS :: int
  sp_DailyBudgetMicrousd :: int
  sp_STTReservationChunkAudioMS :: int
  sp_TTSMaxOutputAudioMS :: int
  sp_ReservationTTL :: duration

definition speech_Pricing_Validate :: "speech_pricing \<Rightarrow> budget_error option" where
  "speech_Pricing_Validate p =
     (if \<not> profilePattern (sp_ProfileID p) \<or>
         sp_STTMicrousdPerMillionAudioMS p < 1 \<or>
         sp_STTMicrousdPerMillionAudioMS p > speech_MaximumRate \<or>
         sp_TTSMicrousdPerMillionCharacters p < 0 \<or>
         sp_TTSMicrousdPerMillionCharacters p > speech_MaximumRate \<or>
         sp_TTSMicrousdPerMillionOutputAudioMS p < 0 \<or>
         sp_TTSMicrousdPerMillionOutputAudioMS p > speech_MaximumRate \<or>
         (sp_TTSMicrousdPerMillionCharacters p = 0 \<and> sp_TTSMicrousdPerMillionOutputAudioMS p = 0) \<or>
         sp_DailyBudgetMicrousd p < 1 \<or>
         sp_DailyBudgetMicrousd p > speech_MaximumBudget \<or>
         sp_STTReservationChunkAudioMS p < MinimumSTTChunkMS \<or>
         sp_STTReservationChunkAudioMS p > MaximumSTTChunkMS \<or>
         sp_TTSMaxOutputAudioMS p < MinimumTTSOutputMS \<or>
         sp_TTSMaxOutputAudioMS p > MaximumTTSOutputMS \<or>
         sp_ReservationTTL p < MinimumReservationTTL \<or>
         sp_ReservationTTL p > 10 * minute
      then Some BudgetInvalid else None)"

record speech_usage =
  su_STTAudioMS :: int
  su_TTSCharacters :: int
  su_TTSOutputAudioMS :: int

definition STTUsage :: "int \<Rightarrow> speech_usage" where
  "STTUsage audioMS = \<lparr>su_STTAudioMS = audioMS, su_TTSCharacters = 0, su_TTSOutputAudioMS = 0\<rparr>"

definition TTSUsage :: "int \<Rightarrow> int \<Rightarrow> speech_usage" where
  "TTSUsage characters outputAudioMS =
     \<lparr>su_STTAudioMS = 0, su_TTSCharacters = characters, su_TTSOutputAudioMS = outputAudioMS\<rparr>"

definition speech_Usage_Validate :: "speech_usage \<Rightarrow> budget_error option" where
  "speech_Usage_Validate u =
     (let stt = su_STTAudioMS u > 0 \<and> su_TTSCharacters u = 0 \<and> su_TTSOutputAudioMS u = 0;
          tts = su_STTAudioMS u = 0 \<and> su_TTSCharacters u > 0 \<and> su_TTSOutputAudioMS u \<ge> 0
      in if (\<not> stt \<and> \<not> tts) \<or> su_STTAudioMS u > speech_MaximumUnitBound \<or>
            su_TTSCharacters u > speech_MaximumUnitBound \<or>
            su_TTSOutputAudioMS u > speech_MaximumUnitBound
         then Some BudgetInvalid else None)"

record speech_reservation =
  sr_ID :: "byte list"
  sr_Limit :: speech_usage
  sr_ReservedMicrousd :: int

definition speech_unitCost :: "int \<Rightarrow> int \<Rightarrow> budget_error + int" where
  "speech_unitCost units rate =
     (if units < 0 \<or> units > speech_MaximumUnitBound \<or> rate < 0 \<or> rate > speech_MaximumRate
      then Inl BudgetInvalid
      else if units = 0 \<or> rate = 0 then Inr 0
      else
        let whole = i64 ((units sdiv 1000000) * rate);
            remainder = units smod 1000000
        in if remainder \<noteq> 0 \<and> remainder > (max_int64 - (1000000 - 1)) sdiv rate then Inl BudgetInvalid
           else
             let whole' = (if remainder \<noteq> 0
                   then i64 (whole + i64 (i64 (i64 (remainder * rate) + 1000000) - 1) sdiv 1000000)
                   else whole)
             in if whole' < 0 \<or> whole' > speech_MaximumBudget then Inl BudgetInvalid else Inr whole')"

text \<open>The loop of \<^verbatim>\<open>usageCost\<close> over the unit/rate pairs, with its running total.\<close>

fun speech_sumCost :: "(int \<times> int) list \<Rightarrow> int \<Rightarrow> budget_error + int" where
  "speech_sumCost [] acc = Inr acc"
| "speech_sumCost ((units, rate) # values) acc =
     (case speech_unitCost units rate of
        Inl _ \<Rightarrow> Inl BudgetInvalid
      | Inr cost \<Rightarrow>
          if acc > i64 (speech_MaximumBudget - cost) then Inl BudgetInvalid
          else speech_sumCost values (i64 (acc + cost)))"

definition speech_usageCost :: "speech_pricing \<Rightarrow> speech_usage \<Rightarrow> budget_error + int" where
  "speech_usageCost p u =
     (if speech_Usage_Validate u \<noteq> None then Inl BudgetInvalid
      else case speech_sumCost
          [(su_STTAudioMS u, sp_STTMicrousdPerMillionAudioMS p),
           (su_TTSCharacters u, sp_TTSMicrousdPerMillionCharacters p),
           (su_TTSOutputAudioMS u, sp_TTSMicrousdPerMillionOutputAudioMS p)] 0 of
        Inl e \<Rightarrow> Inl e
      | Inr acc \<Rightarrow> if acc < 1 then Inl BudgetInvalid else Inr acc)"

definition usageWithin :: "speech_usage \<Rightarrow> speech_usage \<Rightarrow> bool" where
  "usageWithin u limit =
     (if speech_Usage_Validate u \<noteq> None \<or> speech_Usage_Validate limit \<noteq> None then False
      else su_STTAudioMS u \<le> su_STTAudioMS limit \<and>
           su_TTSCharacters u \<le> su_TTSCharacters limit \<and>
           su_TTSOutputAudioMS u \<le> su_TTSOutputAudioMS limit \<and>
           (su_STTAudioMS u > 0) = (su_STTAudioMS limit > 0))"

definition speech_validReservation :: "speech_reservation \<Rightarrow> bool" where
  "speech_validReservation r =
     (\<not> list_all (\<lambda>v. v = 0) (sr_ID r) \<and> speech_Usage_Validate (sr_Limit r) = None \<and>
      sr_ReservedMicrousd r > 0)"

subsection \<open>The in-memory ledger\<close>

record speech_daily =
  sd_committed :: int
  sd_uncertain :: int
  sd_reserved :: int

definition speech_daily_zero :: speech_daily where
  "speech_daily_zero = \<lparr>sd_committed = 0, sd_uncertain = 0, sd_reserved = 0\<rparr>"

record speech_hold =
  sh_day :: string
  sh_subject :: string
  sh_profile :: string
  sh_limit :: speech_usage
  sh_reserved :: int
  sh_expiresAt :: wall_time

record speech_ledger =
  sl_pricing :: speech_pricing
  sl_digestKey :: "byte list"
  sl_random :: "byte list"
  sl_daily :: "(string, speech_daily) gomap"
  sl_reservations :: "(byte list, speech_hold) gomap"

definition speech_NewMemoryLedger ::
  "speech_pricing \<Rightarrow> byte list \<Rightarrow> byte list \<Rightarrow> budget_error + speech_ledger" where
  "speech_NewMemoryLedger p digestKey random =
     (if speech_Pricing_Validate p \<noteq> None \<or> length digestKey \<noteq> 32 then Inl BudgetInvalid
      else Inr \<lparr>sl_pricing = p, sl_digestKey = digestKey, sl_random = random,
                sl_daily = [], sl_reservations = []\<rparr>)"

definition speech_subjectDigestDomain :: string where
  "speech_subjectDigestDomain = ''xiaozhi-speech-usage-subject-v1'' @ [CHR 0x00]"

definition speech_subjectKey :: "speech_ledger \<Rightarrow> string \<Rightarrow> string" where
  "speech_subjectKey L subject =
     hex_encode (hmac_sha256 (sl_digestKey L) (bytes_of (speech_subjectDigestDomain @ subject)))"

definition speech_daily_key :: "speech_hold \<Rightarrow> string" where
  "speech_daily_key h = sh_day h @ '':'' @ sh_subject h"

definition speech_reconcile_one :: "wall_time \<Rightarrow> byte list \<times> speech_hold \<Rightarrow> speech_ledger \<Rightarrow> speech_ledger" where
  "speech_reconcile_one now e L =
     (case e of (i, h) \<Rightarrow>
        if sh_expiresAt h > now then L
        else
          let L' = (case map_of (sl_daily L) (speech_daily_key h) of
                None \<Rightarrow> L
              | Some d \<Rightarrow>
                  if sd_reserved d \<ge> sh_reserved h then
                    L\<lparr>sl_daily := AList.update (speech_daily_key h)
                        (d\<lparr>sd_reserved := i64 (sd_reserved d - sh_reserved h),
                          sd_uncertain := i64 (sd_uncertain d + sh_reserved h)\<rparr>) (sl_daily L)\<rparr>
                  else L)
          in L'\<lparr>sl_reservations := AList.delete i (sl_reservations L')\<rparr>)"

definition speech_reconcileExpired :: "speech_ledger \<Rightarrow> wall_time \<Rightarrow> speech_ledger" where
  "speech_reconcileExpired L now = fold (speech_reconcile_one now) (sl_reservations L) L"

definition speech_Reserve ::
  "speech_ledger \<Rightarrow> go_ctx \<Rightarrow> string \<Rightarrow> speech_usage \<Rightarrow> wall_time \<Rightarrow>
   (budget_error + speech_reservation) \<times> speech_ledger" where
  "speech_Reserve L ctx subject limit now =
     (if ctx \<noteq> CtxLive \<or> subject = [] \<or> speech_Usage_Validate limit \<noteq> None
      then (Inl BudgetInvalid, L)
      else case speech_usageCost (sl_pricing L) limit of
        Inl e \<Rightarrow> (Inl e, L)
      | Inr cost \<Rightarrow>
          let L1 = speech_reconcileExpired L now;
              day = format_day now;
              subjectKey = speech_subjectKey L1 subject;
              dailyKey = day @ '':'' @ subjectKey;
              daily = (case map_of (sl_daily L1) dailyKey of None \<Rightarrow> speech_daily_zero | Some d \<Rightarrow> d);
              L2 = L1\<lparr>sl_daily := AList.update dailyKey daily (sl_daily L1)\<rparr>
          in
          if i64 (i64 (sd_committed daily + sd_uncertain daily) + sd_reserved daily)
               > i64 (sp_DailyBudgetMicrousd (sl_pricing L2) - cost)
          then (Inl BudgetExceeded, L2)
          else case read_full 16 (sl_random L2) of
            None \<Rightarrow> (Inl BudgetUnavailable, L2\<lparr>sl_random := []\<rparr>)
          | Some (i, random) \<Rightarrow>
              let L3 = L2\<lparr>sl_random := random\<rparr> in
              if map_of (sl_reservations L3) i \<noteq> None then (Inl BudgetUnavailable, L3)
              else
                (Inr \<lparr>sr_ID = i, sr_Limit = limit, sr_ReservedMicrousd = cost\<rparr>,
                 L3\<lparr>sl_reservations := AList.update i
                       \<lparr>sh_day = day, sh_subject = subjectKey,
                        sh_profile = sp_ProfileID (sl_pricing L3),
                        sh_limit = limit, sh_reserved = cost,
                        sh_expiresAt = now + sp_ReservationTTL (sl_pricing L3)\<rparr> (sl_reservations L3),
                    sl_daily := AList.update dailyKey
                       (daily\<lparr>sd_reserved := i64 (sd_reserved daily + cost)\<rparr>)
                       (sl_daily L3)\<rparr>))"

definition speech_Settle ::
  "speech_ledger \<Rightarrow> go_ctx \<Rightarrow> speech_reservation \<Rightarrow> speech_usage \<Rightarrow>
   (budget_error + int) \<times> speech_ledger" where
  "speech_Settle L ctx r u =
     (if ctx \<noteq> CtxLive \<or> \<not> speech_validReservation r \<or> speech_Usage_Validate u \<noteq> None
      then (Inl BudgetInvalid, L)
      else case map_of (sl_reservations L) (sr_ID r) of
        None \<Rightarrow> (Inl ReservationLost, L)
      | Some stored \<Rightarrow>
        if \<not> usageWithin u (sh_limit stored) then (Inl UsageExceeded, L)
        else case speech_usageCost (sl_pricing L) u of
          Inl _ \<Rightarrow> (Inl UsageExceeded, L)
        | Inr cost \<Rightarrow>
          if cost > sh_reserved stored then (Inl UsageExceeded, L)
          else case map_of (sl_daily L) (speech_daily_key stored) of
            None \<Rightarrow> (Inl BudgetUnavailable, L)
          | Some daily \<Rightarrow>
            if sd_reserved daily < sh_reserved stored then (Inl BudgetUnavailable, L)
            else
              (Inr cost,
               L\<lparr>sl_daily := AList.update (speech_daily_key stored)
                   (daily\<lparr>sd_reserved := i64 (sd_reserved daily - sh_reserved stored),
                     sd_committed := i64 (sd_committed daily + cost)\<rparr>) (sl_daily L),
                  sl_reservations := AList.delete (sr_ID r) (sl_reservations L)\<rparr>))"

definition speech_MarkUncertain ::
  "speech_ledger \<Rightarrow> go_ctx \<Rightarrow> speech_reservation \<Rightarrow> (budget_error + int) \<times> speech_ledger" where
  "speech_MarkUncertain L ctx r =
     (if ctx \<noteq> CtxLive \<or> \<not> speech_validReservation r then (Inl BudgetInvalid, L)
      else case map_of (sl_reservations L) (sr_ID r) of
        None \<Rightarrow> (Inl ReservationLost, L)
      | Some stored \<Rightarrow>
        (case map_of (sl_daily L) (speech_daily_key stored) of
           None \<Rightarrow> (Inl BudgetUnavailable, L)
         | Some daily \<Rightarrow>
           if sd_reserved daily < sh_reserved stored then (Inl BudgetUnavailable, L)
           else
             (Inr (sh_reserved stored),
              L\<lparr>sl_daily := AList.update (speech_daily_key stored)
                  (daily\<lparr>sd_reserved := i64 (sd_reserved daily - sh_reserved stored),
                    sd_uncertain := i64 (sd_uncertain daily + sh_reserved stored)\<rparr>) (sl_daily L),
                 sl_reservations := AList.delete (sr_ID r) (sl_reservations L)\<rparr>)))"

definition speech_Release ::
  "speech_ledger \<Rightarrow> go_ctx \<Rightarrow> speech_reservation \<Rightarrow> (budget_error + unit) \<times> speech_ledger" where
  "speech_Release L ctx r =
     (if ctx \<noteq> CtxLive \<or> \<not> speech_validReservation r then (Inl BudgetInvalid, L)
      else case map_of (sl_reservations L) (sr_ID r) of
        None \<Rightarrow> (Inl ReservationLost, L)
      | Some stored \<Rightarrow>
        (case map_of (sl_daily L) (speech_daily_key stored) of
           None \<Rightarrow> (Inl BudgetUnavailable, L)
         | Some daily \<Rightarrow>
           if sd_reserved daily < sh_reserved stored then (Inl BudgetUnavailable, L)
           else
             (Inr (),
              L\<lparr>sl_daily := AList.update (speech_daily_key stored)
                  (daily\<lparr>sd_reserved := i64 (sd_reserved daily - sh_reserved stored)\<rparr>) (sl_daily L),
                 sl_reservations := AList.delete (sr_ID r) (sl_reservations L)\<rparr>)))"

inductive speech_step :: "speech_ledger \<Rightarrow> speech_ledger \<Rightarrow> bool" where
  reserve: "speech_step L (snd (speech_Reserve L ctx subject limit now))"
| settle: "speech_step L (snd (speech_Settle L ctx r u))"
| markUncertain: "speech_step L (snd (speech_MarkUncertain L ctx r))"
| release: "speech_step L (snd (speech_Release L ctx r))"

text \<open>A later call that does not issue the reservation ID \<open>i\<close>: \<^verbatim>\<open>Reserve\<close> draws its IDs at random and compares them
  with the open reservations only, so a closed ID may be drawn again.\<close>

inductive speech_later :: "byte list \<Rightarrow> speech_ledger \<Rightarrow> speech_ledger \<Rightarrow> bool" for i where
  reserve: "(\<And>r. fst (speech_Reserve L ctx subject limit now) = Inr r \<Longrightarrow> sr_ID r \<noteq> i) \<Longrightarrow>
    speech_later i L (snd (speech_Reserve L ctx subject limit now))"
| settle: "speech_later i L (snd (speech_Settle L ctx r u))"
| markUncertain: "speech_later i L (snd (speech_MarkUncertain L ctx r))"
| release: "speech_later i L (snd (speech_Release L ctx r))"

subsection \<open>The abstract view\<close>

definition speech_account :: "(speech_daily \<Rightarrow> int) \<Rightarrow> speech_ledger \<Rightarrow> string \<Rightarrow> int" where
  "speech_account f L k = (case map_of (sl_daily L) k of None \<Rightarrow> 0 | Some d \<Rightarrow> f d)"

definition speech_view :: "speech_ledger \<Rightarrow> (string, byte list) ledger_view" where
  "speech_view L =
     \<lparr>lv_committed = speech_account sd_committed L,
      lv_uncertain = speech_account sd_uncertain L,
      lv_reserved = speech_account sd_reserved L,
      lv_holds = map_values (\<lambda>h. (speech_daily_key h, sh_reserved h)) (sl_reservations L)\<rparr>"

definition speech_hold_ok :: "speech_pricing \<Rightarrow> speech_hold \<Rightarrow> bool" where
  "speech_hold_ok p h \<longleftrightarrow>
     speech_Usage_Validate (sh_limit h) = None \<and> speech_usageCost p (sh_limit h) = Inr (sh_reserved h)"

definition speech_wf :: "speech_pricing \<Rightarrow> speech_ledger \<Rightarrow> bool" where
  "speech_wf p L \<longleftrightarrow> sl_pricing L = p \<and> speech_Pricing_Validate p = None \<and>
     wf_map (sl_daily L) \<and> wf_map (sl_reservations L) \<and>
     (\<forall>i h. map_of (sl_reservations L) i = Some h \<longrightarrow> speech_hold_ok p h)"

definition speech_init :: "speech_pricing \<Rightarrow> speech_ledger \<Rightarrow> bool" where
  "speech_init p L \<longleftrightarrow> (\<exists>key random. speech_NewMemoryLedger p key random = Inr L)"

text \<open>The price of a usage, the reference for \<^verbatim>\<open>usageCost\<close>.\<close>

definition speech_price :: "speech_pricing \<Rightarrow> speech_usage \<Rightarrow> int" where
  "speech_price p u =
     price_per_million (su_STTAudioMS u) (sp_STTMicrousdPerMillionAudioMS p) +
     price_per_million (su_TTSCharacters u) (sp_TTSMicrousdPerMillionCharacters p) +
     price_per_million (su_TTSOutputAudioMS u) (sp_TTSMicrousdPerMillionOutputAudioMS p)"

subsection \<open>Example\<close>

definition speech_example_pricing :: speech_pricing where
  "speech_example_pricing = \<lparr>sp_ProfileID = ''speech-1'', sp_STTMicrousdPerMillionAudioMS = 100000000,
     sp_TTSMicrousdPerMillionCharacters = 0, sp_TTSMicrousdPerMillionOutputAudioMS = 30000000,
     sp_DailyBudgetMicrousd = 1000000, sp_STTReservationChunkAudioMS = 1000,
     sp_TTSMaxOutputAudioMS = 10000, sp_ReservationTTL = 60 * second\<rparr>"

definition speech_example_ledger :: speech_ledger where
  "speech_example_ledger = \<lparr>sl_pricing = speech_example_pricing, sl_digestKey = replicate 32 7,
     sl_random = replicate 16 1 @ replicate 16 2, sl_daily = [], sl_reservations = []\<rparr>"

definition speech_example_key :: string where
  "speech_example_key = format_day 0 @ '':'' @ speech_subjectKey speech_example_ledger ''user-1''"

definition speech_example_reserved :: speech_ledger where
  "speech_example_reserved = snd (speech_Reserve speech_example_ledger CtxLive ''user-1'' (TTSUsage 20 5000) 0)"

section \<open>Lemmas\<close>

subsection \<open>Costs\<close>

lemmas speech_consts = speech_MaximumUnitBound_def speech_MaximumRate_def speech_MaximumBudget_def

lemma unitCost_exact:
  assumes "0 \<le> units" "units \<le> speech_MaximumUnitBound" "0 \<le> rate" "rate \<le> speech_MaximumRate"
  shows "speech_unitCost units rate = Inr (price_per_million units rate)"
    and "0 \<le> price_per_million units rate" and "price_per_million units rate \<le> 86400000000000"
proof -
  show bounds: "0 \<le> price_per_million units rate" "price_per_million units rate \<le> 86400000000000"
    using price_bounds [OF assms(1,2,3,4)] by (simp_all add: speech_consts)
  show "speech_unitCost units rate = Inr (price_per_million units rate)"
  proof (cases "units = 0 \<or> rate = 0")
    case True
    then show ?thesis
      using assms by (auto simp: speech_unitCost_def price_per_million_def speech_consts)
  next
    case False
    with assms show ?thesis
      using bounds million_arith [of units rate]
      by (simp add: speech_unitCost_def Let_def speech_consts)
  qed
qed

lemma speech_usageCost_exact:
  assumes "speech_Pricing_Validate p = None" and "speech_Usage_Validate u = None"
  shows "speech_usageCost p u = (if speech_price p u < 1 then Inl BudgetInvalid else Inr (speech_price p u))"
    and "0 \<le> speech_price p u" and "speech_price p u \<le> 259200000000000"
proof -
  have units: "0 \<le> su_STTAudioMS u" "su_STTAudioMS u \<le> speech_MaximumUnitBound"
      "0 \<le> su_TTSCharacters u" "su_TTSCharacters u \<le> speech_MaximumUnitBound"
      "0 \<le> su_TTSOutputAudioMS u" "su_TTSOutputAudioMS u \<le> speech_MaximumUnitBound"
    using assms(2) by (auto simp: speech_Usage_Validate_def Let_def speech_consts split: if_splits)
  have rates: "0 \<le> sp_STTMicrousdPerMillionAudioMS p" "sp_STTMicrousdPerMillionAudioMS p \<le> speech_MaximumRate"
      "0 \<le> sp_TTSMicrousdPerMillionCharacters p" "sp_TTSMicrousdPerMillionCharacters p \<le> speech_MaximumRate"
      "0 \<le> sp_TTSMicrousdPerMillionOutputAudioMS p" "sp_TTSMicrousdPerMillionOutputAudioMS p \<le> speech_MaximumRate"
    using assms(1) by (auto simp: speech_Pricing_Validate_def split: if_splits)
  note costs = unitCost_exact [OF units(1,2) rates(1,2)] unitCost_exact [OF units(3,4) rates(3,4)]
    unitCost_exact [OF units(5,6) rates(5,6)]
  show "0 \<le> speech_price p u" and "speech_price p u \<le> 259200000000000"
    using costs by (simp_all add: speech_price_def)
  show "speech_usageCost p u = (if speech_price p u < 1 then Inl BudgetInvalid else Inr (speech_price p u))"
    using costs assms(2) by (simp add: speech_usageCost_def speech_price_def i64_id speech_consts)
qed

lemma speech_price_mono:
  assumes "speech_Pricing_Validate p = None" and "usageWithin u limit"
  shows "speech_price p u \<le> speech_price p limit"
proof -
  have "0 \<le> sp_STTMicrousdPerMillionAudioMS p" "0 \<le> sp_TTSMicrousdPerMillionCharacters p"
      "0 \<le> sp_TTSMicrousdPerMillionOutputAudioMS p"
    using assms(1) by (auto simp: speech_Pricing_Validate_def split: if_splits)
  then show ?thesis
    using assms(2) unfolding speech_price_def by (auto simp: usageWithin_def intro!: add_mono price_mono split: if_splits)
qed

subsection \<open>The ledger implements the contract\<close>

lemma speech_account_Some [simp]: "map_of (sl_daily L) k = Some d \<Longrightarrow> speech_account f L k = f d"
  by (simp add: speech_account_def)

lemma speech_view_close:
  "speech_view (L\<lparr>sl_daily := AList.update k d (sl_daily L), sl_reservations := AList.delete i (sl_reservations L)\<rparr>) =
   (speech_view L)\<lparr>lv_reserved := (lv_reserved (speech_view L))(k := sd_reserved d),
     lv_committed := (lv_committed (speech_view L))(k := sd_committed d),
     lv_uncertain := (lv_uncertain (speech_view L))(k := sd_uncertain d),
     lv_holds := AList.delete i (lv_holds (speech_view L))\<rparr>"
  by (simp add: speech_view_def speech_account_def fun_eq_iff)

lemma speech_budget_bound:
  "speech_Pricing_Validate p = None \<Longrightarrow> 1 \<le> sp_DailyBudgetMicrousd p \<and> sp_DailyBudgetMicrousd p \<le> 1000000000000000"
  by (auto simp: speech_Pricing_Validate_def speech_MaximumBudget_def split: if_splits)

text \<open>The account of an open reservation exists and covers it; its amounts are far from overflow.\<close>

lemma speech_open_daily:
  assumes "speech_wf p L" and "ledger_inv (sp_DailyBudgetMicrousd p) (speech_view L)"
    and "map_of (sl_reservations L) i = Some h"
  obtains d where "map_of (sl_daily L) (speech_daily_key h) = Some d"
    and "0 < sh_reserved h" and "sh_reserved h \<le> sd_reserved d"
    and "0 \<le> sd_committed d" and "0 \<le> sd_uncertain d"
    and "sd_committed d + sd_uncertain d + sd_reserved d \<le> 1000000000000000"
proof -
  let ?k = "speech_daily_key h"
  have hold: "map_of (lv_holds (speech_view L)) i = Some (?k, sh_reserved h)"
    using assms(3) by (simp add: speech_view_def)
  note facts = ledger_invD(2) [OF assms(2) hold] ledger_inv_reserved(2) [OF assms(2) hold]
    ledger_invD(3,4,6) [OF assms(2), of ?k]
  from facts(1,2) obtain d where "map_of (sl_daily L) ?k = Some d"
    by (auto simp: speech_view_def speech_account_def split: option.splits)
  moreover have "sp_DailyBudgetMicrousd p \<le> 1000000000000000"
    using assms(1) speech_budget_bound by (simp add: speech_wf_def)
  ultimately show ?thesis
    using facts that by (simp add: speech_view_def lv_spent_def)
qed

lemma speech_wf_close:
  "speech_wf p L \<Longrightarrow> speech_wf p (L\<lparr>sl_daily := AList.update k d (sl_daily L),
     sl_reservations := AList.delete i (sl_reservations L)\<rparr>)"
  by (auto simp: speech_wf_def split: if_splits)

text \<open>Turning an expired or abandoned reservation into an uncertain charge.\<close>

lemma speech_uncertain_step:
  assumes "speech_wf p L" and "ledger_inv (sp_DailyBudgetMicrousd p) (speech_view L)"
    and hold: "map_of (sl_reservations L) i = Some h"
    and daily: "map_of (sl_daily L) (speech_daily_key h) = Some d"
  shows "ledger_step (sp_DailyBudgetMicrousd p) (speech_view L)
    (speech_view (L\<lparr>sl_daily := AList.update (speech_daily_key h)
        (d\<lparr>sd_reserved := i64 (sd_reserved d - sh_reserved h),
          sd_uncertain := i64 (sd_uncertain d + sh_reserved h)\<rparr>) (sl_daily L),
        sl_reservations := AList.delete i (sl_reservations L)\<rparr>))"
proof -
  obtain d' where d': "map_of (sl_daily L) (speech_daily_key h) = Some d'"
    "0 < sh_reserved h" "sh_reserved h \<le> sd_reserved d'"
    "0 \<le> sd_committed d'" "0 \<le> sd_uncertain d'"
    "sd_committed d' + sd_uncertain d' + sd_reserved d' \<le> 1000000000000000"
    by (rule speech_open_daily [OF assms(1,2) hold])
  with daily have bounds: "0 < sh_reserved h" "sh_reserved h \<le> sd_reserved d"
    "0 \<le> sd_committed d" "0 \<le> sd_uncertain d"
    "sd_committed d + sd_uncertain d + sd_reserved d \<le> 1000000000000000"
    by simp_all
  have "map_of (lv_holds (speech_view L)) i = Some (speech_daily_key h, sh_reserved h)"
    using hold by (simp add: speech_view_def)
  from ledger_step.uncertain [OF this, of "sp_DailyBudgetMicrousd p"] show ?thesis
    unfolding speech_view_close using bounds daily
    by (simp add: i64_id speech_view_def fun_upd_idem)
qed

lemma speech_reconcile_one_open:
  assumes "speech_wf p L" and "ledger_inv (sp_DailyBudgetMicrousd p) (speech_view L)"
    and hold: "map_of (sl_reservations L) i = Some h"
  shows "speech_wf p (speech_reconcile_one now (i, h) L)"
    and "ledger_steps (sp_DailyBudgetMicrousd p) (speech_view L) (speech_view (speech_reconcile_one now (i, h) L))"
    and "sl_reservations (speech_reconcile_one now (i, h) L) =
      (if sh_expiresAt h > now then sl_reservations L else AList.delete i (sl_reservations L))"
    and "sl_random (speech_reconcile_one now (i, h) L) = sl_random L"
    and "sl_digestKey (speech_reconcile_one now (i, h) L) = sl_digestKey L"
proof -
  obtain d where d: "map_of (sl_daily L) (speech_daily_key h) = Some d" "sh_reserved h \<le> sd_reserved d"
    by (rule speech_open_daily [OF assms])
  have eq: "speech_reconcile_one now (i, h) L =
    (if sh_expiresAt h > now then L
     else L\<lparr>sl_daily := AList.update (speech_daily_key h)
        (d\<lparr>sd_reserved := i64 (sd_reserved d - sh_reserved h),
          sd_uncertain := i64 (sd_uncertain d + sh_reserved h)\<rparr>) (sl_daily L),
        sl_reservations := AList.delete i (sl_reservations L)\<rparr>)"
    using d by (simp add: speech_reconcile_one_def)
  show "speech_wf p (speech_reconcile_one now (i, h) L)"
    unfolding eq using assms(1) speech_wf_close by simp
  show "ledger_steps (sp_DailyBudgetMicrousd p) (speech_view L) (speech_view (speech_reconcile_one now (i, h) L))"
    unfolding eq using speech_uncertain_step [OF assms d(1)] by (auto intro: r_into_rtranclp)
  show "sl_reservations (speech_reconcile_one now (i, h) L) =
      (if sh_expiresAt h > now then sl_reservations L else AList.delete i (sl_reservations L))"
    and "sl_random (speech_reconcile_one now (i, h) L) = sl_random L"
    and "sl_digestKey (speech_reconcile_one now (i, h) L) = sl_digestKey L"
    unfolding eq by simp_all
qed

lemma speech_reconcile_fold:
  assumes "speech_wf p L" and "ledger_inv (sp_DailyBudgetMicrousd p) (speech_view L)"
    and "wf_map es" and "\<And>i h. (i, h) \<in> set es \<Longrightarrow> map_of (sl_reservations L) i = Some h"
  shows "speech_wf p (fold (speech_reconcile_one now) es L) \<and>
    ledger_steps (sp_DailyBudgetMicrousd p) (speech_view L) (speech_view (fold (speech_reconcile_one now) es L)) \<and>
    sl_random (fold (speech_reconcile_one now) es L) = sl_random L \<and>
    sl_digestKey (fold (speech_reconcile_one now) es L) = sl_digestKey L"
  using assms
proof (induction es arbitrary: L)
  case Nil
  then show ?case by simp
next
  case (Cons e es)
  obtain i h where e: "e = (i, h)" by (cases e)
  have hold: "map_of (sl_reservations L) i = Some h"
    using Cons.prems(4) e by simp
  note one = speech_reconcile_one_open [OF Cons.prems(1,2) hold, of now]
  let ?L = "speech_reconcile_one now (i, h) L"
  have keep: "map_of (sl_reservations ?L) i' = Some h'" if "(i', h') \<in> set es" for i' h'
  proof -
    have "i' \<noteq> i" using Cons.prems(3) e that by (auto simp: image_iff)
    then show ?thesis using Cons.prems(4) [of i' h'] that one(3) by simp
  qed
  have "wf_map es" using Cons.prems(3) by simp
  from Cons.IH [OF one(1) ledger_steps_inv [OF one(2) Cons.prems(2)] this keep] show ?case
    using one(2,4,5) e by (auto intro: rtranclp_trans)
qed

lemma speech_reconcileExpired_sim:
  assumes "speech_wf p L" and "ledger_inv (sp_DailyBudgetMicrousd p) (speech_view L)"
  shows "speech_wf p (speech_reconcileExpired L now)"
    and "ledger_steps (sp_DailyBudgetMicrousd p) (speech_view L) (speech_view (speech_reconcileExpired L now))"
    and "sl_random (speech_reconcileExpired L now) = sl_random L"
    and "sl_digestKey (speech_reconcileExpired L now) = sl_digestKey L"
  using speech_reconcile_fold [OF assms, of "sl_reservations L" now] assms(1)
  by (auto simp: speech_reconcileExpired_def speech_wf_def map_of_eq_Some_iff)

text \<open>Creating the account on first use does not change the view.\<close>

definition speech_touch :: "string \<Rightarrow> speech_ledger \<Rightarrow> speech_ledger" where
  "speech_touch k L = L\<lparr>sl_daily := AList.update k
     (case map_of (sl_daily L) k of None \<Rightarrow> speech_daily_zero | Some d \<Rightarrow> d) (sl_daily L)\<rparr>"

lemma speech_view_touch [simp]: "speech_view (speech_touch k L) = speech_view L"
  by (auto simp: speech_touch_def speech_view_def speech_account_def speech_daily_zero_def fun_eq_iff
      split: option.splits)

lemma speech_view_random [simp]: "speech_view (L\<lparr>sl_random := r\<rparr>) = speech_view L"
  by (simp add: speech_view_def speech_account_def fun_eq_iff)

lemma speech_wf_touch: "speech_wf p L \<Longrightarrow> speech_wf p (speech_touch k L)"
  by (simp add: speech_touch_def speech_wf_def)

lemma speech_wf_random: "speech_wf p L \<Longrightarrow> speech_wf p (L\<lparr>sl_random := r\<rparr>)"
  by (simp add: speech_wf_def)

text \<open>Opening a reservation.\<close>

lemma speech_hold_step:
  assumes wf: "speech_wf p L" and inv: "ledger_inv (sp_DailyBudgetMicrousd p) (speech_view L)"
    and new: "map_of (sl_reservations L) i = None"
    and daily: "map_of (sl_daily L) (speech_daily_key h) = Some d"
    and hold: "speech_hold_ok p h" and pos: "1 \<le> sh_reserved h"
    and room: "\<not> i64 (i64 (sd_committed d + sd_uncertain d) + sd_reserved d)
        > i64 (sp_DailyBudgetMicrousd p - sh_reserved h)"
  defines "L' \<equiv> L\<lparr>sl_reservations := AList.update i h (sl_reservations L),
      sl_daily := AList.update (speech_daily_key h)
        (d\<lparr>sd_reserved := i64 (sd_reserved d + sh_reserved h)\<rparr>) (sl_daily L)\<rparr>"
  shows "speech_wf p L'" and "ledger_step (sp_DailyBudgetMicrousd p) (speech_view L) (speech_view L')"
proof -
  let ?k = "speech_daily_key h"
  have p: "speech_Pricing_Validate p = None" using wf by (simp add: speech_wf_def)
  show "speech_wf p L'"
    using wf hold by (auto simp: L'_def speech_wf_def split: if_splits)
  have acct: "0 \<le> sd_committed d" "0 \<le> sd_uncertain d" "0 \<le> sd_reserved d"
      "sd_committed d + sd_uncertain d + sd_reserved d \<le> sp_DailyBudgetMicrousd p"
    using ledger_invD(3,4,6) [OF inv, of ?k] ledger_inv_reserved(1) [OF inv, of ?k] daily
    by (simp_all add: speech_view_def lv_spent_def)
  have cost: "sh_reserved h \<le> 259200000000000"
    using speech_usageCost_exact [OF p, of "sh_limit h"] hold
    by (auto simp: speech_hold_ok_def split: if_splits)
  have fits: "lv_spent (speech_view L) ?k + sh_reserved h \<le> sp_DailyBudgetMicrousd p"
    using room acct cost pos speech_budget_bound [OF p] daily
    by (simp add: i64_id speech_view_def lv_spent_def)
  have view: "speech_view L' = (speech_view L)\<lparr>
      lv_reserved := (lv_reserved (speech_view L))(?k := lv_reserved (speech_view L) ?k + sh_reserved h),
      lv_holds := AList.update i (?k, sh_reserved h) (lv_holds (speech_view L))\<rparr>"
    using daily acct cost pos speech_budget_bound [OF p]
    by (simp add: L'_def speech_view_def speech_account_def fun_eq_iff i64_id)
  show "ledger_step (sp_DailyBudgetMicrousd p) (speech_view L) (speech_view L')"
    unfolding view using new pos fits by (intro ledger_step.hold) (simp_all add: speech_view_def)
qed

lemma speech_Reserve_sim:
  assumes wf: "speech_wf p L" and inv: "ledger_inv (sp_DailyBudgetMicrousd p) (speech_view L)"
    and L': "L' = snd (speech_Reserve L ctx subject limit now)"
  shows "speech_wf p L' \<and> ledger_steps (sp_DailyBudgetMicrousd p) (speech_view L) (speech_view L')"
proof -
  define L1 where "L1 = speech_reconcileExpired L now"
  define k where "k = format_day now @ '':'' @ speech_subjectKey L1 subject"
  define L2 where "L2 = speech_touch k L1"
  note rec = speech_reconcileExpired_sim [OF wf inv, of now, folded L1_def]
  have wf2: "speech_wf p (L2\<lparr>sl_random := r\<rparr>)" for r
    unfolding L2_def by (intro speech_wf_random speech_wf_touch rec(1))
  have inv2: "ledger_inv (sp_DailyBudgetMicrousd p) (speech_view (L2\<lparr>sl_random := r\<rparr>))" for r
    using ledger_steps_inv [OF rec(2) inv] by (simp add: L2_def)
  have pricing: "sl_pricing L = p" "sl_pricing L1 = p" using wf rec(1) by (simp_all add: speech_wf_def)
  let ?bad = "ctx \<noteq> CtxLive \<or> subject = [] \<or> speech_Usage_Validate limit \<noteq> None"
  define d where "d = (case map_of (sl_daily L1) k of None \<Rightarrow> speech_daily_zero | Some d \<Rightarrow> d)"
  have daily2: "map_of (sl_daily (L2\<lparr>sl_random := r\<rparr>)) k = Some d" for r
    by (simp add: L2_def speech_touch_def d_def)
  have L2_eq: "L1\<lparr>sl_daily := AList.update k d (sl_daily L1)\<rparr> = L2"
    by (simp add: L2_def speech_touch_def d_def)
  have keep2: "speech_wf p (L2\<lparr>sl_random := r\<rparr>) \<and>
      ledger_steps (sp_DailyBudgetMicrousd p) (speech_view L) (speech_view (L2\<lparr>sl_random := r\<rparr>))" for r
    using wf2 rec(2) by (simp add: L2_def)
  have random2: "sl_random L2 = sl_random L1" "L2\<lparr>sl_random := sl_random L1\<rparr> = L2"
    by (simp_all add: L2_def speech_touch_def)
  show ?thesis
  proof (cases "speech_usageCost p limit")
    case (Inl e)
    then have "L' = L" by (simp add: L' speech_Reserve_def pricing)
    then show ?thesis using wf by simp
  next
    case (Inr cost)
    note reserve = L' [unfolded speech_Reserve_def pricing Inr sum.case Let_def, folded L1_def, folded k_def, folded d_def, unfolded L2_eq]
    let ?full = "i64 (i64 (sd_committed d + sd_uncertain d) + sd_reserved d)
        > i64 (sp_DailyBudgetMicrousd p - cost)"
    have pricing2: "sl_pricing L2 = p" by (simp add: L2_def speech_touch_def pricing)
    have pos: "1 \<le> cost"
      using Inr by (auto simp: speech_usageCost_def split: if_splits sum.splits)
    consider "?bad" | "\<not> ?bad" "?full"
      | "\<not> ?bad" "\<not> ?full" "read_full 16 (sl_random L2) = None"
      | i r where "\<not> ?bad" "\<not> ?full" "read_full 16 (sl_random L2) = Some (i, r)"
      by force
    then show ?thesis
    proof cases
      case 1
      then have "L' = L" unfolding reserve by auto
      then show ?thesis using wf by simp
    next
      case 2
      then have "L' = L2" unfolding reserve by (simp add: pricing2)
      then show ?thesis using keep2 [of "sl_random L1"] random2 by simp
    next
      case 3
      then have "L' = L2\<lparr>sl_random := []\<rparr>" unfolding reserve by (simp add: pricing2)
      then show ?thesis using keep2 by simp
    next
      case 4
      let ?L3 = "L2\<lparr>sl_random := r\<rparr>"
      let ?h = "\<lparr>sh_day = format_day now, sh_subject = speech_subjectKey L1 subject, sh_profile = sp_ProfileID p,
         sh_limit = limit, sh_reserved = cost,
         sh_expiresAt = now + sp_ReservationTTL p\<rparr>"
      have key: "speech_daily_key ?h = k" by (simp add: speech_daily_key_def k_def)
      have ok: "speech_hold_ok p ?h" using 4 Inr by (simp add: speech_hold_ok_def)
      show ?thesis
      proof (cases "map_of (sl_reservations ?L3) i")
        case None
        then have "L' = ?L3\<lparr>sl_reservations := AList.update i ?h (sl_reservations ?L3),
            sl_daily := AList.update (speech_daily_key ?h)
              (d\<lparr>sd_reserved := i64 (sd_reserved d + sh_reserved ?h)\<rparr>) (sl_daily ?L3)\<rparr>"
          unfolding reserve using 4 by (simp add: pricing2 key)
        moreover note speech_hold_step [OF wf2 inv2 None _ ok, unfolded key, OF daily2]
        ultimately show ?thesis
          using 4 pos rec(2) by (simp add: key L2_def rtranclp.rtrancl_into_rtrancl)
      next
        case (Some x)
        then have "L' = ?L3" unfolding reserve using 4 by (simp add: pricing2)
        then show ?thesis using keep2 by simp
      qed
    qed
  qed
qed

text \<open>Usage within the limits of a reservation is priced at most at what the reservation holds.\<close>

lemma speech_cost_within:
  assumes "speech_Pricing_Validate p = None" and "speech_hold_ok p h" and "usageWithin u (sh_limit h)"
  shows "speech_usageCost p u = (if speech_price p u < 1 then Inl BudgetInvalid else Inr (speech_price p u))"
    and "speech_price p u \<le> sh_reserved h" and "0 \<le> speech_price p u"
proof -
  have u: "speech_Usage_Validate u = None" using assms(3) by (auto simp: usageWithin_def split: if_splits)
  note exact = speech_usageCost_exact [OF assms(1) u]
  show "speech_usageCost p u = (if speech_price p u < 1 then Inl BudgetInvalid else Inr (speech_price p u))"
    by (rule exact)
  have "sh_reserved h = speech_price p (sh_limit h)"
    using speech_usageCost_exact(1) [OF assms(1), of "sh_limit h"] assms(2)
    by (auto simp: speech_hold_ok_def split: if_splits)
  then show "speech_price p u \<le> sh_reserved h"
    using speech_price_mono [OF assms(1,3)] by simp
  show "0 \<le> speech_price p u" by (rule exact)
qed

lemma speech_settle_step:
  assumes wf: "speech_wf p L" and inv: "ledger_inv (sp_DailyBudgetMicrousd p) (speech_view L)"
    and hold: "map_of (sl_reservations L) i = Some h"
    and daily: "map_of (sl_daily L) (speech_daily_key h) = Some d"
    and cost: "0 \<le> cost" "cost \<le> sh_reserved h"
    and d': "sd_reserved d' = i64 (sd_reserved d - sh_reserved h)"
      "sd_committed d' = i64 (sd_committed d + cost)"
      "sd_uncertain d' = sd_uncertain d"
  shows "ledger_step (sp_DailyBudgetMicrousd p) (speech_view L)
    (speech_view (L\<lparr>sl_daily := AList.update (speech_daily_key h) d' (sl_daily L),
        sl_reservations := AList.delete i (sl_reservations L)\<rparr>))"
proof -
  obtain d0 where d0: "map_of (sl_daily L) (speech_daily_key h) = Some d0"
    "0 < sh_reserved h" "sh_reserved h \<le> sd_reserved d0"
    "0 \<le> sd_committed d0" "0 \<le> sd_uncertain d0"
    "sd_committed d0 + sd_uncertain d0 + sd_reserved d0 \<le> 1000000000000000"
    by (rule speech_open_daily [OF wf inv hold])
  have "map_of (lv_holds (speech_view L)) i = Some (speech_daily_key h, sh_reserved h)"
    using hold by (simp add: speech_view_def)
  from ledger_step.settle [OF this cost, of "sp_DailyBudgetMicrousd p"] show ?thesis
    unfolding speech_view_close using d0 daily cost d'
    by (simp add: i64_id speech_view_def fun_upd_idem)
qed

lemma speech_release_step:
  assumes wf: "speech_wf p L" and inv: "ledger_inv (sp_DailyBudgetMicrousd p) (speech_view L)"
    and hold: "map_of (sl_reservations L) i = Some h"
    and daily: "map_of (sl_daily L) (speech_daily_key h) = Some d"
  shows "ledger_step (sp_DailyBudgetMicrousd p) (speech_view L)
    (speech_view (L\<lparr>sl_daily := AList.update (speech_daily_key h)
        (d\<lparr>sd_reserved := i64 (sd_reserved d - sh_reserved h)\<rparr>) (sl_daily L),
        sl_reservations := AList.delete i (sl_reservations L)\<rparr>))"
proof -
  obtain d0 where d0: "map_of (sl_daily L) (speech_daily_key h) = Some d0"
    "0 < sh_reserved h" "sh_reserved h \<le> sd_reserved d0"
    "0 \<le> sd_committed d0" "0 \<le> sd_uncertain d0"
    "sd_committed d0 + sd_uncertain d0 + sd_reserved d0 \<le> 1000000000000000"
    by (rule speech_open_daily [OF wf inv hold])
  have "map_of (lv_holds (speech_view L)) i = Some (speech_daily_key h, sh_reserved h)"
    using hold by (simp add: speech_view_def)
  from ledger_step.release [OF this, of "sp_DailyBudgetMicrousd p"] show ?thesis
    unfolding speech_view_close using d0 daily
    by (simp add: i64_id speech_view_def fun_upd_idem)
qed

text \<open>What each closing operation answers for an open reservation of a reachable ledger: the
  account exists and covers the reservation, so the \<^verbatim>\<open>ErrUnavailable\<close> branches are not taken.\<close>

lemma speech_hold_covered:
  assumes "speech_wf p L" and "ledger_inv (sp_DailyBudgetMicrousd p) (speech_view L)"
    and "map_of (sl_reservations L) i = Some h" and "map_of (sl_daily L) (speech_daily_key h) = Some d"
  shows "\<not> sd_reserved d < sh_reserved h"
  using speech_open_daily [OF assms(1-3)] assms(4) by fastforce

lemma speech_MarkUncertain_open:
  assumes wf: "speech_wf p L" and inv: "ledger_inv (sp_DailyBudgetMicrousd p) (speech_view L)"
    and r: "speech_validReservation r" and hold: "map_of (sl_reservations L) (sr_ID r) = Some h"
    and d: "map_of (sl_daily L) (speech_daily_key h) = Some d"
  shows "speech_MarkUncertain L CtxLive r =
     (Inr (sh_reserved h), L\<lparr>sl_daily := AList.update (speech_daily_key h)
        (d\<lparr>sd_reserved := i64 (sd_reserved d - sh_reserved h),
          sd_uncertain := i64 (sd_uncertain d + sh_reserved h)\<rparr>) (sl_daily L),
        sl_reservations := AList.delete (sr_ID r) (sl_reservations L)\<rparr>)"
  using r hold d speech_hold_covered [OF wf inv hold d] by (simp add: speech_MarkUncertain_def)

lemma speech_Release_open:
  assumes wf: "speech_wf p L" and inv: "ledger_inv (sp_DailyBudgetMicrousd p) (speech_view L)"
    and r: "speech_validReservation r" and hold: "map_of (sl_reservations L) (sr_ID r) = Some h"
    and d: "map_of (sl_daily L) (speech_daily_key h) = Some d"
  shows "speech_Release L CtxLive r =
     (Inr (), L\<lparr>sl_daily := AList.update (speech_daily_key h)
        (d\<lparr>sd_reserved := i64 (sd_reserved d - sh_reserved h)\<rparr>) (sl_daily L),
        sl_reservations := AList.delete (sr_ID r) (sl_reservations L)\<rparr>)"
  using r hold d speech_hold_covered [OF wf inv hold d] by (simp add: speech_Release_def)

lemma speech_Settle_open:
  assumes wf: "speech_wf p L" and inv: "ledger_inv (sp_DailyBudgetMicrousd p) (speech_view L)"
    and r: "speech_validReservation r" and hold: "map_of (sl_reservations L) (sr_ID r) = Some h"
    and d: "map_of (sl_daily L) (speech_daily_key h) = Some d"
    and within: "usageWithin u (sh_limit h)"
  shows "speech_Settle L CtxLive r u =
     (if speech_price p u < 1 then (Inl UsageExceeded, L)
      else (Inr (speech_price p u), L\<lparr>sl_daily := AList.update (speech_daily_key h)
        (d\<lparr>sd_reserved := i64 (sd_reserved d - sh_reserved h),
           sd_committed := i64 (sd_committed d + speech_price p u)\<rparr>) (sl_daily L),
        sl_reservations := AList.delete (sr_ID r) (sl_reservations L)\<rparr>))"
    and "0 \<le> speech_price p u" and "speech_price p u \<le> sh_reserved h"
proof -
  have p: "sl_pricing L = p" "speech_Pricing_Validate p = None" "speech_hold_ok p h"
    using wf hold by (auto simp: speech_wf_def)
  note price = speech_cost_within [OF p(2,3) within]
  have "speech_Usage_Validate u = None" using within by (auto simp: usageWithin_def split: if_splits)
  then show "speech_Settle L CtxLive r u =
     (if speech_price p u < 1 then (Inl UsageExceeded, L)
      else (Inr (speech_price p u), L\<lparr>sl_daily := AList.update (speech_daily_key h)
        (d\<lparr>sd_reserved := i64 (sd_reserved d - sh_reserved h),
           sd_committed := i64 (sd_committed d + speech_price p u)\<rparr>) (sl_daily L),
        sl_reservations := AList.delete (sr_ID r) (sl_reservations L)\<rparr>))"
    using r hold d within price speech_hold_covered [OF wf inv hold d] p(1)
    by (simp add: speech_Settle_def)
  show "0 \<le> speech_price p u" and "speech_price p u \<le> sh_reserved h" by (rule price)+
qed

text \<open>A closed reservation stays closed to all three.\<close>

lemma speech_closed_lost:
  assumes "map_of (sl_reservations L) (sr_ID r) = None" and "speech_validReservation r"
  shows "speech_Settle L CtxLive r u \<in> {(Inl ReservationLost, L), (Inl BudgetInvalid, L)}"
    and "speech_MarkUncertain L CtxLive r = (Inl ReservationLost, L)"
    and "speech_Release L CtxLive r = (Inl ReservationLost, L)"
  using assms by (simp_all add: speech_Settle_def speech_MarkUncertain_def speech_Release_def)

text \<open>A closed reservation stays closed.\<close>

lemma speech_reconcileExpired_closed:
  assumes "map_of (sl_reservations L) i = None"
  shows "map_of (sl_reservations (speech_reconcileExpired L now)) i = None"
proof -
  have one: "map_of (sl_reservations (speech_reconcile_one now e M)) i = None" if "map_of (sl_reservations M) i = None" for e M
    using that by (cases e) (auto simp: speech_reconcile_one_def Let_def simp del: map_of_eq_None_iff split: option.splits)
  have "map_of (sl_reservations (fold (speech_reconcile_one now) es M)) i = None" if "map_of (sl_reservations M) i = None" for es M
    using that by (induction es arbitrary: M) (simp_all add: one del: map_of_eq_None_iff)
  with assms show ?thesis by (simp add: speech_reconcileExpired_def del: map_of_eq_None_iff)
qed

lemma speech_Reserve_issues:
  assumes "map_of (sl_reservations L) i = None" and "speech_Reserve L ctx subject limit now = (res, L')"
  shows "map_of (sl_reservations L') i = None \<or> (\<exists>r. res = Inr r \<and> sr_ID r = i)"
  using assms speech_reconcileExpired_closed [OF assms(1), of now] unfolding speech_Reserve_def
  by (auto simp: Let_def simp del: map_of_eq_None_iff split: if_splits sum.splits option.splits)

lemma speech_later_closed:
  assumes "speech_later i L L'" and "map_of (sl_reservations L) i = None"
  shows "map_of (sl_reservations L') i = None"
  using assms
proof cases
  case (reserve ctx subject limit now)
  then show ?thesis using speech_Reserve_issues [OF assms(2) prod.collapse [symmetric]] by metis
next
  case (settle ctx r u)
  show ?thesis
    using assms(2) unfolding settle speech_Settle_def
    by (auto simp: Let_def simp del: map_of_eq_None_iff split: if_splits sum.splits option.splits)
next
  case (markUncertain ctx r)
  show ?thesis
    using assms(2) unfolding markUncertain speech_MarkUncertain_def
    by (auto simp: Let_def simp del: map_of_eq_None_iff split: if_splits sum.splits option.splits)
next
  case (release ctx r)
  show ?thesis
    using assms(2) unfolding release speech_Release_def
    by (auto simp: Let_def simp del: map_of_eq_None_iff split: if_splits sum.splits option.splits)
qed

lemma speech_later_lost:
  assumes "(speech_later (sr_ID r))\<^sup>*\<^sup>* L L'" and "map_of (sl_reservations L) (sr_ID r) = None" and "speech_validReservation r"
  shows "speech_Settle L' CtxLive r u \<in> {(Inl ReservationLost, L'), (Inl BudgetInvalid, L')}"
    and "speech_MarkUncertain L' CtxLive r = (Inl ReservationLost, L')"
    and "speech_Release L' CtxLive r = (Inl ReservationLost, L')"
proof -
  have "map_of (sl_reservations L') (sr_ID r) = None"
    using assms(1,2) by (induction rule: rtranclp_induct) (blast intro: speech_later_closed)+
  note lost = speech_closed_lost [OF this assms(3)]
  show "speech_Settle L' CtxLive r u \<in> {(Inl ReservationLost, L'), (Inl BudgetInvalid, L')}"
    "speech_MarkUncertain L' CtxLive r = (Inl ReservationLost, L')" "speech_Release L' CtxLive r = (Inl ReservationLost, L')"
    by (rule lost)+
qed

lemma speech_Settle_sim:
  assumes wf: "speech_wf p L" and inv: "ledger_inv (sp_DailyBudgetMicrousd p) (speech_view L)"
    and L': "L' = snd (speech_Settle L ctx r u)"
  shows "speech_wf p L' \<and> ledger_steps (sp_DailyBudgetMicrousd p) (speech_view L) (speech_view L')"
proof (cases "map_of (sl_reservations L) (sr_ID r)")
  case None
  then have "L' = L" by (simp add: L' speech_Settle_def)
  then show ?thesis using wf by simp
next
  case (Some h)
  obtain d where d: "map_of (sl_daily L) (speech_daily_key h) = Some d"
    by (rule speech_open_daily [OF wf inv Some])
  show ?thesis
  proof (cases "ctx = CtxLive \<and> speech_validReservation r \<and> usageWithin u (sh_limit h)")
    case True
    then have r: "speech_validReservation r" and u: "usageWithin u (sh_limit h)" and ctx: "ctx = CtxLive"
      by simp_all
    note settle = speech_Settle_open [OF wf inv r Some d u]
    show ?thesis
      unfolding L' ctx settle(1) using wf speech_wf_close [OF wf] settle(2,3)
      by (auto intro!: r_into_rtranclp speech_settle_step [OF wf inv Some d])
  next
    case False
    then have "L' = L" using Some by (auto simp: L' speech_Settle_def)
    then show ?thesis using wf by simp
  qed
qed

lemma speech_MarkUncertain_sim:
  assumes wf: "speech_wf p L" and inv: "ledger_inv (sp_DailyBudgetMicrousd p) (speech_view L)"
    and L': "L' = snd (speech_MarkUncertain L ctx r)"
  shows "speech_wf p L' \<and> ledger_steps (sp_DailyBudgetMicrousd p) (speech_view L) (speech_view L')"
proof (cases "ctx = CtxLive \<and> speech_validReservation r \<and> (\<exists>h. map_of (sl_reservations L) (sr_ID r) = Some h)")
  case True
  then obtain h where r: "speech_validReservation r" and h: "map_of (sl_reservations L) (sr_ID r) = Some h"
    and ctx: "ctx = CtxLive" by auto
  obtain d where d: "map_of (sl_daily L) (speech_daily_key h) = Some d"
    by (rule speech_open_daily [OF wf inv h])
  show ?thesis
    unfolding L' ctx speech_MarkUncertain_open [OF wf inv r h d] snd_conv
    using speech_wf_close [OF wf] speech_uncertain_step [OF wf inv h d] by (auto intro: r_into_rtranclp)
next
  case False
  then have "L' = L" by (auto simp: L' speech_MarkUncertain_def split: option.splits)
  then show ?thesis using wf by simp
qed

lemma speech_Release_sim:
  assumes wf: "speech_wf p L" and inv: "ledger_inv (sp_DailyBudgetMicrousd p) (speech_view L)"
    and L': "L' = snd (speech_Release L ctx r)"
  shows "speech_wf p L' \<and> ledger_steps (sp_DailyBudgetMicrousd p) (speech_view L) (speech_view L')"
proof (cases "ctx = CtxLive \<and> speech_validReservation r \<and> (\<exists>h. map_of (sl_reservations L) (sr_ID r) = Some h)")
  case True
  then obtain h where r: "speech_validReservation r" and h: "map_of (sl_reservations L) (sr_ID r) = Some h"
    and ctx: "ctx = CtxLive" by auto
  obtain d where d: "map_of (sl_daily L) (speech_daily_key h) = Some d"
    by (rule speech_open_daily [OF wf inv h])
  show ?thesis
    unfolding L' ctx speech_Release_open [OF wf inv r h d] snd_conv
    using speech_wf_close [OF wf] speech_release_step [OF wf inv h d] by (auto intro: r_into_rtranclp)
next
  case False
  then have "L' = L" by (auto simp: L' speech_Release_def split: option.splits)
  then show ?thesis using wf by simp
qed

lemma speech_step_sim:
  assumes "speech_step L L'" and "speech_wf p L" and "ledger_inv (sp_DailyBudgetMicrousd p) (speech_view L)"
  shows "speech_wf p L' \<and> ledger_steps (sp_DailyBudgetMicrousd p) (speech_view L) (speech_view L')"
  using assms(1)
proof cases
  case reserve
  with assms show ?thesis by (intro speech_Reserve_sim)
next
  case settle
  with assms show ?thesis by (intro speech_Settle_sim)
next
  case markUncertain
  with assms show ?thesis by (intro speech_MarkUncertain_sim)
next
  case release
  with assms show ?thesis by (intro speech_Release_sim)
qed

lemma speech_init_ok:
  assumes "speech_init p L"
  shows "speech_wf p L" and "ledger_inv (sp_DailyBudgetMicrousd p) (speech_view L)"
proof -
  have L: "sl_pricing L = p" "speech_Pricing_Validate p = None" "sl_daily L = []" "sl_reservations L = []"
    using assms by (auto simp: speech_init_def speech_NewMemoryLedger_def split: if_splits)
  then show "speech_wf p L" by (simp add: speech_wf_def)
  show "ledger_inv (sp_DailyBudgetMicrousd p) (speech_view L)"
    using L speech_budget_bound [OF L(2)]
    by (intro ledger_invI) (simp_all add: speech_view_def speech_account_def lv_spent_def map_values_def)
qed

interpretation sb: budget_ledger "sp_DailyBudgetMicrousd p" speech_view "speech_wf p" "speech_init p" speech_step for p
  by unfold_locales (auto dest: speech_init_ok speech_step_sim)

lemma speech_reachable_account:
  assumes "speech_NewMemoryLedger p key random = Inr L0" and "speech_step\<^sup>*\<^sup>* L0 L"
  shows "0 \<le> speech_account sd_committed L k" and "0 \<le> speech_account sd_uncertain L k"
    and "speech_account sd_reserved L k =
      (\<Sum>(i, h) \<leftarrow> sl_reservations L. if speech_daily_key h = k then sh_reserved h else 0)"
    and "speech_account sd_committed L k + speech_account sd_uncertain L k +
      speech_account sd_reserved L k \<le> sp_DailyBudgetMicrousd p"
    and "0 \<le> speech_account sd_reserved L k"
proof -
  have init: "speech_init p L0" using assms(1) by (auto simp: speech_init_def)
  note bounds = sb.reachable_bounds [OF init assms(2), of k]
  have "held (lv_holds (speech_view L)) k =
      (\<Sum>(i, h) \<leftarrow> sl_reservations L. if speech_daily_key h = k then sh_reserved h else 0)"
    by (simp add: held_def speech_view_def map_values_def comp_def case_prod_unfold cong: if_cong)
  then show "0 \<le> speech_account sd_committed L k" and "0 \<le> speech_account sd_uncertain L k"
    and "speech_account sd_reserved L k =
      (\<Sum>(i, h) \<leftarrow> sl_reservations L. if speech_daily_key h = k then sh_reserved h else 0)"
    and "speech_account sd_committed L k + speech_account sd_uncertain L k +
      speech_account sd_reserved L k \<le> sp_DailyBudgetMicrousd p"
    and "0 \<le> speech_account sd_reserved L k"
    using bounds by (simp_all add: speech_view_def lv_spent_def)
qed

section \<open>Properties\<close>

text \<open>C31. From a new speech ledger, after any sequence of operations with arbitrary arguments, clock
  readings and random-source failures, every account has non-negative totals, its reserved total is
  exactly the sum of its open reservations, and committed + uncertain + reserved never exceeds the
  daily budget.\<close>

theorem speech_never_overspends:
  assumes "speech_NewMemoryLedger p key random = Inr L0" and "speech_step\<^sup>*\<^sup>* L0 L"
    and "map_of (sl_daily L) k = Some d"
  shows "0 \<le> sd_committed d \<and> 0 \<le> sd_uncertain d \<and> 0 \<le> sd_reserved d \<and>
    sd_reserved d = (\<Sum>(i, h) \<leftarrow> sl_reservations L. if speech_daily_key h = k then sh_reserved h else 0) \<and>
    sd_committed d + sd_uncertain d + sd_reserved d \<le> sp_DailyBudgetMicrousd p"
  using speech_reachable_account [OF assms(1,2), of k] assms(3) by simp

lemma speech_example_valid: "speech_Pricing_Validate speech_example_pricing = None"
  by code_simp

lemma speech_example_new:
  "speech_NewMemoryLedger speech_example_pricing (replicate 32 7) (replicate 16 1 @ replicate 16 2) =
    Inr speech_example_ledger"
  by (simp add: speech_NewMemoryLedger_def speech_example_ledger_def speech_example_valid)

lemma speech_example_Reserve:
  "speech_Reserve speech_example_ledger CtxLive ''user-1'' (TTSUsage 20 5000) 0 =
    (Inr \<lparr>sr_ID = replicate 16 1, sr_Limit = TTSUsage 20 5000, sr_ReservedMicrousd = 150000\<rparr>,
     speech_example_ledger\<lparr>sl_random := replicate 16 2,
       sl_daily := [(speech_example_key, speech_daily_zero\<lparr>sd_reserved := 150000\<rparr>)],
       sl_reservations := [(replicate 16 1, \<lparr>sh_day = format_day 0,
         sh_subject = speech_subjectKey speech_example_ledger ''user-1'', sh_profile = ''speech-1'',
         sh_limit = TTSUsage 20 5000, sh_reserved = 150000, sh_expiresAt = 60 * second\<rparr>)]\<rparr>)"
proof -
  have cost: "speech_usageCost speech_example_pricing (TTSUsage 20 5000) = Inr 150000"
      "speech_Usage_Validate (TTSUsage 20 5000) = None"
    by code_simp+
  have "speech_reconcileExpired speech_example_ledger 0 = speech_example_ledger"
    by (simp add: speech_reconcileExpired_def speech_example_ledger_def)
  moreover have "sl_pricing speech_example_ledger = speech_example_pricing" "sl_daily speech_example_ledger = []"
      "sl_reservations speech_example_ledger = []" "sl_random speech_example_ledger = replicate 16 1 @ replicate 16 2"
    by (simp_all add: speech_example_ledger_def)
  moreover have "sp_ProfileID speech_example_pricing = ''speech-1''"
      "sp_DailyBudgetMicrousd speech_example_pricing = 1000000" "sp_ReservationTTL speech_example_pricing = 60 * second"
    by (simp_all add: speech_example_pricing_def)
  ultimately show ?thesis
    by (simp add: speech_Reserve_def cost Let_def read_full_def speech_example_key_def
        speech_daily_zero_def i64_id)
qed

lemma speech_example_run: "speech_step\<^sup>*\<^sup>* speech_example_ledger speech_example_reserved"
  unfolding speech_example_reserved_def by (intro r_into_rtranclp speech_step.reserve)

theorem speech_never_overspends_witness:
  "map_of (sl_daily speech_example_reserved) speech_example_key = Some (speech_daily_zero\<lparr>sd_reserved := 150000\<rparr>) \<and>
   (\<Sum>(i, h) \<leftarrow> sl_reservations speech_example_reserved. if speech_daily_key h = speech_example_key then sh_reserved h else 0)
     = 150000"
proof -
  have d: "map_of (sl_daily speech_example_reserved) speech_example_key = Some (speech_daily_zero\<lparr>sd_reserved := 150000\<rparr>)"
    by (simp add: speech_example_reserved_def speech_example_Reserve)
  show ?thesis
    using speech_never_overspends [OF speech_example_new speech_example_run d] d by simp
qed

text \<open>C32. In every reachable speech ledger, settling an open reservation with usage within its limit
  charges exactly the price of the usage, each component rounded up, which is at most the amount
  reserved; it moves the account's committed and reserved totals by exactly these amounts and no other total, and
  closes this reservation and no other. After any sequence of later calls in which \<^verbatim>\<open>Reserve\<close> does not draw the same
  random ID again, a \<^verbatim>\<open>Settle\<close>, \<^verbatim>\<open>MarkUncertain\<close> or \<^verbatim>\<open>Release\<close> of the reservation is refused and changes nothing. The
  one exception is usage that costs nothing, which is refused with \<^verbatim>\<open>ErrUsageExceeded\<close> and leaves the reservation
  open.\<close>

theorem speech_Settle_exact_once:
  assumes "speech_NewMemoryLedger p key random = Inr L0" and "speech_step\<^sup>*\<^sup>* L0 L"
    and "speech_validReservation r" and "map_of (sl_reservations L) (sr_ID r) = Some h"
    and "usageWithin u (sh_limit h)"
  shows "if speech_price p u = 0 then speech_Settle L CtxLive r u = (Inl UsageExceeded, L)
    else \<exists>L'. speech_Settle L CtxLive r u = (Inr (speech_price p u), L') \<and>
      speech_price p u \<le> sh_reserved h \<and>
      (\<forall>k. speech_account sd_committed L' k =
        speech_account sd_committed L k + (if k = speech_daily_key h then speech_price p u else 0)) \<and>
      (\<forall>k. speech_account sd_reserved L' k =
        speech_account sd_reserved L k - (if k = speech_daily_key h then sh_reserved h else 0)) \<and>
      (\<forall>k. speech_account sd_uncertain L' k = speech_account sd_uncertain L k) \<and>
      sl_reservations L' = AList.delete (sr_ID r) (sl_reservations L) \<and>
      (\<forall>L''. (speech_later (sr_ID r))\<^sup>*\<^sup>* L' L'' \<longrightarrow>
        (\<forall>u'. speech_Settle L'' CtxLive r u' \<in> {(Inl ReservationLost, L''), (Inl BudgetInvalid, L'')}) \<and>
        speech_MarkUncertain L'' CtxLive r = (Inl ReservationLost, L'') \<and>
        speech_Release L'' CtxLive r = (Inl ReservationLost, L''))"
proof -
  have "speech_init p L0" using assms(1) by (auto simp: speech_init_def)
  then have inv: "speech_wf p L" "ledger_inv (sp_DailyBudgetMicrousd p) (speech_view L)"
    using sb.reachable_inv assms(2) by blast+
  obtain d where d: "map_of (sl_daily L) (speech_daily_key h) = Some d"
    "0 < sh_reserved h" "sh_reserved h \<le> sd_reserved d"
    "0 \<le> sd_committed d" "0 \<le> sd_uncertain d"
    "sd_committed d + sd_uncertain d + sd_reserved d \<le> 1000000000000000"
    by (rule speech_open_daily [OF inv assms(4)])
  note settle = speech_Settle_open [OF inv assms(3,4) d(1) assms(5)]
  show ?thesis
  proof (cases "speech_price p u = 0")
    case True
    then show ?thesis using settle(1) by simp
  next
    case False
    define L' where "L' = snd (speech_Settle L CtxLive r u)"
    have eq: "speech_Settle L CtxLive r u = (Inr (speech_price p u), L')"
      using settle False by (simp add: L'_def)
    have closed: "sl_reservations L' = AList.delete (sr_ID r) (sl_reservations L)"
      using settle False by (simp add: L'_def)
    then have "map_of (sl_reservations L') (sr_ID r) = None" by simp
    note lost = speech_later_lost [OF _ this assms(3)]
    have "speech_account sd_committed L' k =
        speech_account sd_committed L k + (if k = speech_daily_key h then speech_price p u else 0)"
      and "speech_account sd_reserved L' k =
        speech_account sd_reserved L k - (if k = speech_daily_key h then sh_reserved h else 0)"
      and "speech_account sd_uncertain L' k = speech_account sd_uncertain L k" for k
      using d settle False by (simp_all add: L'_def speech_account_def i64_id)
    with eq closed settle(3) show ?thesis
      unfolding if_not_P [OF False] by (intro exI conjI allI impI) (assumption | rule lost)+
  qed
qed

theorem speech_Settle_exact_once_witness:
  "(\<exists>L'. speech_Settle speech_example_reserved CtxLive
      \<lparr>sr_ID = replicate 16 1, sr_Limit = TTSUsage 20 5000, sr_ReservedMicrousd = 150000\<rparr> (TTSUsage 20 4000)
      = (Inr 120000, L') \<and> speech_account sd_committed L' speech_example_key = 120000) \<and>
   speech_Settle speech_example_reserved CtxLive
      \<lparr>sr_ID = replicate 16 1, sr_Limit = TTSUsage 20 5000, sr_ReservedMicrousd = 150000\<rparr> (TTSUsage 20 0)
      = (Inl UsageExceeded, speech_example_reserved)"
proof -
  let ?r = "\<lparr>sr_ID = replicate 16 1, sr_Limit = TTSUsage 20 5000, sr_ReservedMicrousd = 150000\<rparr>"
  have valid: "speech_validReservation ?r" "usageWithin (TTSUsage 20 4000) (TTSUsage 20 5000)"
      "usageWithin (TTSUsage 20 0) (TTSUsage 20 5000)"
    by code_simp+
  have price: "speech_price speech_example_pricing (TTSUsage 20 4000) = 120000"
      "speech_price speech_example_pricing (TTSUsage 20 0) = 0"
    by code_simp+
  obtain h where hold: "map_of (sl_reservations speech_example_reserved) (sr_ID ?r) = Some h"
      and h: "sh_limit h = TTSUsage 20 5000" "speech_daily_key h = speech_example_key"
    by (simp add: speech_example_reserved_def speech_example_Reserve speech_daily_key_def speech_example_key_def)
  have zero: "speech_account sd_committed speech_example_reserved speech_example_key = 0"
    by (simp add: speech_example_reserved_def speech_example_Reserve speech_account_def speech_daily_zero_def)
  note settle = speech_Settle_exact_once [OF speech_example_new speech_example_run valid(1) hold, unfolded h]
  show ?thesis
    using settle [OF valid(2)] settle [OF valid(3)] zero by (auto simp: price)
qed

end
