(* ===== verification/DeviceClaim.thy ===== *)
theory DeviceClaim
  imports GoTime Encoding Sha256
begin

text \<open>
  \<^verbatim>\<open>internal/deviceclaim/store.go\<close>: pairing a device with a user. An app announces a claim code for a
  device (\<^verbatim>\<open>Begin\<close>), the device presents the same code (\<^verbatim>\<open>Confirm\<close>) and becomes owned, and the owner
  can give it up (\<^verbatim>\<open>Release\<close>). The theory models the single-process reference store with all its
  operations, on non-nil receivers; the records the maps point to are updated in place. Clock
  readings are arguments, as in the source, and the random source is the list of bytes it will
  deliver.
\<close>

section \<open>Definitions\<close>

datatype claim_error =
    ClaimInvalid | ClaimReplay | ClaimCapacity | ClaimConflict | ClaimNotFound | ClaimExpired
  | ClaimUnauthorized | ClaimRandom

datatype claim_status = StatusPending | StatusBound | StatusExpired

record claim_record =
  cr_RequestID :: string
  cr_DeviceID :: string
  cr_Status :: claim_status
  cr_ExpiresAt :: wall_time

record ownership =
  ow_OwnerID :: string
  ow_TenantID :: string
  ow_BindingID :: string
  ow_BindingRevision :: "64 word"

definition ownership_zero :: ownership where
  "ownership_zero = \<lparr>ow_OwnerID = [], ow_TenantID = [], ow_BindingID = [], ow_BindingRevision = 0\<rparr>"

definition ownership_Matches :: "ownership \<Rightarrow> string \<Rightarrow> string \<Rightarrow> string \<Rightarrow> 64 word \<Rightarrow> bool" where
  "ownership_Matches o' ownerID tenantID bindingID bindingRevision \<longleftrightarrow>
     ow_OwnerID o' = ownerID \<and> ow_TenantID o' = tenantID \<and>
     ow_BindingID o' = bindingID \<and> ow_BindingRevision o' = bindingRevision \<and>
     ValidBindingID bindingID \<and> ValidBindingRevision bindingRevision"

record claim_stored =
  cs_requestID :: string
  cs_userID :: string
  cs_tenantID :: string
  cs_deviceID :: string
  cs_digest :: "byte list"
  cs_status :: claim_status
  cs_expiresAt :: wall_time

record ownership_entry =
  oe_Ownership :: ownership
  oe_active :: bool

record claim_store =
  cl_ttl :: duration
  cl_maxRecords :: int
  cl_random :: "byte list"
  cl_records :: "(string, claim_stored) gomap"
  cl_byDigest :: "(byte list, string) gomap"
  cl_owners :: "(string, ownership_entry) gomap"
  cl_appNonces :: "(string, wall_time) gomap"

definition claim_newStore :: "duration \<Rightarrow> int \<Rightarrow> byte list \<Rightarrow> claim_store option" where
  "claim_newStore ttl maxRecords random =
     (if ttl < minute \<or> ttl > 10 * minute \<or> maxRecords < 1 \<or> maxRecords > 100000 then None
      else Some \<lparr>cl_ttl = ttl, cl_maxRecords = maxRecords, cl_random = random, cl_records = [],
                 cl_byDigest = [], cl_owners = [], cl_appNonces = []\<rparr>)"

definition ValidClaimCode :: "string \<Rightarrow> bool" where "ValidClaimCode value = canonical_bytes value 32"
definition ValidAppNonce :: "string \<Rightarrow> bool" where "ValidAppNonce value = canonical_bytes value 16"
definition ValidRequestID :: "string \<Rightarrow> bool" where "ValidRequestID value = canonical_bytes value 16"

definition claimDigest :: "string \<Rightarrow> byte list" where
  "claimDigest code = sha256 (bytes_of (''xiaozhi-device-claim-code-v1'' @ [CHR 0x0A] @ code))"

definition claim_nonceKey :: "string \<Rightarrow> string \<Rightarrow> string \<Rightarrow> string" where
  "claim_nonceKey tenantID userID appNonce = tenantID @ [CHR 0x00] @ userID @ [CHR 0x00] @ appNonce"

text \<open>\<^verbatim>\<open>newCanonicalID\<close>: at most four draws, counted down by the first argument; a failed read ends
  the reader.\<close>

fun claim_newCanonicalID :: "nat \<Rightarrow> nat \<Rightarrow> (string \<Rightarrow> bool) \<Rightarrow> byte list \<Rightarrow> (claim_error + string) \<times> byte list" where
  "claim_newCanonicalID 0 n taken random = (Inl ClaimCapacity, random)"
| "claim_newCanonicalID (Suc attempts) n taken random =
     (case read_full n random of
        None \<Rightarrow> (Inl ClaimRandom, [])
      | Some (raw, random') \<Rightarrow>
          if \<not> taken (b64_encode raw) then (Inr (b64_encode raw), random')
          else claim_newCanonicalID attempts n taken random')"

definition claim_activeRecords :: "claim_store \<Rightarrow> wall_time \<Rightarrow> int" where
  "claim_activeRecords S now = int (length (filter (\<lambda>(_, r). cs_expiresAt r > now) (cl_records S)))"

text \<open>\<^verbatim>\<open>cleanup\<close>: the loop over the nonces, then the loop over the records, one iteration of which is
  \<open>claim_cleanup_one\<close>.\<close>

definition claim_cleanup_one :: "wall_time \<Rightarrow> string \<times> claim_stored \<Rightarrow> claim_store \<Rightarrow> claim_store" where
  "claim_cleanup_one now e S =
     (case e of (requestID, r) \<Rightarrow>
        let S1 = (if \<not> cs_expiresAt r > now then
              (let S' = (if map_of (cl_byDigest S) (cs_digest r) = Some requestID
                    then S\<lparr>cl_byDigest := AList.delete (cs_digest r) (cl_byDigest S)\<rparr> else S)
               in S'\<lparr>cl_records := AList.update requestID (r\<lparr>cs_status := StatusExpired\<rparr>) (cl_records S')\<rparr>)
            else S)
        in if \<not> cs_expiresAt r + cl_ttl S > now
           then S1\<lparr>cl_records := AList.delete requestID (cl_records S1)\<rparr> else S1)"

definition claim_cleanup :: "claim_store \<Rightarrow> wall_time \<Rightarrow> claim_store" where
  "claim_cleanup S now =
     (let S1 = S\<lparr>cl_appNonces := fold (\<lambda>(nonce, expires) m.
            if \<not> expires > now then AList.delete nonce m else m) (cl_appNonces S) (cl_appNonces S)\<rparr>
      in fold (claim_cleanup_one now) (cl_records S1) S1)"

definition claim_publicRecord :: "claim_stored \<Rightarrow> wall_time \<Rightarrow> claim_record" where
  "claim_publicRecord r now =
     (let status = (if \<not> cs_expiresAt r > now then StatusExpired else cs_status r)
      in \<lparr>cr_RequestID = cs_requestID r, cr_DeviceID = cs_deviceID r, cr_Status = status,
          cr_ExpiresAt = cs_expiresAt r\<rparr>)"

text \<open>\<^verbatim>\<open>exists && owner.active && (owner.OwnerID != userID || owner.TenantID != tenantID)\<close>.\<close>

definition claim_owned_by_other :: "claim_store \<Rightarrow> string \<Rightarrow> string \<Rightarrow> string \<Rightarrow> bool" where
  "claim_owned_by_other S deviceID userID tenantID =
     (case map_of (cl_owners S) deviceID of
        None \<Rightarrow> False
      | Some owner \<Rightarrow> oe_active owner \<and>
          (ow_OwnerID (oe_Ownership owner) \<noteq> userID \<or> ow_TenantID (oe_Ownership owner) \<noteq> tenantID))"

definition claim_Begin ::
  "claim_store \<Rightarrow> string \<Rightarrow> string \<Rightarrow> string \<Rightarrow> string \<Rightarrow> string \<Rightarrow> wall_time \<Rightarrow>
   (claim_error + claim_record) \<times> claim_store" where
  "claim_Begin S userID tenantID deviceID code appNonce now =
     (if \<not> ValidIdentifier userID 128 \<or> \<not> ValidIdentifier tenantID 128 \<or>
         \<not> ValidIdentifier deviceID 64 \<or> \<not> ValidClaimCode code \<or> \<not> ValidAppNonce appNonce \<or> now = 0
      then (Inl ClaimInvalid, S)
      else
        let digest = claimDigest code;
            nonceKey = claim_nonceKey tenantID userID appNonce;
            S1 = claim_cleanup S now
        in
        if (case map_of (cl_appNonces S1) nonceKey of None \<Rightarrow> False | Some expires \<Rightarrow> expires > now)
        then (Inl ClaimReplay, S1)
        else if int (length (cl_appNonces S1)) \<ge> cl_maxRecords S1 * 4 then (Inl ClaimCapacity, S1)
        else
          let S2 = S1\<lparr>cl_appNonces := AList.update nonceKey (now + cl_ttl S1) (cl_appNonces S1)\<rparr> in
          case map_of (cl_byDigest S2) digest of
            Some requestID \<Rightarrow>
              (case map_of (cl_records S2) requestID of
                 None \<Rightarrow> (Inl ClaimConflict, S2)
               | Some existing \<Rightarrow>
                   if cs_userID existing \<noteq> userID \<or> cs_tenantID existing \<noteq> tenantID \<or>
                      cs_deviceID existing \<noteq> deviceID \<or> \<not> cs_expiresAt existing > now
                   then (Inl ClaimConflict, S2)
                   else (Inr (claim_publicRecord existing now), S2))
          | None \<Rightarrow>
              if claim_owned_by_other S2 deviceID userID tenantID then (Inl ClaimConflict, S2)
              else if claim_activeRecords S2 now \<ge> cl_maxRecords S2 then (Inl ClaimCapacity, S2)
              else (case claim_newCanonicalID 4 16 (\<lambda>c. map_of (cl_records S2) c \<noteq> None) (cl_random S2) of
                  (Inl e, random) \<Rightarrow> (Inl e, S2\<lparr>cl_random := random\<rparr>)
                | (Inr requestID, random) \<Rightarrow>
                    let record = \<lparr>cs_requestID = requestID, cs_userID = userID, cs_tenantID = tenantID,
                          cs_deviceID = deviceID, cs_digest = digest, cs_status = StatusPending,
                          cs_expiresAt = now + cl_ttl S2\<rparr>
                    in (Inr (claim_publicRecord record now),
                        S2\<lparr>cl_random := random,
                           cl_records := AList.update requestID record (cl_records S2),
                           cl_byDigest := AList.update digest requestID (cl_byDigest S2)\<rparr>)))"

text \<open>The binding step of \<^verbatim>\<open>Confirm\<close>: a new binding ID and revision for a device with no active owner.\<close>

definition claim_bind :: "claim_store \<Rightarrow> string \<Rightarrow> claim_stored \<Rightarrow> (claim_error + unit) \<times> claim_store" where
  "claim_bind S deviceID record =
     (case claim_newCanonicalID 4 16
         (\<lambda>c. list_ex (\<lambda>(_, owner). ow_BindingID (oe_Ownership owner) = c) (cl_owners S)) (cl_random S) of
        (Inl e, random) \<Rightarrow> (Inl e, S\<lparr>cl_random := random\<rparr>)
      | (Inr bindingID, random) \<Rightarrow>
          let S1 = S\<lparr>cl_random := random\<rparr> in
          case map_of (cl_owners S1) deviceID of
            Some owner \<Rightarrow>
              if ow_BindingRevision (oe_Ownership owner) \<ge> MaximumBindingRevision then (Inl ClaimConflict, S1)
              else (Inr (), S1\<lparr>cl_owners := AList.update deviceID
                 \<lparr>oe_Ownership = \<lparr>ow_OwnerID = cs_userID record, ow_TenantID = cs_tenantID record,
                     ow_BindingID = bindingID,
                     ow_BindingRevision = ow_BindingRevision (oe_Ownership owner) + 1\<rparr>,
                  oe_active = True\<rparr> (cl_owners S1)\<rparr>)
          | None \<Rightarrow>
              (Inr (), S1\<lparr>cl_owners := AList.update deviceID
                 \<lparr>oe_Ownership = \<lparr>ow_OwnerID = cs_userID record, ow_TenantID = cs_tenantID record,
                     ow_BindingID = bindingID, ow_BindingRevision = 1\<rparr>,
                  oe_active = True\<rparr> (cl_owners S1)\<rparr>))"

definition claim_Confirm ::
  "claim_store \<Rightarrow> string \<Rightarrow> string \<Rightarrow> wall_time \<Rightarrow> (claim_error + claim_record) \<times> claim_store" where
  "claim_Confirm S deviceID code now =
     (if \<not> ValidIdentifier deviceID 64 \<or> \<not> ValidClaimCode code \<or> now = 0 then (Inl ClaimInvalid, S)
      else
        let digest = claimDigest code;
            S1 = claim_cleanup S now
        in case map_of (cl_byDigest S1) digest of
          None \<Rightarrow> (Inl ClaimNotFound, S1)
        | Some requestID \<Rightarrow>
          (case map_of (cl_records S1) requestID of
             None \<Rightarrow> (Inl ClaimConflict, S1)
           | Some record \<Rightarrow>
             if cs_deviceID record \<noteq> deviceID then (Inl ClaimConflict, S1)
             else if \<not> cs_expiresAt record > now then (Inl ClaimExpired, S1)
             else if claim_owned_by_other S1 deviceID (cs_userID record) (cs_tenantID record)
             then (Inl ClaimConflict, S1)
             else
               let bound = (\<lambda>T. let record' = record\<lparr>cs_status := StatusBound\<rparr> in
                     (Inr (claim_publicRecord record' now),
                      T\<lparr>cl_records := AList.update requestID record' (cl_records T)\<rparr>))
               in case map_of (cl_owners S1) deviceID of
                 Some owner \<Rightarrow>
                   if oe_active owner then bound S1
                   else (case claim_bind S1 deviceID record of
                       (Inl e, T) \<Rightarrow> (Inl e, T) | (Inr _, T) \<Rightarrow> bound T)
               | None \<Rightarrow>
                   (case claim_bind S1 deviceID record of
                       (Inl e, T) \<Rightarrow> (Inl e, T) | (Inr _, T) \<Rightarrow> bound T)))"

definition claim_Lookup ::
  "claim_store \<Rightarrow> string \<Rightarrow> string \<Rightarrow> string \<Rightarrow> wall_time \<Rightarrow> (claim_error + claim_record) \<times> claim_store" where
  "claim_Lookup S userID tenantID requestID now =
     (if \<not> ValidIdentifier userID 128 \<or> \<not> ValidIdentifier tenantID 128 \<or>
         \<not> ValidRequestID requestID \<or> now = 0
      then (Inl ClaimInvalid, S)
      else
        let S1 = claim_cleanup S now in
        case map_of (cl_records S1) requestID of
          None \<Rightarrow> (Inl ClaimNotFound, S1)
        | Some record \<Rightarrow>
            if cs_userID record \<noteq> userID \<or> cs_tenantID record \<noteq> tenantID then (Inl ClaimUnauthorized, S1)
            else (Inr (claim_publicRecord record now), S1))"

text \<open>\<^verbatim>\<open>Owner\<close> returns the ownership and whether there is an active one.\<close>

definition claim_Owner :: "claim_store \<Rightarrow> string \<Rightarrow> claim_error + (ownership \<times> bool)" where
  "claim_Owner S deviceID =
     (if \<not> ValidIdentifier deviceID 64 then Inl ClaimInvalid
      else case map_of (cl_owners S) deviceID of
        None \<Rightarrow> Inr (ownership_zero, False)
      | Some owner \<Rightarrow>
          if \<not> oe_active owner then Inr (ownership_zero, False) else Inr (oe_Ownership owner, True))"

fun claim_Owners_loop ::
  "claim_store \<Rightarrow> string list \<Rightarrow> string list \<Rightarrow> (string, ownership) gomap \<Rightarrow> claim_error + (string, ownership) gomap" where
  "claim_Owners_loop S seen [] owners = Inr owners"
| "claim_Owners_loop S seen (deviceID # rest) owners =
     (if \<not> ValidIdentifier deviceID 64 then Inl ClaimInvalid
      else if deviceID \<in> set seen then Inl ClaimInvalid
      else claim_Owners_loop S (deviceID # seen) rest
        (case map_of (cl_owners S) deviceID of
           None \<Rightarrow> owners
         | Some entry \<Rightarrow> if oe_active entry then AList.update deviceID (oe_Ownership entry) owners else owners))"

definition claim_Owners :: "claim_store \<Rightarrow> string list \<Rightarrow> claim_error + (string, ownership) gomap" where
  "claim_Owners S deviceIDs =
     (if length deviceIDs > 1000 then Inl ClaimInvalid else claim_Owners_loop S [] deviceIDs [])"

definition claim_Release ::
  "claim_store \<Rightarrow> string \<Rightarrow> string \<Rightarrow> string \<Rightarrow> wall_time \<Rightarrow> (claim_error + ownership) \<times> claim_store" where
  "claim_Release S userID tenantID deviceID now =
     (if \<not> ValidIdentifier userID 128 \<or> \<not> ValidIdentifier tenantID 128 \<or>
         \<not> ValidIdentifier deviceID 64 \<or> now = 0
      then (Inl ClaimInvalid, S)
      else case map_of (cl_owners S) deviceID of
        None \<Rightarrow> (Inl ClaimNotFound, S)
      | Some entry \<Rightarrow>
          if ow_OwnerID (oe_Ownership entry) \<noteq> userID \<or> ow_TenantID (oe_Ownership entry) \<noteq> tenantID
          then (Inl ClaimUnauthorized, S)
          else if \<not> oe_active entry then (Inr (oe_Ownership entry), S)
          else if ow_BindingRevision (oe_Ownership entry) \<ge> MaximumBindingRevision then (Inl ClaimConflict, S)
          else
            let o' = (oe_Ownership entry)\<lparr>ow_BindingRevision := ow_BindingRevision (oe_Ownership entry) + 1\<rparr>
            in (Inr o', S\<lparr>cl_owners := AList.update deviceID \<lparr>oe_Ownership = o', oe_active = False\<rparr> (cl_owners S)\<rparr>))"

text \<open>One call on the store; the label is the clock reading it is given.\<close>

inductive claim_step :: "wall_time \<Rightarrow> claim_store \<Rightarrow> claim_store \<Rightarrow> bool" where
  begin_: "claim_step now S (snd (claim_Begin S userID tenantID deviceID code appNonce now))"
| confirm: "claim_step now S (snd (claim_Confirm S deviceID code now))"
| lookup: "claim_step now S (snd (claim_Lookup S userID tenantID requestID now))"
| release: "claim_step now S (snd (claim_Release S userID tenantID deviceID now))"

abbreviation claim_any_step :: "claim_store \<Rightarrow> claim_store \<Rightarrow> bool" where
  "claim_any_step S T \<equiv> \<exists>now. claim_step now S T"

definition claim_init :: "claim_store \<Rightarrow> bool" where
  "claim_init S \<longleftrightarrow> (\<exists>ttl maxRecords random. claim_newStore ttl maxRecords random = Some S)"

text \<open>The invariant: the digest index points to records that carry the digest, records are stored
  under their own request ID, owners hold valid and pairwise different binding IDs and valid
  revisions, and the nonce table respects its capacity.\<close>

definition claim_index_ok :: "(string, claim_stored) gomap \<Rightarrow> (byte list, string) gomap \<Rightarrow> bool" where
  "claim_index_ok records byDigest \<longleftrightarrow>
     (\<forall>digest requestID. map_of byDigest digest = Some requestID \<longrightarrow>
        (\<exists>r. map_of records requestID = Some r \<and> cs_digest r = digest))"

definition claim_ids_ok :: "(string, claim_stored) gomap \<Rightarrow> bool" where
  "claim_ids_ok records \<longleftrightarrow> (\<forall>requestID r. map_of records requestID = Some r \<longrightarrow> cs_requestID r = requestID)"

definition claim_owners_ok :: "(string, ownership_entry) gomap \<Rightarrow> bool" where
  "claim_owners_ok owners \<longleftrightarrow>
     (\<forall>deviceID e. map_of owners deviceID = Some e \<longrightarrow>
        ValidBindingID (ow_BindingID (oe_Ownership e)) \<and>
        ValidBindingRevision (ow_BindingRevision (oe_Ownership e))) \<and>
     (\<forall>d1 d2 e1 e2. map_of owners d1 = Some e1 \<longrightarrow> map_of owners d2 = Some e2 \<longrightarrow>
        ow_BindingID (oe_Ownership e1) = ow_BindingID (oe_Ownership e2) \<longrightarrow> d1 = d2)"

definition claim_wf :: "claim_store \<Rightarrow> bool" where
  "claim_wf S \<longleftrightarrow>
     minute \<le> cl_ttl S \<and> cl_ttl S \<le> 10 * minute \<and> 1 \<le> cl_maxRecords S \<and>
     wf_map (cl_records S) \<and> wf_map (cl_byDigest S) \<and> wf_map (cl_owners S) \<and> wf_map (cl_appNonces S) \<and>
     claim_index_ok (cl_records S) (cl_byDigest S) \<and> claim_ids_ok (cl_records S) \<and>
     claim_owners_ok (cl_owners S) \<and> int (length (cl_appNonces S)) \<le> cl_maxRecords S * 4"

subsection \<open>Example\<close>

definition claim_example_store :: claim_store where
  "claim_example_store = \<lparr>cl_ttl = minute, cl_maxRecords = 10, cl_random = replicate 16 1 @ replicate 16 2,
     cl_records = [], cl_byDigest = [], cl_owners = [], cl_appNonces = []\<rparr>"

definition claim_example_code :: string where "claim_example_code = b64_encode (replicate 32 5)"
definition claim_example_nonce :: string where "claim_example_nonce = b64_encode (replicate 16 6)"

definition claim_example_begun :: claim_store where
  "claim_example_begun = snd (claim_Begin claim_example_store ''alice'' ''home'' ''dev-1''
     claim_example_code claim_example_nonce second)"

definition claim_example_bound :: claim_store where
  "claim_example_bound = snd (claim_Confirm claim_example_begun ''dev-1'' claim_example_code (2 * second))"

definition claim_example_owner :: ownership where
  "claim_example_owner = \<lparr>ow_OwnerID = ''alice'', ow_TenantID = ''home'',
     ow_BindingID = b64_encode (replicate 16 2), ow_BindingRevision = 1\<rparr>"

section \<open>Lemmas\<close>

subsection \<open>Cleanup\<close>

lemma claim_cleanup_one_same [simp]:
  "cl_owners (claim_cleanup_one now e S) = cl_owners S" "cl_ttl (claim_cleanup_one now e S) = cl_ttl S"
  "cl_maxRecords (claim_cleanup_one now e S) = cl_maxRecords S" "cl_random (claim_cleanup_one now e S) = cl_random S"
  "cl_appNonces (claim_cleanup_one now e S) = cl_appNonces S"
  by (cases e; simp add: claim_cleanup_one_def Let_def)+

lemma claim_cleanup_fold_same [simp]:
  "cl_owners (fold (claim_cleanup_one now) es S) = cl_owners S" "cl_ttl (fold (claim_cleanup_one now) es S) = cl_ttl S"
  "cl_maxRecords (fold (claim_cleanup_one now) es S) = cl_maxRecords S"
  "cl_random (fold (claim_cleanup_one now) es S) = cl_random S"
  "cl_appNonces (fold (claim_cleanup_one now) es S) = cl_appNonces S"
  by (induction es arbitrary: S) auto

text \<open>What the cleanup makes of one stored record.\<close>

definition claim_kept :: "duration \<Rightarrow> wall_time \<Rightarrow> claim_stored \<Rightarrow> claim_stored option" where
  "claim_kept ttl now r =
     (if cs_expiresAt r + ttl > now
      then Some (if cs_expiresAt r > now then r else r\<lparr>cs_status := StatusExpired\<rparr>) else None)"

lemma claim_cleanup_one_records:
  "map_of (cl_records S) i = Some r \<Longrightarrow> 0 \<le> cl_ttl S \<Longrightarrow>
   map_of (cl_records (claim_cleanup_one now (i, r) S)) = (map_of (cl_records S))(i := claim_kept (cl_ttl S) now r)"
  by (auto simp: claim_cleanup_one_def Let_def claim_kept_def fun_eq_iff)

lemma claim_cleanup_one_byDigest:
  "map_of (cl_byDigest (claim_cleanup_one now (i, r) S)) d =
     (if map_of (cl_byDigest S) d = Some i \<and> cs_digest r = d \<and> \<not> cs_expiresAt r > now then None
      else map_of (cl_byDigest S) d)"
  by (auto simp: claim_cleanup_one_def Let_def)

lemma claim_cleanup_one_wf:
  "wf_map (cl_records S) \<Longrightarrow> wf_map (cl_records (claim_cleanup_one now e S))"
  "wf_map (cl_byDigest S) \<Longrightarrow> wf_map (cl_byDigest (claim_cleanup_one now e S))"
  by (cases e; simp add: claim_cleanup_one_def Let_def)+

lemma claim_cleanup_fold:
  assumes "wf_map es" and "\<And>i r. (i, r) \<in> set es \<Longrightarrow> map_of (cl_records S) i = Some r" and "0 \<le> cl_ttl S"
  shows "map_of (cl_records (fold (claim_cleanup_one now) es S)) i =
      (case map_of es i of None \<Rightarrow> map_of (cl_records S) i | Some r \<Rightarrow> claim_kept (cl_ttl S) now r) \<and>
    map_of (cl_byDigest (fold (claim_cleanup_one now) es S)) d =
      (case map_of (cl_byDigest S) d of None \<Rightarrow> None
       | Some i \<Rightarrow> (case map_of es i of None \<Rightarrow> Some i
           | Some r \<Rightarrow> if cs_digest r = d \<and> \<not> cs_expiresAt r > now then None else Some i))"
  using assms
proof (induction es arbitrary: S)
  case Nil
  then show ?case by (simp split: option.splits)
next
  case (Cons e es)
  obtain j r where e: "e = (j, r)" by (cases e)
  let ?S = "claim_cleanup_one now (j, r) S"
  have j: "map_of (cl_records S) j = Some r" using Cons.prems(2) e by simp
  have fresh: "map_of es j = None" using Cons.prems(1) e by (simp add: map_of_eq_None_iff)
  note one = claim_cleanup_one_records [OF j Cons.prems(3), of now]
  have tail: "map_of (cl_records ?S) i' = Some r'" if "(i', r') \<in> set es" for i' r'
    using that Cons.prems(2) [of i' r'] fresh one by (auto simp: map_of_eq_None_iff image_iff)
  have "wf_map es" "0 \<le> cl_ttl ?S" using Cons.prems(1,3) by simp_all
  note IH = Cons.IH [OF this(1) tail this(2)]
  then show ?case
    using e fresh one by (auto simp: claim_cleanup_one_byDigest split: option.splits if_splits)
qed

lemma claim_cleanup_fold_wf:
  "wf_map (cl_records S) \<Longrightarrow> wf_map (cl_records (fold (claim_cleanup_one now) es S))"
  "wf_map (cl_byDigest S) \<Longrightarrow> wf_map (cl_byDigest (fold (claim_cleanup_one now) es S))"
  by (induction es arbitrary: S) (simp_all add: claim_cleanup_one_wf)

lemma claim_cleanup_same [simp]:
  "cl_owners (claim_cleanup S now) = cl_owners S" "cl_ttl (claim_cleanup S now) = cl_ttl S"
  "cl_maxRecords (claim_cleanup S now) = cl_maxRecords S" "cl_random (claim_cleanup S now) = cl_random S"
  by (simp_all add: claim_cleanup_def Let_def)

lemma claim_wfD:
  assumes "claim_wf S"
  shows "minute \<le> cl_ttl S" and "1 \<le> cl_maxRecords S"
    and "wf_map (cl_records S)" and "wf_map (cl_byDigest S)" and "wf_map (cl_owners S)" and "wf_map (cl_appNonces S)"
    and "map_of (cl_byDigest S) d = Some i \<Longrightarrow> \<exists>r. map_of (cl_records S) i = Some r \<and> cs_digest r = d"
    and "map_of (cl_records S) i = Some r \<Longrightarrow> cs_requestID r = i"
    and "map_of (cl_owners S) dev = Some e \<Longrightarrow> ValidBindingID (ow_BindingID (oe_Ownership e)) \<and>
        ValidBindingRevision (ow_BindingRevision (oe_Ownership e))"
    and "map_of (cl_owners S) d1 = Some e1 \<Longrightarrow> map_of (cl_owners S) d2 = Some e2 \<Longrightarrow>
        ow_BindingID (oe_Ownership e1) = ow_BindingID (oe_Ownership e2) \<Longrightarrow> d1 = d2"
  using assms unfolding claim_wf_def claim_index_ok_def claim_ids_ok_def claim_owners_ok_def
  by (simp, simp, simp, simp, simp, simp, blast, blast, blast, blast)

lemma claim_cleanup_lookup:
  assumes "claim_wf S"
  shows "map_of (cl_records (claim_cleanup S now)) i =
      (case map_of (cl_records S) i of None \<Rightarrow> None | Some r \<Rightarrow> claim_kept (cl_ttl S) now r)"
    and "map_of (cl_byDigest (claim_cleanup S now)) d =
      (case map_of (cl_byDigest S) d of None \<Rightarrow> None
       | Some i \<Rightarrow> (case map_of (cl_records S) i of None \<Rightarrow> Some i
           | Some r \<Rightarrow> if cs_expiresAt r > now then Some i else None))"
    and "map_of (cl_appNonces (claim_cleanup S now)) k =
      (case map_of (cl_appNonces S) k of None \<Rightarrow> None | Some t \<Rightarrow> if t > now then Some t else None)"
proof -
  let ?S = "S\<lparr>cl_appNonces := fold (\<lambda>(nonce, expires) m. if \<not> expires > now then AList.delete nonce m else m)
     (cl_appNonces S) (cl_appNonces S)\<rparr>"
  have wf: "wf_map (cl_records S)" "0 \<le> cl_ttl ?S" using claim_wfD(1,3) [OF assms] by simp_all
  have entries: "map_of (cl_records ?S) i = Some r" if "(i, r) \<in> set (cl_records S)" for i r
    using that wf(1) by (simp add: map_of_eq_Some_iff)
  note loop = claim_cleanup_fold [OF wf(1) entries wf(2), of now]
  show "map_of (cl_records (claim_cleanup S now)) i =
      (case map_of (cl_records S) i of None \<Rightarrow> None | Some r \<Rightarrow> claim_kept (cl_ttl S) now r)"
    using loop [of i] by (simp add: claim_cleanup_def Let_def split: option.splits)
  show "map_of (cl_byDigest (claim_cleanup S now)) d =
      (case map_of (cl_byDigest S) d of None \<Rightarrow> None
       | Some i \<Rightarrow> (case map_of (cl_records S) i of None \<Rightarrow> Some i
           | Some r \<Rightarrow> if cs_expiresAt r > now then Some i else None))"
    using loop [of _ d] claim_wfD(7) [OF assms, of d] by (auto simp: claim_cleanup_def Let_def split: option.splits)
  show "map_of (cl_appNonces (claim_cleanup S now)) k =
      (case map_of (cl_appNonces S) k of None \<Rightarrow> None | Some t \<Rightarrow> if t > now then Some t else None)"
    using map_of_range_delete [OF claim_wfD(6) [OF assms], of "\<lambda>_ t. \<not> t > now"]
    by (simp add: claim_cleanup_def Let_def split: option.splits)
qed

subsection \<open>Fresh identifiers\<close>

lemma claim_newCanonicalID_Inr:
  "claim_newCanonicalID a n taken random = (Inr i, random') \<Longrightarrow>
   \<not> taken i \<and> canonical_bytes i n"
  by (induction a n taken random rule: claim_newCanonicalID.induct)
    (auto split: option.splits if_splits prod.splits simp: canonical_bytes_encode dest: read_full_length)

subsection \<open>Every operation keeps the invariant\<close>

lemma claim_wf_random [simp]: "claim_wf (S\<lparr>cl_random := r\<rparr>) = claim_wf S"
  by (simp add: claim_wf_def)

lemma claim_wf_cleanup:
  assumes "claim_wf S"
  shows "claim_wf (claim_cleanup S now)"
proof -
  note lookup = claim_cleanup_lookup [OF assms]
  have maps: "wf_map (cl_records (claim_cleanup S now))" "wf_map (cl_byDigest (claim_cleanup S now))"
      "wf_map (cl_appNonces (claim_cleanup S now))"
    using claim_wfD(3,4,6) [OF assms]
    by (simp_all add: claim_cleanup_def Let_def claim_cleanup_fold_wf wf_map_fold_delete)
  have index: "claim_index_ok (cl_records (claim_cleanup S now)) (cl_byDigest (claim_cleanup S now))"
    unfolding claim_index_ok_def
  proof (intro allI impI)
    fix d i
    assume "map_of (cl_byDigest (claim_cleanup S now)) d = Some i"
    then show "\<exists>r. map_of (cl_records (claim_cleanup S now)) i = Some r \<and> cs_digest r = d"
      using claim_wfD(1) [OF assms] claim_wfD(7) [OF assms, of d i]
      by (auto simp: lookup claim_kept_def split: option.splits if_splits)
  qed
  have ids: "claim_ids_ok (cl_records (claim_cleanup S now))"
    using claim_wfD(8) [OF assms]
    by (auto simp: claim_ids_ok_def lookup claim_kept_def split: option.splits if_splits)
  have "length (cl_appNonces (claim_cleanup S now)) \<le> length (cl_appNonces S)"
    by (simp add: claim_cleanup_def Let_def length_fold_delete)
  then show ?thesis
    using assms maps index ids unfolding claim_wf_def by simp
qed

lemma claim_wf_status:
  assumes "claim_wf S" and "map_of (cl_records S) i = Some r"
  shows "claim_wf (S\<lparr>cl_records := AList.update i (r\<lparr>cs_status := st\<rparr>) (cl_records S)\<rparr>)"
proof -
  have "claim_index_ok (AList.update i (r\<lparr>cs_status := st\<rparr>) (cl_records S)) (cl_byDigest S)"
    using claim_wfD(7) [OF assms(1)] assms(2) unfolding claim_index_ok_def by fastforce
  moreover have "claim_ids_ok (AList.update i (r\<lparr>cs_status := st\<rparr>) (cl_records S))"
    using claim_wfD(8) [OF assms(1)] assms(2) by (auto simp: claim_ids_ok_def)
  ultimately show ?thesis
    using assms(1) by (simp add: claim_wf_def)
qed

lemma claim_wf_nonce:
  assumes "claim_wf S" and "int (length (cl_appNonces S)) < cl_maxRecords S * 4"
  shows "claim_wf (S\<lparr>cl_appNonces := AList.update k t (cl_appNonces S)\<rparr>)"
  using assms by (simp add: claim_wf_def length_update)

lemma claim_wf_new:
  assumes "claim_wf S" and "map_of (cl_records S) i = None"
    and "cs_requestID r = i" and "cs_digest r = d"
  shows "claim_wf (S\<lparr>cl_records := AList.update i r (cl_records S), cl_byDigest := AList.update d i (cl_byDigest S)\<rparr>)"
proof -
  have "claim_index_ok (AList.update i r (cl_records S)) (AList.update d i (cl_byDigest S))"
    unfolding claim_index_ok_def
  proof (intro allI impI)
    fix d' j
    assume "map_of (AList.update d i (cl_byDigest S)) d' = Some j"
    then show "\<exists>r'. map_of (AList.update i r (cl_records S)) j = Some r' \<and> cs_digest r' = d'"
      using claim_wfD(7) [OF assms(1), of d' j] assms(2,4) by (auto split: if_splits)
  qed
  moreover have "claim_ids_ok (AList.update i r (cl_records S))"
    using claim_wfD(8) [OF assms(1)] assms(3) by (auto simp: claim_ids_ok_def)
  ultimately show ?thesis
    using assms(1) by (simp add: claim_wf_def)
qed

lemma claim_wf_owner:
  assumes "claim_wf S" and "ValidBindingID (ow_BindingID (oe_Ownership e))"
    and "ValidBindingRevision (ow_BindingRevision (oe_Ownership e))"
    and "\<And>d' e'. map_of (cl_owners S) d' = Some e' \<Longrightarrow>
      ow_BindingID (oe_Ownership e') = ow_BindingID (oe_Ownership e) \<Longrightarrow> d' = dev"
  shows "claim_wf (S\<lparr>cl_owners := AList.update dev e (cl_owners S)\<rparr>)"
proof -
  have "claim_owners_ok (AList.update dev e (cl_owners S))"
    unfolding claim_owners_ok_def
  proof (intro conjI allI impI)
    fix d1 d2 e1 e2
    assume "map_of (AList.update dev e (cl_owners S)) d1 = Some e1"
      and "map_of (AList.update dev e (cl_owners S)) d2 = Some e2"
      and "ow_BindingID (oe_Ownership e1) = ow_BindingID (oe_Ownership e2)"
    then show "d1 = d2"
      using assms(4) [of d1 e1] assms(4) [of d2 e2] claim_wfD(10) [OF assms(1), of d1 e1 d2 e2]
      by (auto split: if_splits)
  qed (use assms(2,3) claim_wfD(9) [OF assms(1)] in \<open>auto split: if_splits\<close>)
  then show ?thesis
    using assms(1) by (simp add: claim_wf_def)
qed

text \<open>Binding revisions count without wrapping.\<close>

lemma binding_revision_next:
  assumes "ValidBindingRevision v" and "\<not> v \<ge> MaximumBindingRevision"
  shows "ValidBindingRevision (v + 1)" and "unat (v + 1) = unat v + 1"
proof -
  have v: "unat v < 4294967295"
    using assms(2) by (simp add: MaximumBindingRevision_def word_le_nat_alt)
  then show next_: "unat (v + 1) = unat v + 1"
    by (simp add: unat_word_ariths)
  show "ValidBindingRevision (v + 1)"
    using v next_ by (simp add: ValidBindingRevision_def MaximumBindingRevision_def word_le_nat_alt word_less_nat_alt)
qed

lemma ValidBindingRevision_1: "ValidBindingRevision 1"
  by (simp add: ValidBindingRevision_def MaximumBindingRevision_def)

text \<open>What binding a device does to the owners.\<close>

lemma claim_bind_cases:
  assumes "claim_bind S dev r = (res, T)"
  obtains (error) e random where "res = Inl e" and "T = S\<lparr>cl_random := random\<rparr>"
  | (bound) bindingID random e where "res = Inr ()"
      and "T = S\<lparr>cl_random := random, cl_owners := AList.update dev e (cl_owners S)\<rparr>"
      and "oe_active e" and "ow_OwnerID (oe_Ownership e) = cs_userID r" and "ow_TenantID (oe_Ownership e) = cs_tenantID r"
      and "ow_BindingID (oe_Ownership e) = bindingID" and "canonical_bytes bindingID 16"
      and "\<And>d' e'. map_of (cl_owners S) d' = Some e' \<Longrightarrow> ow_BindingID (oe_Ownership e') \<noteq> bindingID"
      and "case map_of (cl_owners S) dev of None \<Rightarrow> ow_BindingRevision (oe_Ownership e) = 1
        | Some e0 \<Rightarrow> \<not> ow_BindingRevision (oe_Ownership e0) \<ge> MaximumBindingRevision \<and>
            ow_BindingRevision (oe_Ownership e) = ow_BindingRevision (oe_Ownership e0) + 1"
proof (cases "claim_newCanonicalID 4 16
    (\<lambda>c. list_ex (\<lambda>(_, owner). ow_BindingID (oe_Ownership owner) = c) (cl_owners S)) (cl_random S)")
  case (Pair id_res random)
  show ?thesis
  proof (cases id_res)
    case (Inl e)
    with Pair assms show ?thesis by (intro error) (auto simp: claim_bind_def)
  next
    case (Inr bindingID)
    with claim_newCanonicalID_Inr Pair have fresh: "canonical_bytes bindingID 16"
        "\<not> list_ex (\<lambda>(_, owner). ow_BindingID (oe_Ownership owner) = bindingID) (cl_owners S)"
      by blast+
    have new: "ow_BindingID (oe_Ownership e') \<noteq> bindingID" if "map_of (cl_owners S) d' = Some e'" for d' e'
      using fresh(2) map_of_SomeD [OF that] by (auto simp: list_ex_iff)
    show ?thesis
    proof (cases "map_of (cl_owners S) dev")
      case None
      with Pair Inr assms fresh(1) new show ?thesis
        by (intro bound) (auto simp: claim_bind_def Let_def)
    next
      case (Some e0)
      show ?thesis
      proof (cases "ow_BindingRevision (oe_Ownership e0) \<ge> MaximumBindingRevision")
        case True
        with Pair Inr Some assms show ?thesis by (intro error) (auto simp: claim_bind_def Let_def)
      next
        case False
        with Pair Inr Some assms fresh(1) new show ?thesis
          by (intro bound) (auto simp: claim_bind_def Let_def)
      qed
    qed
  qed
qed

lemma claim_bind_wf:
  assumes "claim_wf S" and "claim_bind S dev r = (res, T)"
  shows "claim_wf T"
  using assms(2)
proof (cases rule: claim_bind_cases)
  case (error e random)
  then show ?thesis using assms(1) by simp
next
  case (bound bindingID random e)
  have "ValidBindingRevision (ow_BindingRevision (oe_Ownership e))"
    using bound(9) claim_wfD(9) [OF assms(1), of dev] binding_revision_next(1) ValidBindingRevision_1
    by (auto split: option.splits)
  then have "claim_wf ((S\<lparr>cl_random := random\<rparr>)\<lparr>cl_owners := AList.update dev e (cl_owners (S\<lparr>cl_random := random\<rparr>))\<rparr>)"
    using assms(1) bound(6-8) by (intro claim_wf_owner) (auto simp: ValidBindingID_def)
  then show ?thesis using bound(2) by simp
qed

text \<open>The store after the nonce of a \<^verbatim>\<open>Begin\<close> has been recorded, and the stores \<^verbatim>\<open>Begin\<close> can end in.\<close>

definition claim_noted :: "claim_store \<Rightarrow> string \<Rightarrow> wall_time \<Rightarrow> claim_store" where
  "claim_noted S nonceKey now = (let S1 = claim_cleanup S now in
     S1\<lparr>cl_appNonces := AList.update nonceKey (now + cl_ttl S1) (cl_appNonces S1)\<rparr>)"

lemma claim_noted_same [simp]:
  "cl_owners (claim_noted S k now) = cl_owners S" "cl_ttl (claim_noted S k now) = cl_ttl S"
  "cl_maxRecords (claim_noted S k now) = cl_maxRecords S" "cl_random (claim_noted S k now) = cl_random S"
  "cl_records (claim_noted S k now) = cl_records (claim_cleanup S now)"
  "cl_byDigest (claim_noted S k now) = cl_byDigest (claim_cleanup S now)"
  by (simp_all add: claim_noted_def Let_def)

lemma claim_noted_wf:
  "claim_wf S \<Longrightarrow> int (length (cl_appNonces (claim_cleanup S now))) < cl_maxRecords S * 4 \<Longrightarrow>
   claim_wf (claim_noted S k now)"
  unfolding claim_noted_def Let_def by (intro claim_wf_nonce claim_wf_cleanup) simp_all

lemma claim_Begin_cases:
  assumes "claim_Begin S userID tenantID deviceID code appNonce now = (res, T)"
  defines "k \<equiv> claim_nonceKey tenantID userID appNonce"
  obtains (same) "T = S" and "res = Inl ClaimInvalid"
  | (refused) e where "T = claim_cleanup S now" and "res = Inl e"
  | (noted) random where "int (length (cl_appNonces (claim_cleanup S now))) < cl_maxRecords S * 4"
      and "T = (claim_noted S k now)\<lparr>cl_random := random\<rparr>"
  | (new) requestID random where "int (length (cl_appNonces (claim_cleanup S now))) < cl_maxRecords S * 4"
      and "map_of (cl_records (claim_cleanup S now)) requestID = None"
      and "T = (claim_noted S k now)\<lparr>cl_random := random,
         cl_records := AList.update requestID \<lparr>cs_requestID = requestID, cs_userID = userID,
            cs_tenantID = tenantID, cs_deviceID = deviceID, cs_digest = claimDigest code,
            cs_status = StatusPending, cs_expiresAt = now + cl_ttl S\<rparr> (cl_records (claim_cleanup S now)),
         cl_byDigest := AList.update (claimDigest code) requestID (cl_byDigest (claim_cleanup S now))\<rparr>"
      and "res = Inr (claim_publicRecord \<lparr>cs_requestID = requestID, cs_userID = userID,
            cs_tenantID = tenantID, cs_deviceID = deviceID, cs_digest = claimDigest code,
            cs_status = StatusPending, cs_expiresAt = now + cl_ttl S\<rparr> now)"
proof -
  define S1 where "S1 = claim_cleanup S now"
  define S2 where "S2 = claim_noted S k now"
  have S2: "S1\<lparr>cl_appNonces := AList.update k (now + cl_ttl S1) (cl_appNonces S1)\<rparr> = S2"
    by (simp add: S1_def S2_def claim_noted_def Let_def)
  have random: "S2\<lparr>cl_random := cl_random S2\<rparr> = S2" by simp
  let ?invalid = "\<not> ValidIdentifier userID 128 \<or> \<not> ValidIdentifier tenantID 128 \<or>
    \<not> ValidIdentifier deviceID 64 \<or> \<not> ValidClaimCode code \<or> \<not> ValidAppNonce appNonce \<or> now = 0"
  let ?replay = "case map_of (cl_appNonces S1) k of None \<Rightarrow> False | Some expires \<Rightarrow> expires > now"
  let ?full = "int (length (cl_appNonces S1)) \<ge> cl_maxRecords S1 * 4"
  note def = assms(1) [unfolded claim_Begin_def Let_def, folded S1_def k_def, unfolded S2]
  consider ?invalid | "\<not> ?invalid" "?replay \<or> ?full" | "\<not> ?invalid" "\<not> ?replay" "\<not> ?full" by blast
  then show ?thesis
  proof cases
    case 1
    with def show ?thesis by (intro same) auto
  next
    case 2
    with def have "T = S1 \<and> (\<exists>e. res = Inl e)"
      by (simp only: if_False) (auto split: if_splits)
    then show ?thesis using refused S1_def by blast
  next
    case 3
    then have room: "int (length (cl_appNonces S1)) < cl_maxRecords S * 4"
      by (simp add: S1_def)
    show ?thesis
    proof (cases "claim_newCanonicalID 4 16 (\<lambda>c. map_of (cl_records S2) c \<noteq> None) (cl_random S2)")
      case (Pair id_res r)
      show ?thesis
      proof (cases "map_of (cl_byDigest S2) (claimDigest code) \<noteq> None \<or> claim_owned_by_other S2 deviceID userID tenantID \<or>
          claim_activeRecords S2 now \<ge> cl_maxRecords S2 \<or> (\<exists>e. id_res = Inl e)")
        case True
        with def 3 Pair have "T = S2 \<or> T = S2\<lparr>cl_random := r\<rparr>"
          by (simp only: if_False simp_thms) (auto split: if_splits option.splits)
        then show ?thesis using noted [of "cl_random S2"] noted [of r] room random S1_def S2_def by auto
      next
        case False
        then obtain requestID where id_: "id_res = Inr requestID" by (cases id_res) auto
        then have "map_of (cl_records S2) requestID = None"
          using claim_newCanonicalID_Inr Pair by blast
        moreover have "T = S2\<lparr>cl_random := r,
          cl_records := AList.update requestID \<lparr>cs_requestID = requestID, cs_userID = userID,
            cs_tenantID = tenantID, cs_deviceID = deviceID, cs_digest = claimDigest code,
            cs_status = StatusPending, cs_expiresAt = now + cl_ttl S2\<rparr> (cl_records S2),
          cl_byDigest := AList.update (claimDigest code) requestID (cl_byDigest S2)\<rparr>"
          and "res = Inr (claim_publicRecord \<lparr>cs_requestID = requestID, cs_userID = userID,
            cs_tenantID = tenantID, cs_deviceID = deviceID, cs_digest = claimDigest code,
            cs_status = StatusPending, cs_expiresAt = now + cl_ttl S2\<rparr> now)"
          using def 3 Pair False id_ by (simp only: if_False simp_thms; auto)+
        ultimately show ?thesis using new room by (simp add: S1_def S2_def)
      qed
    qed
  qed
qed

lemma claim_Begin_wf:
  assumes "claim_wf S" and "claim_Begin S userID tenantID deviceID code appNonce now = (res, T)"
  shows "claim_wf T"
  using assms(2)
proof (cases rule: claim_Begin_cases)
  case same
  with assms(1) show ?thesis by simp
next
  case refused
  with claim_wf_cleanup [OF assms(1)] show ?thesis by simp
next
  case noted
  with claim_noted_wf [OF assms(1)] show ?thesis by simp
next
  case (new requestID random)
  let ?S2 = "(claim_noted S (claim_nonceKey tenantID userID appNonce) now)\<lparr>cl_random := random\<rparr>"
  have "claim_wf ?S2" using claim_noted_wf [OF assms(1)] new by simp
  from claim_wf_new [OF this, of requestID] new show ?thesis by simp
qed

text \<open>The stores \<^verbatim>\<open>Confirm\<close> can end in: only a live claim for this device reaches the owners.\<close>

lemma claim_Confirm_cases:
  assumes "claim_Confirm S deviceID code now = (res, T)"
  obtains (same) e where "T = S" and "res = Inl e"
  | (refused) e where "T = claim_cleanup S now" and "res = Inl e"
  | (confirmed) requestID r where "map_of (cl_byDigest (claim_cleanup S now)) (claimDigest code) = Some requestID"
      and "map_of (cl_records (claim_cleanup S now)) requestID = Some r"
      and "cs_deviceID r = deviceID" and "cs_expiresAt r > now"
      and "\<exists>e. map_of (cl_owners S) deviceID = Some e \<and> oe_active e \<and>
        ow_OwnerID (oe_Ownership e) = cs_userID r \<and> ow_TenantID (oe_Ownership e) = cs_tenantID r"
      and "T = (claim_cleanup S now)\<lparr>cl_records :=
        AList.update requestID (r\<lparr>cs_status := StatusBound\<rparr>) (cl_records (claim_cleanup S now))\<rparr>"
      and "res = Inr (claim_publicRecord (r\<lparr>cs_status := StatusBound\<rparr>) now)"
  | (binding) requestID r bres U where "map_of (cl_byDigest (claim_cleanup S now)) (claimDigest code) = Some requestID"
      and "map_of (cl_records (claim_cleanup S now)) requestID = Some r"
      and "cs_deviceID r = deviceID" and "cs_expiresAt r > now"
      and "\<And>e. map_of (cl_owners S) deviceID = Some e \<Longrightarrow> \<not> oe_active e"
      and "claim_bind (claim_cleanup S now) deviceID r = (bres, U)"
      and "case bres of Inl e \<Rightarrow> T = U \<and> res = Inl e
        | Inr _ \<Rightarrow> T = U\<lparr>cl_records := AList.update requestID (r\<lparr>cs_status := StatusBound\<rparr>) (cl_records U)\<rparr> \<and>
            res = Inr (claim_publicRecord (r\<lparr>cs_status := StatusBound\<rparr>) now)"
proof -
  define S1 where "S1 = claim_cleanup S now"
  note def = assms(1) [unfolded claim_Confirm_def Let_def, folded S1_def]
  have owners: "cl_owners S1 = cl_owners S" by (simp add: S1_def)
  show ?thesis
  proof (cases "\<not> ValidIdentifier deviceID 64 \<or> \<not> ValidClaimCode code \<or> now = 0")
    case True
    with def show ?thesis by (intro same) auto
  next
    case False
    show ?thesis
    proof (cases "\<exists>requestID r. map_of (cl_byDigest S1) (claimDigest code) = Some requestID \<and>
        map_of (cl_records S1) requestID = Some r \<and> cs_deviceID r = deviceID \<and> cs_expiresAt r > now \<and>
        \<not> claim_owned_by_other S1 deviceID (cs_userID r) (cs_tenantID r)")
      case refuse: False
      from def False refuse have "T = S1 \<and> (\<exists>e. res = Inl e)"
        by (auto split: option.splits if_splits)
      then show ?thesis using refused S1_def by blast
    next
      case True
      then obtain requestID r where r: "map_of (cl_byDigest S1) (claimDigest code) = Some requestID"
        "map_of (cl_records S1) requestID = Some r" "cs_deviceID r = deviceID" "cs_expiresAt r > now"
        "\<not> claim_owned_by_other S1 deviceID (cs_userID r) (cs_tenantID r)" by blast
      show ?thesis
      proof (cases "\<exists>e. map_of (cl_owners S1) deviceID = Some e \<and> oe_active e")
        case True
        then obtain e where e: "map_of (cl_owners S1) deviceID = Some e" "oe_active e" by blast
        with def False r show ?thesis
          by (intro confirmed [of requestID r]) (auto simp: S1_def [symmetric] owners claim_owned_by_other_def)
      next
        case inactive: False
        obtain bres U where bind: "claim_bind S1 deviceID r = (bres, U)" by fastforce
        from def False r inactive bind have
          "case bres of Inl e \<Rightarrow> T = U \<and> res = Inl e
            | Inr _ \<Rightarrow> T = U\<lparr>cl_records := AList.update requestID (r\<lparr>cs_status := StatusBound\<rparr>) (cl_records U)\<rparr> \<and>
                res = Inr (claim_publicRecord (r\<lparr>cs_status := StatusBound\<rparr>) now)"
          by (auto split: option.splits sum.splits)
        with r inactive bind show ?thesis
          by (intro binding [of requestID r bres U]) (auto simp: S1_def [symmetric] owners)
      qed
    qed
  qed
qed

lemma claim_bind_records: "claim_bind S dev r = (res, T) \<Longrightarrow> cl_records T = cl_records S"
  by (erule claim_bind_cases) simp_all

lemma claim_Confirm_wf:
  assumes "claim_wf S" and "claim_Confirm S deviceID code now = (res, T)"
  shows "claim_wf T"
  using assms(2)
proof (cases rule: claim_Confirm_cases)
  case same
  with assms(1) show ?thesis by simp
next
  case refused
  with claim_wf_cleanup [OF assms(1)] show ?thesis by simp
next
  case confirmed
  with claim_wf_cleanup [OF assms(1)] show ?thesis by (simp add: claim_wf_status)
next
  case (binding requestID r bres U)
  have U: "claim_wf U" "map_of (cl_records U) requestID = Some r"
    using claim_bind_wf [OF claim_wf_cleanup [OF assms(1)] binding(6)] claim_bind_records [OF binding(6)] binding(2)
    by simp_all
  then show ?thesis
    using binding(7) claim_wf_status [OF U] by (auto split: sum.splits)
qed

lemma claim_Lookup_state: "snd (claim_Lookup S userID tenantID requestID now) \<in> {S, claim_cleanup S now}"
  by (auto simp: claim_Lookup_def Let_def split: option.splits)

text \<open>The stores \<^verbatim>\<open>Release\<close> can end in: only the owner's own call changes anything.\<close>

lemma claim_Release_cases:
  assumes "claim_Release S userID tenantID deviceID now = (res, T)"
  obtains (same) "T = S" and "\<And>e o'. map_of (cl_owners S) deviceID = Some e \<Longrightarrow> oe_active e \<Longrightarrow> res \<noteq> Inr o'"
  | (released) e where "map_of (cl_owners S) deviceID = Some e" and "oe_active e"
      and "ow_OwnerID (oe_Ownership e) = userID" and "ow_TenantID (oe_Ownership e) = tenantID"
      and "\<not> ow_BindingRevision (oe_Ownership e) \<ge> MaximumBindingRevision"
      and "T = S\<lparr>cl_owners := AList.update deviceID
         \<lparr>oe_Ownership = (oe_Ownership e)\<lparr>ow_BindingRevision := ow_BindingRevision (oe_Ownership e) + 1\<rparr>,
          oe_active = False\<rparr> (cl_owners S)\<rparr>"
      and "res = Inr ((oe_Ownership e)\<lparr>ow_BindingRevision := ow_BindingRevision (oe_Ownership e) + 1\<rparr>)"
proof (cases "\<exists>e. map_of (cl_owners S) deviceID = Some e \<and> oe_active e \<and>
    ow_OwnerID (oe_Ownership e) = userID \<and> ow_TenantID (oe_Ownership e) = tenantID \<and>
    \<not> ow_BindingRevision (oe_Ownership e) \<ge> MaximumBindingRevision \<and>
    \<not> (\<not> ValidIdentifier userID 128 \<or> \<not> ValidIdentifier tenantID 128 \<or> \<not> ValidIdentifier deviceID 64 \<or> now = 0)")
  case True
  then obtain e where e: "map_of (cl_owners S) deviceID = Some e" "oe_active e"
    "ow_OwnerID (oe_Ownership e) = userID" "ow_TenantID (oe_Ownership e) = tenantID"
    "\<not> ow_BindingRevision (oe_Ownership e) \<ge> MaximumBindingRevision"
    "\<not> (\<not> ValidIdentifier userID 128 \<or> \<not> ValidIdentifier tenantID 128 \<or> \<not> ValidIdentifier deviceID 64 \<or> now = 0)"
    by blast
  with assms show ?thesis
    by (intro released [OF e(1-5)]) (simp_all add: claim_Release_def Let_def)
next
  case False
  then have "snd (claim_Release S userID tenantID deviceID now) = S \<and>
      (\<forall>e o'. map_of (cl_owners S) deviceID = Some e \<longrightarrow> oe_active e \<longrightarrow>
        fst (claim_Release S userID tenantID deviceID now) \<noteq> Inr o')"
    by (cases "map_of (cl_owners S) deviceID") (auto simp: claim_Release_def Let_def)
  with assms same show ?thesis by simp
qed

lemma claim_Release_wf:
  assumes "claim_wf S" and "claim_Release S userID tenantID deviceID now = (res, T)"
  shows "claim_wf T"
  using assms(2)
proof (cases rule: claim_Release_cases)
  case same
  with assms(1) show ?thesis by simp
next
  case (released e)
  note valid = claim_wfD(9) [OF assms(1) released(1)]
  show ?thesis
    unfolding released(6) using valid released(5) binding_revision_next(1) claim_wfD(10) [OF assms(1) _ released(1)]
    by (intro claim_wf_owner [OF assms(1)]) auto
qed

lemma claim_step_wf:
  assumes "claim_wf S" and "claim_step now S T"
  shows "claim_wf T"
  using assms(2)
proof cases
  case begin_
  then show ?thesis by (metis claim_Begin_wf [OF assms(1)] prod.collapse)
next
  case confirm
  then show ?thesis by (metis claim_Confirm_wf [OF assms(1)] prod.collapse)
next
  case (lookup userID tenantID requestID)
  then show ?thesis
    using claim_Lookup_state [of S userID tenantID requestID now] assms(1) claim_wf_cleanup [OF assms(1)] by auto
next
  case release
  then show ?thesis by (metis claim_Release_wf [OF assms(1)] prod.collapse)
qed

lemma claim_init_wf: "claim_init S \<Longrightarrow> claim_wf S"
  by (auto simp: claim_init_def claim_newStore_def claim_wf_def claim_index_ok_def claim_ids_ok_def
      claim_owners_ok_def split: if_splits)

interpretation dc: go_system claim_init claim_any_step claim_wf
  by unfold_locales (auto intro: claim_init_wf claim_step_wf)

text \<open>After a successful \<^verbatim>\<open>Begin\<close> the claim is on record under its digest.\<close>

lemma claim_Begin_Inr:
  assumes "claim_wf S" and "claim_Begin S u t dev code nonce now = (Inr rec, T)"
  shows "ValidIdentifier dev 64 \<and> ValidClaimCode code \<and>
    (\<exists>i r. map_of (cl_byDigest T) (claimDigest code) = Some i \<and> map_of (cl_records T) i = Some r \<and>
      cs_userID r = u \<and> cs_tenantID r = t \<and> cs_deviceID r = dev \<and> cs_requestID r = cr_RequestID rec \<and>
      cs_expiresAt r = cr_ExpiresAt rec)"
  using assms(2) unfolding claim_Begin_def Let_def
  by (auto simp: claim_publicRecord_def split: if_splits option.splits prod.splits sum.splits)

subsection \<open>Where claim records come from\<close>

text \<open>A record after a call was there before, up to its status, or was made by this call, a successful \<^verbatim>\<open>Begin\<close>.\<close>

lemma claim_cleanup_records:
  assumes "claim_wf S" and "map_of (cl_records (claim_cleanup S now)) i = Some r"
  shows "\<exists>r0 st. map_of (cl_records S) i = Some r0 \<and> r = r0\<lparr>cs_status := st\<rparr>"
proof -
  obtain r0 where r0: "map_of (cl_records S) i = Some r0" "claim_kept (cl_ttl S) now r0 = Some r"
    using assms(2) by (auto simp: claim_cleanup_lookup [OF assms(1)] split: option.splits)
  then have "r = r0\<lparr>cs_status := cs_status r\<rparr>"
    by (auto simp: claim_kept_def split: if_splits)
  with r0(1) show ?thesis by metis
qed

lemma claim_step_records:
  assumes "claim_wf S" and "claim_step now S T" and "map_of (cl_records T) i = Some r"
  obtains (old) r0 st where "map_of (cl_records S) i = Some r0" and "r = r0\<lparr>cs_status := st\<rparr>"
  | (begun) code nonce rec where "claim_Begin S (cs_userID r) (cs_tenantID r) (cs_deviceID r) code nonce now = (Inr rec, T)"
      and "claimDigest code = cs_digest r" and "cr_RequestID rec = cs_requestID r" and "cr_ExpiresAt rec = cs_expiresAt r"
proof -
  have clean: thesis if "map_of (cl_records (claim_cleanup S now)) i = Some r"
    using claim_cleanup_records [OF assms(1) that] old by blast
  have keep: thesis if "map_of (cl_records S) i = Some r"
    by (rule old [OF that, of "cs_status r"]) simp
  have set: thesis if "map_of (cl_records (claim_cleanup S now)) j = Some r1"
      "map_of (AList.update j (r1\<lparr>cs_status := st\<rparr>) (cl_records (claim_cleanup S now))) i = Some r" for j r1 st
  proof (cases "i = j")
    case True
    with that have r: "r = r1\<lparr>cs_status := st\<rparr>" by simp
    from claim_cleanup_records [OF assms(1) that(1)] True obtain r0 st0 where
      "map_of (cl_records S) i = Some r0" "r1 = r0\<lparr>cs_status := st0\<rparr>" by blast
    with r show ?thesis by (intro old) simp_all
  qed (use that clean in simp)
  from assms(2) show ?thesis
  proof cases
    case (begin_ userID tenantID deviceID code appNonce)
    then have "claim_Begin S userID tenantID deviceID code appNonce now =
        (fst (claim_Begin S userID tenantID deviceID code appNonce now), T)" by simp
    then show ?thesis
    proof (cases rule: claim_Begin_cases)
      case (new requestID random)
      show ?thesis
      proof (cases "i = requestID")
        case True
        then have r: "r = \<lparr>cs_requestID = requestID, cs_userID = userID, cs_tenantID = tenantID, cs_deviceID = deviceID,
            cs_digest = claimDigest code, cs_status = StatusPending, cs_expiresAt = now + cl_ttl S\<rparr>"
          using assms(3) new(3) by simp
        have "claim_Begin S (cs_userID r) (cs_tenantID r) (cs_deviceID r) code appNonce now = (Inr (claim_publicRecord r now), T)"
          using new(4) begin_ unfolding r claim_stored.simps by (simp add: prod_eq_iff)
        then show ?thesis
          by (rule begun) (unfold r claim_publicRecord_def Let_def, simp_all)
      next
        case False
        then have "map_of (cl_records (claim_cleanup S now)) i = Some r" using assms(3) new(3) by simp
        then show ?thesis by (rule clean)
      qed
    next
      case same
      then show ?thesis using assms(3) keep by simp
    qed (use assms(3) clean in simp_all)
  next
    case (confirm deviceID code)
    then have "claim_Confirm S deviceID code now = (fst (claim_Confirm S deviceID code now), T)" by simp
    then show ?thesis
    proof (cases rule: claim_Confirm_cases)
      case (confirmed requestID r1)
      then show ?thesis using assms(3) set [OF confirmed(2)] by simp
    next
      case (binding requestID r1 bres U)
      note U = claim_bind_records [OF binding(6)]
      show ?thesis using assms(3) binding(7) set [OF binding(2)] clean by (auto simp: U split: sum.splits)
    next
      case (same e)
      then show ?thesis using assms(3) keep by simp
    qed (use assms(3) clean in simp_all)
  next
    case (lookup userID tenantID requestID)
    then show ?thesis
      using claim_Lookup_state [of S userID tenantID requestID now] assms(3) keep clean by auto
  next
    case (release userID tenantID deviceID)
    then have "claim_Release S userID tenantID deviceID now = (fst (claim_Release S userID tenantID deviceID now), T)" by simp
    then show ?thesis by (cases rule: claim_Release_cases) (use assms(3) keep in simp_all)
  qed
qed

text \<open>In a run, every record goes back to a successful \<^verbatim>\<open>Begin\<close> for its user, tenant and device.\<close>

lemma claim_record_begun:
  assumes "claim_init S0" and "claim_any_step\<^sup>*\<^sup>* S0 S" and "map_of (cl_records S) i = Some r"
  shows "\<exists>S1 S2 code nonce begunAt rec. claim_any_step\<^sup>*\<^sup>* S0 S1 \<and>
    claim_Begin S1 (cs_userID r) (cs_tenantID r) (cs_deviceID r) code nonce begunAt = (Inr rec, S2) \<and> claim_any_step\<^sup>*\<^sup>* S2 S \<and>
    claimDigest code = cs_digest r \<and> cr_RequestID rec = cs_requestID r \<and> cr_ExpiresAt rec = cs_expiresAt r"
  using assms(2,3)
proof (induction arbitrary: r rule: rtranclp_induct)
  case base
  then show ?case using assms(1) by (auto simp: claim_init_def claim_newStore_def split: if_splits)
next
  case (step S T)
  from step.hyps(2) obtain now where now: "claim_step now S T" by blast
  from dc.reachable_inv [OF assms(1) step.hyps(1)] now step.prems show ?case
  proof (cases rule: claim_step_records)
    case (old r0 st)
    from step.IH [OF old(1)] obtain S1 S2 code nonce begunAt rec where "claim_any_step\<^sup>*\<^sup>* S0 S1"
      "claim_Begin S1 (cs_userID r0) (cs_tenantID r0) (cs_deviceID r0) code nonce begunAt = (Inr rec, S2)" "claim_any_step\<^sup>*\<^sup>* S2 S"
      "claimDigest code = cs_digest r0" "cr_RequestID rec = cs_requestID r0" "cr_ExpiresAt rec = cs_expiresAt r0" by blast
    moreover from this(3) step.hyps(2) have "claim_any_step\<^sup>*\<^sup>* S2 T" by (rule rtranclp.rtrancl_into_rtrancl)
    moreover have "cs_userID r = cs_userID r0" "cs_tenantID r = cs_tenantID r0" "cs_deviceID r = cs_deviceID r0"
      "cs_digest r = cs_digest r0" "cs_requestID r = cs_requestID r0" "cs_expiresAt r = cs_expiresAt r0" by (simp_all add: old(2))
    ultimately show ?thesis by metis
  next
    case (begun code nonce rec)
    with step.hyps(1) show ?thesis by blast
  qed
qed

subsection \<open>Owners over time\<close>

text \<open>An entry of the owner table is never removed, and every change to it raises its revision.\<close>

definition claim_owners_grow :: "claim_store \<Rightarrow> claim_store \<Rightarrow> bool" where
  "claim_owners_grow S T \<longleftrightarrow> (\<forall>dev e. map_of (cl_owners S) dev = Some e \<longrightarrow>
     (\<exists>e'. map_of (cl_owners T) dev = Some e' \<and>
        (e' = e \<or> unat (ow_BindingRevision (oe_Ownership e)) < unat (ow_BindingRevision (oe_Ownership e')))))"

lemma claim_owners_grow_refl [simp]: "claim_owners_grow S S"
  by (simp add: claim_owners_grow_def)

lemma claim_owners_grow_same: "cl_owners T = cl_owners S \<Longrightarrow> claim_owners_grow S T"
  by (simp add: claim_owners_grow_def)

lemma claim_owners_grow_trans: "claim_owners_grow S T \<Longrightarrow> claim_owners_grow T U \<Longrightarrow> claim_owners_grow S U"
  unfolding claim_owners_grow_def by (fastforce intro: less_trans)

lemma claim_Begin_owners: "cl_owners (snd (claim_Begin S u t d c n now)) = cl_owners S"
proof -
  obtain res T where eq: "claim_Begin S u t d c n now = (res, T)" by fastforce
  from eq show ?thesis by (cases rule: claim_Begin_cases) (simp_all add: eq)
qed

lemma claim_Lookup_owners: "cl_owners (snd (claim_Lookup S u t i now)) = cl_owners S"
  using claim_Lookup_state [of S u t i now] by auto

text \<open>What \<^verbatim>\<open>Confirm\<close> can do to the owners.\<close>

lemma claim_Confirm_owners:
  assumes "claim_wf S" and "claim_Confirm S deviceID code now = (res, T)"
  obtains (same) "cl_owners T = cl_owners S"
  | (bound) i r e where "cl_owners T = AList.update deviceID e (cl_owners S)" and "oe_active e"
      and "map_of (cl_records S) i = Some r" and "cs_digest r = claimDigest code" and "cs_deviceID r = deviceID"
      and "cs_expiresAt r > now" and "ow_OwnerID (oe_Ownership e) = cs_userID r"
      and "ow_TenantID (oe_Ownership e) = cs_tenantID r"
      and "\<And>e0. map_of (cl_owners S) deviceID = Some e0 \<Longrightarrow> \<not> oe_active e0 \<and>
        unat (ow_BindingRevision (oe_Ownership e)) = unat (ow_BindingRevision (oe_Ownership e0)) + 1"
  using assms(2)
proof (cases rule: claim_Confirm_cases)
  case (binding requestID r bres U)
  note live = claim_wfD(7) [OF claim_wf_cleanup [OF assms(1)] binding(1)]
  have r: "map_of (cl_records S) requestID = Some r"
    using binding(2,4) by (auto simp: claim_cleanup_lookup [OF assms(1)] claim_kept_def split: option.splits if_splits)
  from binding(6) show ?thesis
  proof (cases rule: claim_bind_cases)
    case error
    with binding(7) have "cl_owners T = cl_owners S" by simp
    then show ?thesis by (rule same)
  next
    case (bound bindingID random e)
    have rev: "\<not> oe_active e0 \<and> unat (ow_BindingRevision (oe_Ownership e)) = unat (ow_BindingRevision (oe_Ownership e0)) + 1"
      if "map_of (cl_owners S) deviceID = Some e0" for e0
      using that binding(5) bound(9) claim_wfD(9) [OF assms(1) that] binding_revision_next(2) by simp
    have "cl_owners T = AList.update deviceID e (cl_owners S)"
      using bound(1,2) binding(7) by simp
    with bound(3-5) r live binding(2-4) rev show ?thesis
      by (intro that(2) [of e requestID r]) auto
  qed
qed (use that(1) in simp_all)

lemma claim_step_grow:
  assumes "claim_wf S" and "claim_any_step S T"
  shows "claim_owners_grow S T"
proof -
  from assms(2) obtain now where "claim_step now S T" by blast
  then show ?thesis
  proof cases
    case begin_
    then show ?thesis by (simp add: claim_owners_grow_same claim_Begin_owners)
  next
    case (confirm deviceID code)
    then have "claim_Confirm S deviceID code now = (fst (claim_Confirm S deviceID code now), T)" by simp
    with assms(1) show ?thesis
      by (cases rule: claim_Confirm_owners) (auto simp: claim_owners_grow_def)
  next
    case lookup
    then show ?thesis by (simp add: claim_owners_grow_same claim_Lookup_owners)
  next
    case (release userID tenantID deviceID)
    then have "claim_Release S userID tenantID deviceID now = (fst (claim_Release S userID tenantID deviceID now), T)"
      by simp
    then show ?thesis
    proof (cases rule: claim_Release_cases)
      case same
      then show ?thesis by simp
    next
      case (released e)
      then show ?thesis
        using claim_wfD(9) [OF assms(1) released(1)] binding_revision_next(2) [OF _ released(5)]
        by (auto simp: claim_owners_grow_def)
    qed
  qed
qed

lemma claim_steps_grow: "claim_any_step\<^sup>*\<^sup>* S T \<Longrightarrow> claim_wf S \<Longrightarrow> claim_owners_grow S T"
  by (rule dc.steps_rel [where R = claim_owners_grow])
    (auto intro: claim_owners_grow_trans claim_step_grow )

lemma claim_Owner_active:
  "claim_Owner S dev = Inr (o', True) \<longleftrightarrow> ValidIdentifier dev 64 \<and>
     (\<exists>e. map_of (cl_owners S) dev = Some e \<and> oe_active e \<and> oe_Ownership e = o')"
  by (auto simp: claim_Owner_def split: option.splits)

subsection \<open>Nonces over time\<close>

lemma claim_nonceKey_inject:
  assumes "ValidIdentifier t 128" "ValidIdentifier u 128" "ValidIdentifier t' 128" "ValidIdentifier u' 128"
    and "claim_nonceKey t u n = claim_nonceKey t' u' n'"
  shows "t = t' \<and> u = u' \<and> n = n'"
proof -
  have "CHR 0x00 \<notin> set x" if "ValidIdentifier x 128" for x
    by (rule ValidIdentifier_no_NUL [OF that])
  then show ?thesis
    using assms by (simp add: claim_nonceKey_def append_sep_inject)
qed

text \<open>A live nonce stays while the clock readings stay below its expiry.\<close>

lemma claim_step_nonce:
  assumes "claim_wf S" and "claim_step now S T" and "map_of (cl_appNonces S) k = Some t" and "now < t"
  shows "map_of (cl_appNonces T) k = Some t"
proof -
  have cleanup: "map_of (cl_appNonces (claim_cleanup S now)) k = Some t"
    using assms(3,4) by (simp add: claim_cleanup_lookup [OF assms(1)])
  from assms(2) show ?thesis
  proof cases
    case (begin_ u tn d c n)
    then have eq: "claim_Begin S u tn d c n now = (fst (claim_Begin S u tn d c n now), T)" by simp
    show ?thesis
    proof (cases "claim_nonceKey tn u n = k")
      case True
      then have "T = S \<or> T = claim_cleanup S now"
        using cleanup assms(4) begin_ by (auto simp: claim_Begin_def Let_def)
      then show ?thesis using cleanup assms(3) by auto
    next
      case False
      from eq show ?thesis
        using cleanup assms(3) False by (cases rule: claim_Begin_cases) (auto simp: claim_noted_def Let_def)
    qed
  next
    case (confirm d c)
    then have "claim_Confirm S d c now = (fst (claim_Confirm S d c now), T)" by simp
    then show ?thesis
    proof (cases rule: claim_Confirm_cases)
      case (binding requestID r bres U)
      have "cl_appNonces U = cl_appNonces (claim_cleanup S now)"
        using binding(6) by (cases rule: claim_bind_cases) simp_all
      then show ?thesis using binding(7) cleanup by (auto split: sum.splits)
    qed (use cleanup assms(3) in simp_all)
  next
    case (lookup u tn i)
    then show ?thesis using claim_Lookup_state [of S u tn i now] cleanup assms(3) by auto
  next
    case (release u tn d)
    then have "claim_Release S u tn d now = (fst (claim_Release S u tn d now), T)" by simp
    then show ?thesis using assms(3) by (cases rule: claim_Release_cases) simp_all
  qed
qed

text \<open>The example run.\<close>

lemma claim_example_init: "claim_init claim_example_store"
  unfolding claim_init_def
  by (intro exI [of _ minute] exI [of _ 10] exI [of _ "replicate 16 1 @ replicate 16 2"])
    (simp add: claim_newStore_def claim_example_store_def)

lemma claim_example_valid:
  "ValidClaimCode claim_example_code" "ValidAppNonce claim_example_nonce" "ValidIdentifier ''alice'' 128"
  "ValidIdentifier ''home'' 128" "ValidIdentifier ''dev-1'' 64"
  by (simp_all add: ValidClaimCode_def ValidAppNonce_def claim_example_code_def claim_example_nonce_def) code_simp+

lemma claim_example_Begin:
  "claim_Begin claim_example_store ''alice'' ''home'' ''dev-1'' claim_example_code claim_example_nonce second =
    (Inr \<lparr>cr_RequestID = b64_encode (replicate 16 1), cr_DeviceID = ''dev-1'', cr_Status = StatusPending,
       cr_ExpiresAt = 61 * second\<rparr>,
     claim_example_store\<lparr>cl_random := replicate 16 2,
       cl_records := [(b64_encode (replicate 16 1), \<lparr>cs_requestID = b64_encode (replicate 16 1),
         cs_userID = ''alice'', cs_tenantID = ''home'', cs_deviceID = ''dev-1'',
         cs_digest = claimDigest claim_example_code, cs_status = StatusPending, cs_expiresAt = 61 * second\<rparr>)],
       cl_byDigest := [(claimDigest claim_example_code, b64_encode (replicate 16 1))],
       cl_appNonces := [(claim_nonceKey ''home'' ''alice'' claim_example_nonce, 61 * second)]\<rparr>)"
proof -
  have id_: "claim_newCanonicalID 4 16 (\<lambda>c. False) (replicate 16 1 @ replicate 16 2) =
      (Inr (b64_encode (replicate 16 1)), replicate 16 2)"
    by (simp add: read_full_def numeral_eq_Suc)
  show ?thesis
    unfolding claim_Begin_def using claim_example_valid
    by (simp add: claim_cleanup_def claim_example_store_def claim_owned_by_other_def claim_activeRecords_def
        id_ claim_publicRecord_def Let_def)
qed

lemma claim_example_begun_eq:
  "claim_example_begun = \<lparr>cl_ttl = minute, cl_maxRecords = 10, cl_random = replicate 16 2,
     cl_records = [(b64_encode (replicate 16 1), \<lparr>cs_requestID = b64_encode (replicate 16 1),
       cs_userID = ''alice'', cs_tenantID = ''home'', cs_deviceID = ''dev-1'',
       cs_digest = claimDigest claim_example_code, cs_status = StatusPending, cs_expiresAt = 61 * second\<rparr>)],
     cl_byDigest = [(claimDigest claim_example_code, b64_encode (replicate 16 1))], cl_owners = [],
     cl_appNonces = [(claim_nonceKey ''home'' ''alice'' claim_example_nonce, 61 * second)]\<rparr>"
  unfolding claim_example_begun_def claim_example_Begin snd_conv by (simp add: claim_example_store_def)

lemma claim_example_Confirm:
  "claim_Confirm claim_example_begun ''dev-1'' claim_example_code (2 * second) =
    (Inr \<lparr>cr_RequestID = b64_encode (replicate 16 1), cr_DeviceID = ''dev-1'', cr_Status = StatusBound,
       cr_ExpiresAt = 61 * second\<rparr>, claim_example_bound)"
  "cl_owners claim_example_bound = [(''dev-1'', \<lparr>oe_Ownership = claim_example_owner, oe_active = True\<rparr>)]"
proof -
  have id_: "claim_newCanonicalID 4 16 (\<lambda>c. False) (replicate 16 2) = (Inr (b64_encode (replicate 16 2)), [])"
    by (simp add: read_full_def numeral_eq_Suc)
  have "claim_cleanup claim_example_begun (2 * second) = claim_example_begun"
    by (simp add: claim_example_begun_eq claim_cleanup_def claim_cleanup_one_def)
  then have "\<exists>T. claim_Confirm claim_example_begun ''dev-1'' claim_example_code (2 * second) =
    (Inr \<lparr>cr_RequestID = b64_encode (replicate 16 1), cr_DeviceID = ''dev-1'', cr_Status = StatusBound,
       cr_ExpiresAt = 61 * second\<rparr>, T) \<and>
    cl_owners T = [(''dev-1'', \<lparr>oe_Ownership = claim_example_owner, oe_active = True\<rparr>)]"
    unfolding claim_Confirm_def using claim_example_valid
    by (simp add: claim_example_begun_eq claim_owned_by_other_def
        claim_bind_def id_ claim_publicRecord_def claim_example_owner_def Let_def)
  then show "claim_Confirm claim_example_begun ''dev-1'' claim_example_code (2 * second) =
    (Inr \<lparr>cr_RequestID = b64_encode (replicate 16 1), cr_DeviceID = ''dev-1'', cr_Status = StatusBound,
       cr_ExpiresAt = 61 * second\<rparr>, claim_example_bound)"
    "cl_owners claim_example_bound = [(''dev-1'', \<lparr>oe_Ownership = claim_example_owner, oe_active = True\<rparr>)]"
    by (auto simp: claim_example_bound_def)
qed

lemma claim_example_run:
  "claim_any_step\<^sup>*\<^sup>* claim_example_store claim_example_begun"
  "claim_any_step\<^sup>*\<^sup>* claim_example_store claim_example_bound"
proof -
  show begun: "claim_any_step\<^sup>*\<^sup>* claim_example_store claim_example_begun"
    unfolding claim_example_begun_def by (rule r_into_rtranclp, rule exI, rule claim_step.begin_)
  have "claim_any_step claim_example_begun claim_example_bound"
    unfolding claim_example_bound_def by (rule exI, rule claim_step.confirm)
  with begun show "claim_any_step\<^sup>*\<^sup>* claim_example_store claim_example_bound"
    by (rule rtranclp.rtrancl_into_rtrancl)
qed

lemma claim_example_Owner: "claim_Owner claim_example_bound ''dev-1'' = Inr (claim_example_owner, True)"
  using claim_example_valid(5) by (simp add: claim_Owner_active claim_example_Confirm(2))

section \<open>Properties\<close>

text \<open>C3. Nobody can take over a device: while a device has an active owner, no \<^verbatim>\<open>Begin\<close>, \<^verbatim>\<open>Confirm\<close> or
  \<^verbatim>\<open>Lookup\<close> by anyone changes its ownership, and a \<^verbatim>\<open>Release\<close> changes it only when it is called for
  that device by exactly its owner in exactly its tenant.\<close>

theorem claim_no_takeover:
  assumes "claim_init S0" and "claim_any_step\<^sup>*\<^sup>* S0 S" and "claim_Owner S dev = Inr (o', True)"
  shows "claim_Owner (snd (claim_Begin S u t d c n now)) dev = Inr (o', True) \<and>
    claim_Owner (snd (claim_Confirm S d c now)) dev = Inr (o', True) \<and>
    claim_Owner (snd (claim_Lookup S u t i now)) dev = Inr (o', True) \<and>
    (claim_Owner (snd (claim_Release S u t d now)) dev = Inr (o', True) \<or>
     d = dev \<and> u = ow_OwnerID o' \<and> t = ow_TenantID o')"
proof -
  have wf: "claim_wf S" by (rule dc.reachable_inv [OF assms(1,2)])
  obtain e where e: "ValidIdentifier dev 64" "map_of (cl_owners S) dev = Some e" "oe_active e" "oe_Ownership e = o'"
    using assms(3) by (auto simp: claim_Owner_active)
  have same: "claim_Owner T dev = Inr (o', True)" if "cl_owners T = cl_owners S" for T
    using that e by (simp add: claim_Owner_active)
  have confirm: "claim_Owner (snd (claim_Confirm S d c now)) dev = Inr (o', True)"
  proof -
    obtain res T where eq: "claim_Confirm S d c now = (res, T)" by fastforce
    with wf show ?thesis
    proof (cases rule: claim_Confirm_owners)
      case same
      then show ?thesis using e eq by (simp add: claim_Owner_active)
    next
      case (bound i r e')
      then have "d \<noteq> dev" using e(2,3) by auto
      then show ?thesis using bound(1) e eq by (simp add: claim_Owner_active)
    qed
  qed
  have release: "claim_Owner (snd (claim_Release S u t d now)) dev = Inr (o', True) \<or>
     d = dev \<and> u = ow_OwnerID o' \<and> t = ow_TenantID o'"
  proof -
    obtain res T where eq: "claim_Release S u t d now = (res, T)" by fastforce
    then show ?thesis
      using e same eq by (cases rule: claim_Release_cases) (auto simp: claim_Owner_active)
  qed
  show ?thesis
    using same [OF claim_Begin_owners] same [OF claim_Lookup_owners] confirm release by blast
qed

theorem claim_no_takeover_witness:
  "claim_Owner (snd (claim_Confirm claim_example_bound ''dev-1'' claim_example_code (3 * second))) ''dev-1'' =
     Inr (claim_example_owner, True) \<and>
   claim_Owner (snd (claim_Release claim_example_bound ''mallory'' ''home'' ''dev-1'' (3 * second))) ''dev-1'' =
     Inr (claim_example_owner, True)"
  using claim_no_takeover [OF claim_example_init claim_example_run(2) claim_example_Owner,
      of "''mallory''" "''home''" "''dev-1''" claim_example_code _ "3 * second"]
  by (auto simp: claim_example_owner_def)

text \<open>C33. Revocation is permanent: once an owner has released a device, the store never again reports
  an ownership of that device that matches the released owner, tenant, binding ID and binding
  revision, whatever is claimed and released later. A credential bound to the released ownership
  therefore never becomes valid again.\<close>

theorem claim_revocation_permanent:
  assumes "claim_init S0" and "claim_any_step\<^sup>*\<^sup>* S0 S" and "claim_Owner S dev = Inr (o', True)"
    and "claim_Release S (ow_OwnerID o') (ow_TenantID o') dev now = (Inr released, T)"
    and "claim_any_step\<^sup>*\<^sup>* T U" and "claim_Owner U dev = Inr (current, active)"
  shows "\<not> ownership_Matches current (ow_OwnerID o') (ow_TenantID o') (ow_BindingID o') (ow_BindingRevision o')"
proof -
  have wf: "claim_wf S" by (rule dc.reachable_inv [OF assms(1,2)])
  have T: "claim_wf T" by (rule claim_Release_wf [OF wf assms(4)])
  obtain e where e: "map_of (cl_owners S) dev = Some e" "oe_active e" "oe_Ownership e = o'"
    using assms(3) by (auto simp: claim_Owner_active)
  have "\<exists>e'. map_of (cl_owners T) dev = Some e' \<and>
      unat (ow_BindingRevision o') < unat (ow_BindingRevision (oe_Ownership e'))"
    using assms(4)
  proof (cases rule: claim_Release_cases)
    case same
    with e show ?thesis by blast
  next
    case (released e1)
    with e binding_revision_next(2) [OF _ released(5)] claim_wfD(9) [OF wf released(1)] show ?thesis by auto
  qed
  then obtain e' where e': "map_of (cl_owners T) dev = Some e'"
    "unat (ow_BindingRevision o') < unat (ow_BindingRevision (oe_Ownership e'))" by blast
  with claim_steps_grow [OF assms(5) T] obtain e'' where e'': "map_of (cl_owners U) dev = Some e''"
    "unat (ow_BindingRevision o') < unat (ow_BindingRevision (oe_Ownership e''))"
    unfolding claim_owners_grow_def by (fastforce intro: less_trans)
  show ?thesis
    using assms(6) e'' by (auto simp: claim_Owner_def ownership_Matches_def ownership_zero_def ValidBindingRevision_def
        split: if_splits)
qed

theorem claim_revocation_permanent_witness:
  "\<exists>T released current. claim_Release claim_example_bound ''alice'' ''home'' ''dev-1'' (3 * second) = (Inr released, T) \<and>
     claim_Owner T ''dev-1'' = Inr (current, False) \<and> ow_BindingRevision released = 2 \<and>
     \<not> ownership_Matches current ''alice'' ''home'' (b64_encode (replicate 16 2)) 1"
proof -
  define T where "T = claim_example_bound\<lparr>cl_owners := [(''dev-1'',
      \<lparr>oe_Ownership = claim_example_owner\<lparr>ow_BindingRevision := 2\<rparr>, oe_active = False\<rparr>)]\<rparr>"
  have T: "claim_Release claim_example_bound ''alice'' ''home'' ''dev-1'' (3 * second) =
      (Inr (claim_example_owner\<lparr>ow_BindingRevision := 2\<rparr>), T)"
    unfolding T_def claim_Release_def using claim_example_valid
    by (simp add: claim_example_Confirm(2) claim_example_owner_def MaximumBindingRevision_def Let_def word_le_nat_alt)
  have owner: "claim_Owner T ''dev-1'' = Inr (ownership_zero, False)"
    unfolding T_def claim_Owner_def using claim_example_valid by simp
  have "\<not> ownership_Matches ownership_zero (ow_OwnerID claim_example_owner) (ow_TenantID claim_example_owner)
      (ow_BindingID claim_example_owner) (ow_BindingRevision claim_example_owner)"
    using claim_revocation_permanent [OF claim_example_init claim_example_run(2) claim_example_Owner _ rtranclp.rtrancl_refl owner,
        of "3 * second"] T by (simp add: claim_example_owner_def)
  then show ?thesis
    using T owner by (auto simp: claim_example_owner_def)
qed

text \<open>C34. Ownership needs both sides: a \<^verbatim>\<open>Confirm\<close> that makes an unowned device owned is a call for that device, and it
  goes back to a successful \<^verbatim>\<open>Begin\<close> earlier in the run, by exactly the user and in exactly the tenant that own the
  device now, for the same device, with a code of the same SHA-256 digest, whose claim has not expired.\<close>

theorem claim_binds_claimant:
  assumes "claim_init S0" and "claim_any_step\<^sup>*\<^sup>* S0 S" and "claim_Confirm S d code now = (res, T)"
    and "claim_Owner T dev = Inr (o', True)" and "claim_Owner S dev \<noteq> Inr (o', True)"
  shows "d = dev \<and> (\<exists>S1 S2 code' nonce begunAt rec. claim_any_step\<^sup>*\<^sup>* S0 S1 \<and>
    claim_Begin S1 (ow_OwnerID o') (ow_TenantID o') dev code' nonce begunAt = (Inr rec, S2) \<and> claim_any_step\<^sup>*\<^sup>* S2 S \<and>
    claimDigest code' = claimDigest code \<and> now < cr_ExpiresAt rec)"
proof -
  have wf: "claim_wf S" by (rule dc.reachable_inv [OF assms(1,2)])
  from wf assms(3) show ?thesis
  proof (cases rule: claim_Confirm_owners)
    case same
    then show ?thesis using assms(4,5) by (simp add: claim_Owner_active)
  next
    case (bound i r e)
    have dev: "d = dev"
      using assms(4,5) bound(1) by (auto simp: claim_Owner_active split: if_splits)
    then have "ow_OwnerID o' = cs_userID r" "ow_TenantID o' = cs_tenantID r"
      using assms(4) bound by (auto simp: claim_Owner_active)
    with claim_record_begun [OF assms(1,2) bound(3)] bound(4-6) dev show ?thesis by metis
  qed
qed

theorem claim_binds_claimant_witness:
  "claim_Owner claim_example_begun ''dev-1'' = Inr (ownership_zero, False) \<and>
   claim_Owner claim_example_bound ''dev-1'' = Inr (claim_example_owner, True) \<and>
   (\<exists>S1 S2 code' nonce begunAt rec. claim_Begin S1 ''alice'' ''home'' ''dev-1'' code' nonce begunAt = (Inr rec, S2) \<and>
      claim_any_step\<^sup>*\<^sup>* S2 claim_example_begun \<and> claimDigest code' = claimDigest claim_example_code)"
proof -
  have none: "claim_Owner claim_example_begun ''dev-1'' = Inr (ownership_zero, False)"
    using claim_example_valid(5) by (simp add: claim_Owner_def claim_example_begun_eq)
  have "ow_OwnerID claim_example_owner = ''alice''" "ow_TenantID claim_example_owner = ''home''"
    by (simp_all add: claim_example_owner_def)
  with claim_binds_claimant [OF claim_example_init claim_example_run(1) claim_example_Confirm(1) claim_example_Owner] none
  have "\<exists>S1 S2 code' nonce begunAt rec. claim_Begin S1 ''alice'' ''home'' ''dev-1'' code' nonce begunAt = (Inr rec, S2) \<and>
      claim_any_step\<^sup>*\<^sup>* S2 claim_example_begun \<and> claimDigest code' = claimDigest claim_example_code"
    by (metis Inr_inject prod.inject)
  with none claim_example_Owner show ?thesis by blast
qed

text \<open>C35. Pairing works: after a successful \<^verbatim>\<open>Begin\<close>, presenting the same code on the device before the
  claim expires succeeds when the device has no active owner (and its revision counter is not
  exhausted) and the random source delivers a binding ID that is not in use: \<^verbatim>\<open>Confirm\<close> answers with the
  same request, bound, and \<^verbatim>\<open>Owner\<close> then reports the user and tenant that began the claim.\<close>

theorem claim_Begin_then_Confirm:
  assumes "claim_init S0" and "claim_any_step\<^sup>*\<^sup>* S0 S"
    and "claim_Begin S u t dev code nonce now = (Inr rec, T)"
    and "now' \<noteq> 0" and "now' < cr_ExpiresAt rec"
    and "\<And>e. map_of (cl_owners T) dev = Some e \<Longrightarrow>
      \<not> oe_active e \<and> ow_BindingRevision (oe_Ownership e) < MaximumBindingRevision"
    and "read_full 16 (cl_random T) = Some (raw, rest)"
    and "\<forall>e \<in> snd ` set (cl_owners T). ow_BindingID (oe_Ownership e) \<noteq> b64_encode raw"
  shows "\<exists>U o'. claim_Confirm T dev code now' =
      (Inr \<lparr>cr_RequestID = cr_RequestID rec, cr_DeviceID = dev, cr_Status = StatusBound,
        cr_ExpiresAt = cr_ExpiresAt rec\<rparr>, U) \<and>
    claim_Owner U dev = Inr (o', True) \<and> ow_OwnerID o' = u \<and> ow_TenantID o' = t \<and> ow_BindingID o' = b64_encode raw"
proof -
  have wf: "claim_wf T"
    using claim_Begin_wf [OF dc.reachable_inv [OF assms(1,2)] assms(3)] .
  from claim_Begin_Inr [OF dc.reachable_inv [OF assms(1,2)] assms(3)] obtain i r where
    valid: "ValidIdentifier dev 64" "ValidClaimCode code"
    and r: "map_of (cl_byDigest T) (claimDigest code) = Some i" "map_of (cl_records T) i = Some r"
      "cs_userID r = u" "cs_tenantID r = t" "cs_deviceID r = dev" "cs_requestID r = cr_RequestID rec"
      "cs_expiresAt r = cr_ExpiresAt rec" by blast
  let ?C = "claim_cleanup T now'"
  have C: "map_of (cl_byDigest ?C) (claimDigest code) = Some i" "map_of (cl_records ?C) i = Some r"
    using r assms(5) claim_wfD(1) [OF wf] by (simp_all add: claim_cleanup_lookup [OF wf] claim_kept_def)
  have "claim_newCanonicalID 4 16 (\<lambda>c. list_ex (\<lambda>(_, owner). ow_BindingID (oe_Ownership owner) = c) (cl_owners T)) (cl_random T) =
      (Inr (b64_encode raw), rest)"
    using assms(7,8) by (auto simp: numeral_eq_Suc list_ex_iff)
  then obtain e U where bind: "claim_bind ?C dev r = (Inr (), U)" "map_of (cl_owners U) dev = Some e"
      "oe_active e" "ow_OwnerID (oe_Ownership e) = u" "ow_TenantID (oe_Ownership e) = t"
      "ow_BindingID (oe_Ownership e) = b64_encode raw"
    using assms(6) r(3,4) by (cases "map_of (cl_owners T) dev") (auto simp: claim_bind_def Let_def simp flip: not_le)
  have free: "\<not> claim_owned_by_other ?C dev (cs_userID r) (cs_tenantID r)"
    using assms(6) by (auto simp: claim_owned_by_other_def split: option.splits)
  have "claim_Confirm T dev code now' = (Inr (claim_publicRecord (r\<lparr>cs_status := StatusBound\<rparr>) now'),
      U\<lparr>cl_records := AList.update i (r\<lparr>cs_status := StatusBound\<rparr>) (cl_records U)\<rparr>)"
    using valid assms(4-6) C r(5,7) free bind(1)
    by (auto simp: claim_Confirm_def Let_def split: option.splits)
  then show ?thesis
    using valid bind(2-6) r(5-7) assms(5)
    by (auto simp: claim_publicRecord_def claim_Owner_active)
qed

theorem claim_Begin_then_Confirm_witness:
  "\<exists>U o'. claim_Confirm claim_example_begun ''dev-1'' claim_example_code (2 * second) =
      (Inr \<lparr>cr_RequestID = b64_encode (replicate 16 1), cr_DeviceID = ''dev-1'', cr_Status = StatusBound,
        cr_ExpiresAt = 61 * second\<rparr>, U) \<and>
    claim_Owner U ''dev-1'' = Inr (o', True) \<and> ow_OwnerID o' = ''alice'' \<and> ow_TenantID o' = ''home''"
proof -
  have begun: "claim_Begin claim_example_store ''alice'' ''home'' ''dev-1'' claim_example_code claim_example_nonce second =
    (Inr \<lparr>cr_RequestID = b64_encode (replicate 16 1), cr_DeviceID = ''dev-1'', cr_Status = StatusPending,
       cr_ExpiresAt = 61 * second\<rparr>, claim_example_begun)"
    by (simp add: claim_example_begun_def claim_example_Begin)
  show ?thesis
    using claim_Begin_then_Confirm [OF claim_example_init rtranclp.rtrancl_refl begun, of "2 * second" "replicate 16 2" "[]"]
    by (auto simp: claim_example_begun_eq read_full_def)
qed

text \<open>C36. A claim request cannot be replayed: once a \<^verbatim>\<open>Begin\<close> has succeeded, every further \<^verbatim>\<open>Begin\<close> by the
  same user in the same tenant with the same nonce is refused as a replay, for any device and
  code and whatever calls lie in between, as long as the clock readings stay before the end of the
  nonce's lifetime.\<close>

theorem claim_nonce_single_use:
  assumes "claim_init S0" and "claim_any_step\<^sup>*\<^sup>* S0 S"
    and "claim_Begin S u t dev code nonce now = (Inr rec, T)"
    and "(\<lambda>A B. \<exists>t' < now + cl_ttl S. claim_step t' A B)\<^sup>*\<^sup>* T U"
    and "ValidIdentifier dev' 64" and "ValidClaimCode code'" and "now' \<noteq> 0" and "now' < now + cl_ttl S"
  shows "fst (claim_Begin U u t dev' code' nonce now') = Inl ClaimReplay"
proof -
  let ?k = "claim_nonceKey t u nonce"
  have wf: "claim_wf S" by (rule dc.reachable_inv [OF assms(1,2)])
  have T: "claim_wf T" "map_of (cl_appNonces T) ?k = Some (now + cl_ttl S)"
    using claim_Begin_wf [OF wf assms(3)] assms(3)
    by (auto elim!: claim_Begin_cases simp: claim_noted_def Let_def)
  have "claim_wf U \<and> map_of (cl_appNonces U) ?k = Some (now + cl_ttl S)"
    using assms(4)
  proof (induction rule: rtranclp_induct)
    case base
    show ?case using T by blast
  next
    case (step A B)
    then show ?case using claim_step_wf claim_step_nonce by blast
  qed
  moreover have "ValidIdentifier u 128 \<and> ValidIdentifier t 128 \<and> ValidAppNonce nonce"
    using assms(3) by (auto simp: claim_Begin_def split: if_splits)
  ultimately show ?thesis
    using assms(5-8) by (simp add: claim_Begin_def Let_def claim_cleanup_lookup)
qed

theorem claim_nonce_single_use_witness:
  "fst (claim_Begin claim_example_bound ''alice'' ''home'' ''dev-1'' claim_example_code claim_example_nonce (60 * second))
     = Inl ClaimReplay"
proof -
  have begun: "claim_Begin claim_example_store ''alice'' ''home'' ''dev-1'' claim_example_code claim_example_nonce second =
    (Inr \<lparr>cr_RequestID = b64_encode (replicate 16 1), cr_DeviceID = ''dev-1'', cr_Status = StatusPending,
       cr_ExpiresAt = 61 * second\<rparr>, claim_example_begun)"
    by (simp add: claim_example_begun_def claim_example_Begin)
  have ttl: "cl_ttl claim_example_store = minute" by (simp add: claim_example_store_def)
  have "claim_step (2 * second) claim_example_begun claim_example_bound"
    unfolding claim_example_bound_def by (rule claim_step.confirm)
  then have "(\<lambda>A B. \<exists>t' < second + cl_ttl claim_example_store. claim_step t' A B)\<^sup>*\<^sup>* claim_example_begun claim_example_bound"
    by (intro r_into_rtranclp exI [of _ "2 * second"]) (simp add: ttl)
  from claim_nonce_single_use [OF claim_example_init rtranclp.rtrancl_refl begun this claim_example_valid(5,1), of "60 * second"]
  show ?thesis by (simp add: ttl)
qed

text \<open>C37. Every state the store reaches is well formed: maps have unique keys, the digest index points
  to records that carry the digest (so the nil checks of the source never fire), records stand
  under their own request ID, all binding IDs are canonical and pairwise different, binding
  revisions lie between 1 and the maximum, and the nonce table stays within four times the record
  limit.\<close>

theorem claim_store_invariant:
  assumes "claim_newStore ttl maxRecords random = Some S0" and "claim_any_step\<^sup>*\<^sup>* S0 S"
  shows "claim_wf S"
proof -
  have "claim_init S0" unfolding claim_init_def using assms(1) by blast
  then show ?thesis by (rule dc.reachable_inv [OF _ assms(2)])
qed

theorem claim_store_invariant_witness:
  "claim_any_step\<^sup>*\<^sup>* claim_example_store claim_example_bound \<and> cl_owners claim_example_bound \<noteq> [] \<and> claim_wf claim_example_bound"
proof -
  have "claim_newStore minute 10 (replicate 16 1 @ replicate 16 2) = Some claim_example_store"
    by (simp add: claim_newStore_def claim_example_store_def)
  from claim_store_invariant [OF this claim_example_run(2)] show ?thesis
    using claim_example_run(2) by (simp add: claim_example_Confirm(2))
qed

end
