(* ===== verification/ActionConsent.thy ===== *)
theory ActionConsent
  imports GoTime Encoding "HOL-Library.List_Lexorder" "HOL-Library.Char_ord" "HOL-Library.Product_Lexorder"
begin

text \<open>
  \<^verbatim>\<open>internal/actionconsent\<close> (\<^verbatim>\<open>store.go\<close>, \<^verbatim>\<open>wake.go\<close>): a device asks for consent to one exact action
  (\<^verbatim>\<open>Register\<close>), the owner's app decides (\<^verbatim>\<open>Decide\<close>), and the device consumes the decision once
  (\<^verbatim>\<open>Consume\<close>); notification workers lease the wake-up messages (\<^verbatim>\<open>ClaimWake\<close>, \<^verbatim>\<open>AcknowledgeWake\<close>,
  \<^verbatim>\<open>RetryWake\<close>). The theory models the reference store with all its operations. Every operation
  normalises its clock reading to UTC, so instants are wall instants. A decision is the string of the
  source, empty while there is none. Successful calls are recorded in a trace, newest first, against
  which the authorisation property is stated.
\<close>

section \<open>Definitions\<close>

subsection \<open>Data\<close>

datatype consent_error =
    ConsentInvalid | ConsentReplay | ConsentCapacity | ConsentConflict | ConsentNotFound
  | ConsentExpired | ConsentPending

definition DecisionApprove :: string where "DecisionApprove = ''approve''"
definition DecisionDeny :: string where "DecisionDeny = ''deny''"

definition MaximumLifetime :: duration where "MaximumLifetime = 30 * second"

record consent_action =
  ca_IndicatorOn :: bool

record consent_challenge =
  cc_ChallengeID :: string
  cc_DeviceID :: string
  cc_OwnerID :: string
  cc_TenantID :: string
  cc_OwnerRevision :: "64 word"
  cc_SessionID :: string
  cc_RequestID :: "32 word"
  cc_Action :: consent_action
  cc_ExpiresAt :: wall_time

record consent_request =
  cq_ChallengeID :: string
  cq_DeviceID :: string
  cq_OwnerRevision :: "64 word"
  cq_SessionID :: string
  cq_RequestID :: "32 word"
  cq_Action :: consent_action
  cq_Decision :: string

record consent_device_request =
  cd_ChallengeID :: string
  cd_DeviceID :: string
  cd_OwnerRevision :: "64 word"
  cd_SessionID :: string
  cd_RequestID :: "32 word"
  cd_Action :: consent_action

record consent_actor =
  ac_OwnerID :: string
  ac_TenantID :: string
  ac_DeviceID :: string
  ac_OwnerRevision :: "64 word"

record consent_record =
  cn_Challenge :: consent_challenge
  cn_Decision :: string
  cn_DecidedAt :: wall_time
  cn_ConsumedAt :: wall_time

record consent_stored =
  sr_challenge :: consent_challenge
  sr_decision :: string
  sr_decidedAt :: wall_time
  sr_consumedAt :: wall_time

record consent_wake =
  wk_WakeID :: string
  wk_Target :: consent_actor
  wk_ExpiresAt :: wall_time
  wk_Attempts :: "32 word"

record consent_stored_wake =
  sw_wake :: consent_wake
  sw_availableAt :: wall_time
  sw_claimedBy :: string
  sw_leaseUntil :: wall_time

record consent_store =
  co_maxRecords :: int
  co_records :: "(string, consent_stored) gomap"
  co_wakes :: "(string, consent_stored_wake) gomap"

definition consent_NewStore :: "int \<Rightarrow> consent_store option" where
  "consent_NewStore maxRecords =
     (if maxRecords < 1 \<or> maxRecords > 100000 then None
      else Some \<lparr>co_maxRecords = maxRecords, co_records = [], co_wakes = []\<rparr>)"

subsection \<open>Validation\<close>

definition ValidChallengeID :: "string \<Rightarrow> bool" where
  "ValidChallengeID value = canonical_bytes value 16"

definition ValidChallenge :: "consent_challenge \<Rightarrow> wall_time \<Rightarrow> bool" where
  "ValidChallenge c now =
     (if now = 0 \<or> \<not> ValidChallengeID (cc_ChallengeID c) \<or>
         \<not> ValidIdentifier (cc_DeviceID c) 64 \<or> \<not> ValidIdentifier (cc_OwnerID c) 128 \<or>
         \<not> ValidIdentifier (cc_TenantID c) 128 \<or> \<not> ValidBindingRevision (cc_OwnerRevision c) \<or>
         \<not> ValidIdentifier (cc_SessionID c) 64 \<or> cc_RequestID c = 0 \<or> cc_ExpiresAt c = 0
      then False
      else let lifetime = saturate64 (cc_ExpiresAt c - now)
           in lifetime > 0 \<and> lifetime \<le> MaximumLifetime)"

definition validDecision :: "string \<Rightarrow> bool" where
  "validDecision decision \<longleftrightarrow> decision = DecisionApprove \<or> decision = DecisionDeny"

definition consent_validActor :: "consent_actor \<Rightarrow> bool" where
  "consent_validActor a \<longleftrightarrow>
     ValidIdentifier (ac_OwnerID a) 128 \<and> ValidIdentifier (ac_TenantID a) 128 \<and>
     ValidIdentifier (ac_DeviceID a) 64 \<and> ValidBindingRevision (ac_OwnerRevision a)"

definition MaximumWakeLease :: duration where "MaximumWakeLease = 10 * second"
definition MaximumWakeRetry :: duration where "MaximumWakeRetry = 5 * second"
definition minimumWakeLease :: duration where "minimumWakeLease = 100 * millisecond"
definition maximumWakeAttempts :: "32 word" where "maximumWakeAttempts = 100000"

definition validWakeWorker :: "string \<Rightarrow> bool" where
  "validWakeWorker workerID = ValidIdentifier workerID 64"

definition validWakeLease :: "duration \<Rightarrow> bool" where
  "validWakeLease lease \<longleftrightarrow> lease \<ge> minimumWakeLease \<and> lease \<le> MaximumWakeLease"

definition validWakeRetry :: "duration \<Rightarrow> bool" where
  "validWakeRetry retryAfter \<longleftrightarrow> retryAfter \<ge> 0 \<and> retryAfter \<le> MaximumWakeRetry"

definition wakeFromChallenge :: "consent_challenge \<Rightarrow> consent_wake" where
  "wakeFromChallenge c =
     \<lparr>wk_WakeID = cc_ChallengeID c,
      wk_Target = \<lparr>ac_OwnerID = cc_OwnerID c, ac_TenantID = cc_TenantID c,
        ac_DeviceID = cc_DeviceID c, ac_OwnerRevision = cc_OwnerRevision c\<rparr>,
      wk_ExpiresAt = cc_ExpiresAt c, wk_Attempts = 0\<rparr>"

subsection \<open>Operations\<close>

definition consent_same_request :: "consent_challenge \<Rightarrow> consent_challenge \<Rightarrow> bool" where
  "consent_same_request c d \<longleftrightarrow> cc_DeviceID c = cc_DeviceID d \<and> cc_SessionID c = cc_SessionID d \<and>
     cc_RequestID c = cc_RequestID d"

definition consent_Register :: "consent_store \<Rightarrow> consent_challenge \<Rightarrow> wall_time \<Rightarrow> consent_error option \<times> consent_store" where
  "consent_Register S c now =
     (if \<not> ValidChallenge c now then (Some ConsentInvalid, S)
      else if map_of (co_records S) (cc_ChallengeID c) \<noteq> None then (Some ConsentConflict, S)
      else if list_ex (\<lambda>(_, existing). consent_same_request (sr_challenge existing) c) (co_records S)
      then (Some ConsentConflict, S)
      else if int (length (co_records S)) \<ge> co_maxRecords S then (Some ConsentCapacity, S)
      else (None, S\<lparr>co_records := AList.update (cc_ChallengeID c)
                \<lparr>sr_challenge = c, sr_decision = [], sr_decidedAt = 0, sr_consumedAt = 0\<rparr> (co_records S),
              co_wakes := AList.update (cc_ChallengeID c)
                \<lparr>sw_wake = wakeFromChallenge c, sw_availableAt = now, sw_claimedBy = [], sw_leaseUntil = 0\<rparr>
                (co_wakes S)\<rparr>))"

text \<open>One iteration of the loop of \<^verbatim>\<open>ClaimWake\<close>: the wake table, from which dead entries are deleted,
  and the entry selected so far.\<close>

definition consent_claim_one ::
  "(string, consent_stored) gomap \<Rightarrow> wall_time \<Rightarrow> string \<times> consent_stored_wake \<Rightarrow>
   (string, consent_stored_wake) gomap \<times> (string \<times> consent_stored_wake) option \<Rightarrow>
   (string, consent_stored_wake) gomap \<times> (string \<times> consent_stored_wake) option" where
  "consent_claim_one records now e acc =
     (case (e, acc) of ((wakeID, candidate), (wakes, selected)) \<Rightarrow>
        if (case map_of records wakeID of None \<Rightarrow> True | Some r \<Rightarrow> sr_decision r \<noteq> []) \<or>
           \<not> wk_ExpiresAt (sw_wake candidate) > now
        then (AList.delete wakeID wakes, selected)
        else if sw_availableAt candidate > now \<or>
                (sw_claimedBy candidate \<noteq> [] \<and> sw_leaseUntil candidate > now)
        then (wakes, selected)
        else (wakes,
          (case selected of
             None \<Rightarrow> Some (wakeID, candidate)
           | Some (wakeID', s) \<Rightarrow>
               if wk_ExpiresAt (sw_wake candidate) < wk_ExpiresAt (sw_wake s) \<or>
                  (wk_ExpiresAt (sw_wake candidate) = wk_ExpiresAt (sw_wake s) \<and>
                   wk_WakeID (sw_wake candidate) < wk_WakeID (sw_wake s))
               then Some (wakeID, candidate) else selected)))"

definition consent_ClaimWake ::
  "consent_store \<Rightarrow> string \<Rightarrow> wall_time \<Rightarrow> duration \<Rightarrow> (consent_error + consent_wake option) \<times> consent_store" where
  "consent_ClaimWake S workerID now lease =
     (if now = 0 \<or> \<not> validWakeWorker workerID \<or> \<not> validWakeLease lease then (Inl ConsentInvalid, S)
      else case fold (consent_claim_one (co_records S) now) (co_wakes S) (co_wakes S, None) of
        (wakes, None) \<Rightarrow> (Inr None, S\<lparr>co_wakes := wakes\<rparr>)
      | (wakes, Some (wakeID, selected)) \<Rightarrow>
          if wk_Attempts (sw_wake selected) \<ge> maximumWakeAttempts
          then (Inr None, S\<lparr>co_wakes := AList.delete (wk_WakeID (sw_wake selected)) wakes\<rparr>)
          else
            let wake = (sw_wake selected)\<lparr>wk_Attempts := wk_Attempts (sw_wake selected) + 1\<rparr>
            in (Inr (Some wake),
                S\<lparr>co_wakes := AList.update wakeID
                   (selected\<lparr>sw_claimedBy := workerID, sw_leaseUntil := now + lease, sw_wake := wake\<rparr>) wakes\<rparr>))"

definition consent_AcknowledgeWake ::
  "consent_store \<Rightarrow> string \<Rightarrow> string \<Rightarrow> wall_time \<Rightarrow> consent_error option \<times> consent_store" where
  "consent_AcknowledgeWake S workerID wakeID now =
     (if now = 0 \<or> \<not> validWakeWorker workerID \<or> \<not> ValidChallengeID wakeID then (Some ConsentInvalid, S)
      else case map_of (co_wakes S) wakeID of
        None \<Rightarrow> (Some ConsentNotFound, S)
      | Some wake \<Rightarrow>
          if \<not> wk_ExpiresAt (sw_wake wake) > now
          then (Some ConsentExpired, S\<lparr>co_wakes := AList.delete wakeID (co_wakes S)\<rparr>)
          else if sw_claimedBy wake \<noteq> workerID \<or> \<not> sw_leaseUntil wake > now then (Some ConsentConflict, S)
          else (None, S\<lparr>co_wakes := AList.delete wakeID (co_wakes S)\<rparr>))"

definition consent_RetryWake ::
  "consent_store \<Rightarrow> string \<Rightarrow> string \<Rightarrow> wall_time \<Rightarrow> duration \<Rightarrow> consent_error option \<times> consent_store" where
  "consent_RetryWake S workerID wakeID now retryAfter =
     (if now = 0 \<or> \<not> validWakeWorker workerID \<or> \<not> ValidChallengeID wakeID \<or> \<not> validWakeRetry retryAfter
      then (Some ConsentInvalid, S)
      else case map_of (co_wakes S) wakeID of
        None \<Rightarrow> (Some ConsentNotFound, S)
      | Some wake \<Rightarrow>
          if sw_claimedBy wake \<noteq> workerID \<or> \<not> sw_leaseUntil wake > now then (Some ConsentConflict, S)
          else
            let availableAt = now + retryAfter in
            if \<not> wk_ExpiresAt (sw_wake wake) > availableAt
            then (Some ConsentExpired, S\<lparr>co_wakes := AList.delete wakeID (co_wakes S)\<rparr>)
            else (None, S\<lparr>co_wakes := AList.update wakeID
               (wake\<lparr>sw_availableAt := availableAt, sw_claimedBy := [], sw_leaseUntil := 0\<rparr>) (co_wakes S)\<rparr>))"

definition consent_is_pending :: "consent_actor \<Rightarrow> wall_time \<Rightarrow> consent_stored \<Rightarrow> bool" where
  "consent_is_pending a now r \<longleftrightarrow>
     \<not> (sr_decision r \<noteq> [] \<or> sr_consumedAt r \<noteq> 0 \<or> \<not> cc_ExpiresAt (sr_challenge r) > now \<or>
        cc_OwnerID (sr_challenge r) \<noteq> ac_OwnerID a \<or> cc_TenantID (sr_challenge r) \<noteq> ac_TenantID a \<or>
        cc_DeviceID (sr_challenge r) \<noteq> ac_DeviceID a \<or>
        cc_OwnerRevision (sr_challenge r) \<noteq> ac_OwnerRevision a)"

definition consent_sooner :: "consent_challenge \<Rightarrow> consent_challenge \<Rightarrow> bool" where
  "consent_sooner c d \<longleftrightarrow> cc_ExpiresAt c < cc_ExpiresAt d \<or>
     (cc_ExpiresAt c = cc_ExpiresAt d \<and> cc_ChallengeID c < cc_ChallengeID d)"

definition consent_pending_one ::
  "consent_actor \<Rightarrow> wall_time \<Rightarrow> string \<times> consent_stored \<Rightarrow> consent_stored option \<Rightarrow> consent_stored option" where
  "consent_pending_one a now e selected =
     (case e of (_, candidate) \<Rightarrow>
        if \<not> consent_is_pending a now candidate then selected
        else case selected of
          None \<Rightarrow> Some candidate
        | Some s \<Rightarrow> if consent_sooner (sr_challenge candidate) (sr_challenge s) then Some candidate else selected)"

definition consent_Pending :: "consent_store \<Rightarrow> consent_actor \<Rightarrow> wall_time \<Rightarrow> consent_error + consent_record option" where
  "consent_Pending S a now =
     (if now = 0 \<or> \<not> consent_validActor a then Inl ConsentInvalid
      else case fold (consent_pending_one a now) (co_records S) None of
        None \<Rightarrow> Inr None
      | Some selected \<Rightarrow>
          Inr (Some \<lparr>cn_Challenge = sr_challenge selected, cn_Decision = [], cn_DecidedAt = 0, cn_ConsumedAt = 0\<rparr>))"

definition consent_record_of :: "consent_stored \<Rightarrow> consent_record" where
  "consent_record_of r = \<lparr>cn_Challenge = sr_challenge r, cn_Decision = sr_decision r,
     cn_DecidedAt = sr_decidedAt r, cn_ConsumedAt = sr_consumedAt r\<rparr>"

definition consent_Decide ::
  "consent_store \<Rightarrow> consent_actor \<Rightarrow> consent_request \<Rightarrow> wall_time \<Rightarrow> (consent_error + consent_record) \<times> consent_store" where
  "consent_Decide S a q now =
     (if now = 0 \<or> \<not> ValidIdentifier (ac_OwnerID a) 128 \<or> \<not> ValidIdentifier (ac_TenantID a) 128 \<or>
         \<not> ValidIdentifier (ac_DeviceID a) 64 \<or> \<not> ValidBindingRevision (ac_OwnerRevision a) \<or>
         \<not> ValidChallengeID (cq_ChallengeID q) \<or> \<not> ValidIdentifier (cq_DeviceID q) 64 \<or>
         \<not> ValidBindingRevision (cq_OwnerRevision q) \<or> \<not> ValidIdentifier (cq_SessionID q) 64 \<or>
         cq_RequestID q = 0 \<or> \<not> validDecision (cq_Decision q)
      then (Inl ConsentInvalid, S)
      else case map_of (co_records S) (cq_ChallengeID q) of
        None \<Rightarrow> (Inl ConsentNotFound, S)
      | Some r \<Rightarrow>
          if sr_decision r \<noteq> [] then (Inl ConsentReplay, S)
          else if \<not> cc_ExpiresAt (sr_challenge r) > now then (Inl ConsentExpired, S)
          else
            let c = sr_challenge r in
            if ac_OwnerID a \<noteq> cc_OwnerID c \<or> ac_TenantID a \<noteq> cc_TenantID c \<or>
               ac_DeviceID a \<noteq> cc_DeviceID c \<or> ac_OwnerRevision a \<noteq> cc_OwnerRevision c \<or>
               cq_DeviceID q \<noteq> cc_DeviceID c \<or> cq_OwnerRevision q \<noteq> cc_OwnerRevision c \<or>
               cq_SessionID q \<noteq> cc_SessionID c \<or> cq_RequestID q \<noteq> cc_RequestID c \<or>
               cq_Action q \<noteq> cc_Action c
            then (Inl ConsentConflict, S)
            else
              let r' = r\<lparr>sr_decision := cq_Decision q, sr_decidedAt := now\<rparr>
              in (Inr (consent_record_of r'),
                  S\<lparr>co_records := AList.update (cq_ChallengeID q) r' (co_records S)\<rparr>))"

definition consent_Consume ::
  "consent_store \<Rightarrow> consent_device_request \<Rightarrow> wall_time \<Rightarrow> (consent_error + consent_record) \<times> consent_store" where
  "consent_Consume S q now =
     (if now = 0 \<or> \<not> ValidChallengeID (cd_ChallengeID q) \<or> \<not> ValidIdentifier (cd_DeviceID q) 64 \<or>
         \<not> ValidBindingRevision (cd_OwnerRevision q) \<or> \<not> ValidIdentifier (cd_SessionID q) 64 \<or>
         cd_RequestID q = 0
      then (Inl ConsentInvalid, S)
      else case map_of (co_records S) (cd_ChallengeID q) of
        None \<Rightarrow> (Inl ConsentNotFound, S)
      | Some r \<Rightarrow>
          if \<not> cc_ExpiresAt (sr_challenge r) > now then (Inl ConsentExpired, S)
          else if sr_consumedAt r \<noteq> 0 then (Inl ConsentReplay, S)
          else
            let c = sr_challenge r in
            if cd_DeviceID q \<noteq> cc_DeviceID c \<or> cd_OwnerRevision q \<noteq> cc_OwnerRevision c \<or>
               cd_SessionID q \<noteq> cc_SessionID c \<or> cd_RequestID q \<noteq> cc_RequestID c \<or>
               cd_Action q \<noteq> cc_Action c
            then (Inl ConsentConflict, S)
            else if sr_decision r = [] then (Inl ConsentPending, S)
            else
              let r' = r\<lparr>sr_consumedAt := now\<rparr>
              in (Inr (consent_record_of r'),
                  S\<lparr>co_records := AList.update (cd_ChallengeID q) r' (co_records S)\<rparr>))"

subsection \<open>Traces\<close>

datatype consent_event =
    Registered consent_challenge wall_time
  | Decided consent_actor consent_request wall_time
  | Consumed consent_device_request wall_time consent_record

text \<open>The traces of the store: the successful registrations, decisions and consumptions so far, newest
  first, and the state they have led to. Calls that fail, and the wake operations, change the state
  at most and leave no event.\<close>

inductive consent_trace :: "consent_event list \<Rightarrow> consent_store \<Rightarrow> bool" where
  start: "consent_NewStore n = Some S \<Longrightarrow> consent_trace [] S"
| register: "consent_trace evs S \<Longrightarrow> consent_Register S c now = (None, T) \<Longrightarrow>
    consent_trace (Registered c now # evs) T"
| register_fails: "consent_trace evs S \<Longrightarrow> consent_Register S c now = (Some e, T) \<Longrightarrow> consent_trace evs T"
| decide: "consent_trace evs S \<Longrightarrow> consent_Decide S a q now = (Inr rec, T) \<Longrightarrow>
    consent_trace (Decided a q now # evs) T"
| decide_fails: "consent_trace evs S \<Longrightarrow> consent_Decide S a q now = (Inl e, T) \<Longrightarrow> consent_trace evs T"
| consume: "consent_trace evs S \<Longrightarrow> consent_Consume S d now = (Inr rec, T) \<Longrightarrow>
    consent_trace (Consumed d now rec # evs) T"
| consume_fails: "consent_trace evs S \<Longrightarrow> consent_Consume S d now = (Inl e, T) \<Longrightarrow> consent_trace evs T"
| claim: "consent_trace evs S \<Longrightarrow> consent_ClaimWake S w now lease = (r, T) \<Longrightarrow> consent_trace evs T"
| acknowledge: "consent_trace evs S \<Longrightarrow> consent_AcknowledgeWake S w i now = (r', T) \<Longrightarrow> consent_trace evs T"
| retry: "consent_trace evs S \<Longrightarrow> consent_RetryWake S w i now d = (r', T) \<Longrightarrow> consent_trace evs T"

text \<open>One call, labelled with the worker that makes it (empty for devices and apps) and its clock
  reading.\<close>

inductive consent_step :: "string \<Rightarrow> wall_time \<Rightarrow> consent_store \<Rightarrow> consent_store \<Rightarrow> bool" where
  register: "consent_step [] now S (snd (consent_Register S c now))"
| decide: "consent_step [] now S (snd (consent_Decide S a q now))"
| consume: "consent_step [] now S (snd (consent_Consume S d now))"
| claim: "consent_step w now S (snd (consent_ClaimWake S w now lease))"
| acknowledge: "consent_step w now S (snd (consent_AcknowledgeWake S w i now))"
| retry: "consent_step w now S (snd (consent_RetryWake S w i now delay))"

abbreviation consent_any_step :: "consent_store \<Rightarrow> consent_store \<Rightarrow> bool" where
  "consent_any_step S T \<equiv> \<exists>w now. consent_step w now S T"

definition consent_init :: "consent_store \<Rightarrow> bool" where
  "consent_init S \<longleftrightarrow> (\<exists>n. consent_NewStore n = Some S)"

text \<open>The app's request names the challenge exactly and comes from its owner; the device's request
  names it exactly.\<close>

definition consent_authorises :: "consent_actor \<Rightarrow> consent_request \<Rightarrow> consent_challenge \<Rightarrow> bool" where
  "consent_authorises a q c \<longleftrightarrow>
     ac_OwnerID a = cc_OwnerID c \<and> ac_TenantID a = cc_TenantID c \<and> ac_DeviceID a = cc_DeviceID c \<and>
     ac_OwnerRevision a = cc_OwnerRevision c \<and> cq_ChallengeID q = cc_ChallengeID c \<and>
     cq_DeviceID q = cc_DeviceID c \<and> cq_OwnerRevision q = cc_OwnerRevision c \<and>
     cq_SessionID q = cc_SessionID c \<and> cq_RequestID q = cc_RequestID c \<and> cq_Action q = cc_Action c"

definition consent_presents :: "consent_device_request \<Rightarrow> consent_challenge \<Rightarrow> bool" where
  "consent_presents d c \<longleftrightarrow>
     cd_ChallengeID d = cc_ChallengeID c \<and> cd_DeviceID d = cc_DeviceID c \<and>
     cd_OwnerRevision d = cc_OwnerRevision c \<and> cd_SessionID d = cc_SessionID c \<and>
     cd_RequestID d = cc_RequestID c \<and> cd_Action d = cc_Action c"

text \<open>The invariant of the records, and the invariant that ties them to the trace.\<close>

definition consent_stored_ok :: "string \<Rightarrow> consent_stored \<Rightarrow> bool" where
  "consent_stored_ok i r \<longleftrightarrow> cc_ChallengeID (sr_challenge r) = i \<and>
     (sr_decision r = [] \<longleftrightarrow> sr_decidedAt r = 0) \<and>
     (sr_decision r \<noteq> [] \<longrightarrow> validDecision (sr_decision r) \<and> sr_decidedAt r < cc_ExpiresAt (sr_challenge r)) \<and>
     (sr_consumedAt r \<noteq> 0 \<longrightarrow> sr_decision r \<noteq> [] \<and> sr_consumedAt r < cc_ExpiresAt (sr_challenge r))"

definition consent_wake_ok :: "(string, consent_stored) gomap \<Rightarrow> string \<Rightarrow> consent_stored_wake \<Rightarrow> bool" where
  "consent_wake_ok records i w \<longleftrightarrow>
     (\<exists>r. map_of records i = Some r \<and>
        wk_WakeID (sw_wake w) = cc_ChallengeID (sr_challenge r) \<and>
        wk_Target (sw_wake w) = wk_Target (wakeFromChallenge (sr_challenge r)) \<and>
        wk_ExpiresAt (sw_wake w) = cc_ExpiresAt (sr_challenge r)) \<and>
     wk_Attempts (sw_wake w) \<le> maximumWakeAttempts"

definition consent_records_ok :: "(string, consent_stored) gomap \<Rightarrow> bool" where
  "consent_records_ok records \<longleftrightarrow> (\<forall>i r. map_of records i = Some r \<longrightarrow> consent_stored_ok i r) \<and>
     (\<forall>i j r r'. map_of records i = Some r \<longrightarrow> map_of records j = Some r' \<longrightarrow>
        consent_same_request (sr_challenge r) (sr_challenge r') \<longrightarrow> i = j)"

definition consent_wakes_ok :: "(string, consent_stored) gomap \<Rightarrow> (string, consent_stored_wake) gomap \<Rightarrow> bool" where
  "consent_wakes_ok records wakes \<longleftrightarrow> (\<forall>i w. map_of wakes i = Some w \<longrightarrow> consent_wake_ok records i w)"

definition consent_wf :: "consent_store \<Rightarrow> bool" where
  "consent_wf S \<longleftrightarrow> wf_map (co_records S) \<and> wf_map (co_wakes S) \<and>
     int (length (co_records S)) \<le> co_maxRecords S \<and>
     consent_records_ok (co_records S) \<and> consent_wakes_ok (co_records S) (co_wakes S)"

definition consent_traced :: "consent_event list \<Rightarrow> string \<Rightarrow> consent_stored \<Rightarrow> bool" where
  "consent_traced evs i r \<longleftrightarrow>
     (\<exists>t. Registered (sr_challenge r) t \<in> set evs) \<and>
     (sr_decision r \<noteq> [] \<longrightarrow>
        (\<exists>a q. Decided a q (sr_decidedAt r) \<in> set evs \<and> cq_Decision q = sr_decision r \<and>
           consent_authorises a q (sr_challenge r))) \<and>
     (sr_consumedAt r = 0 \<longrightarrow> (\<forall>d t rec. Consumed d t rec \<in> set evs \<longrightarrow> cd_ChallengeID d \<noteq> i))"

definition consent_trace_inv :: "consent_event list \<Rightarrow> consent_store \<Rightarrow> bool" where
  "consent_trace_inv evs S \<longleftrightarrow> consent_wf S \<and>
     (\<forall>i r. map_of (co_records S) i = Some r \<longrightarrow> consent_traced evs i r) \<and>
     (\<forall>d t rec. Consumed d t rec \<in> set evs \<longrightarrow> map_of (co_records S) (cd_ChallengeID d) \<noteq> None)"

section \<open>Lemmas\<close>

subsection \<open>What the operations do\<close>

lemma consent_Register_ok:
  assumes "consent_Register S c now = (None, T)"
  shows "ValidChallenge c now" and "map_of (co_records S) (cc_ChallengeID c) = None"
    and "\<And>i r. map_of (co_records S) i = Some r \<Longrightarrow> \<not> consent_same_request (sr_challenge r) c"
    and "int (length (co_records S)) < co_maxRecords S"
    and "T = S\<lparr>co_records := AList.update (cc_ChallengeID c)
                \<lparr>sr_challenge = c, sr_decision = [], sr_decidedAt = 0, sr_consumedAt = 0\<rparr> (co_records S),
              co_wakes := AList.update (cc_ChallengeID c)
                \<lparr>sw_wake = wakeFromChallenge c, sw_availableAt = now, sw_claimedBy = [], sw_leaseUntil = 0\<rparr>
                (co_wakes S)\<rparr>"
  using assms by (auto simp: consent_Register_def list_ex_iff split: if_splits dest: map_of_SomeD)

lemma consent_Register_fails: "consent_Register S c now = (Some e, T) \<Longrightarrow> T = S"
  by (auto simp: consent_Register_def split: if_splits)

lemma consent_Decide_ok:
  assumes "consent_Decide S a q now = (Inr rec, T)"
  shows "now \<noteq> 0" and "validDecision (cq_Decision q)" and "consent_validActor a"
    and "\<exists>r. map_of (co_records S) (cq_ChallengeID q) = Some r \<and> sr_decision r = [] \<and>
      now < cc_ExpiresAt (sr_challenge r) \<and>
      (cq_ChallengeID q = cc_ChallengeID (sr_challenge r) \<longrightarrow> consent_authorises a q (sr_challenge r)) \<and>
      rec = consent_record_of (r\<lparr>sr_decision := cq_Decision q, sr_decidedAt := now\<rparr>) \<and>
      T = S\<lparr>co_records := AList.update (cq_ChallengeID q)
        (r\<lparr>sr_decision := cq_Decision q, sr_decidedAt := now\<rparr>) (co_records S)\<rparr>"
  using assms
  by (auto simp: consent_Decide_def consent_authorises_def consent_validActor_def Let_def
      split: if_splits option.splits)

lemma consent_Decide_fails: "consent_Decide S a q now = (Inl e, T) \<Longrightarrow> T = S"
  by (auto simp: consent_Decide_def Let_def split: if_splits option.splits)

lemma consent_Consume_ok:
  assumes "consent_Consume S d now = (Inr rec, T)"
  shows "now \<noteq> 0"
    and "\<exists>r. map_of (co_records S) (cd_ChallengeID d) = Some r \<and> sr_decision r \<noteq> [] \<and> sr_consumedAt r = 0 \<and>
      now < cc_ExpiresAt (sr_challenge r) \<and>
      (cd_ChallengeID d = cc_ChallengeID (sr_challenge r) \<longrightarrow> consent_presents d (sr_challenge r)) \<and>
      rec = consent_record_of (r\<lparr>sr_consumedAt := now\<rparr>) \<and>
      T = S\<lparr>co_records := AList.update (cd_ChallengeID d) (r\<lparr>sr_consumedAt := now\<rparr>) (co_records S)\<rparr>"
  using assms
  by (auto simp: consent_Consume_def consent_presents_def Let_def split: if_splits option.splits)

lemma consent_Consume_fails: "consent_Consume S d now = (Inl e, T) \<Longrightarrow> T = S"
  by (auto simp: consent_Consume_def Let_def split: if_splits option.splits)

text \<open>The loop of \<^verbatim>\<open>ClaimWake\<close>: which entries it deletes, and which one it selects.\<close>

definition consent_dead :: "(string, consent_stored) gomap \<Rightarrow> wall_time \<Rightarrow> string \<Rightarrow> consent_stored_wake \<Rightarrow> bool" where
  "consent_dead records now i w \<longleftrightarrow>
     (case map_of records i of None \<Rightarrow> True | Some r \<Rightarrow> sr_decision r \<noteq> []) \<or> \<not> wk_ExpiresAt (sw_wake w) > now"

definition consent_free :: "wall_time \<Rightarrow> consent_stored_wake \<Rightarrow> bool" where
  "consent_free now w \<longleftrightarrow> \<not> sw_availableAt w > now \<and> \<not> (sw_claimedBy w \<noteq> [] \<and> sw_leaseUntil w > now)"

lemma consent_claim_fold:
  "fst (fold (consent_claim_one records now) es acc) =
     fold (\<lambda>(i, w) m. if consent_dead records now i w then AList.delete i m else m) es (fst acc)"
  by (induction es arbitrary: acc)
    (auto simp: consent_claim_one_def consent_dead_def split: prod.splits option.splits)

lemma consent_claim_selected:
  "snd (fold (consent_claim_one records now) es acc) = Some (i, w) \<Longrightarrow>
   snd acc = Some (i, w) \<or> (i, w) \<in> set es \<and> \<not> consent_dead records now i w \<and> consent_free now w"
proof (induction es arbitrary: acc)
  case Nil
  then show ?case by simp
next
  case (Cons e es)
  obtain j v where e: "e = (j, v)" by (cases e)
  obtain wakes sel where acc: "acc = (wakes, sel)" by (cases acc)
  have "snd (consent_claim_one records now e acc) \<in> {sel, Some (j, v)} \<and>
      (snd (consent_claim_one records now e acc) = Some (j, v) \<longrightarrow> sel = Some (j, v) \<or>
        \<not> consent_dead records now j v \<and> consent_free now v)"
    unfolding e acc by (auto simp: consent_claim_one_def consent_dead_def consent_free_def split: option.splits)
  then show ?case
    using Cons.IH [of "consent_claim_one records now e acc"] Cons.prems e acc by fastforce
qed

lemma consent_ClaimWake_records:
  "consent_ClaimWake S w now lease = (r, T) \<Longrightarrow> co_records T = co_records S \<and> co_maxRecords T = co_maxRecords S"
  by (auto simp: consent_ClaimWake_def Let_def split: if_splits prod.splits option.splits)

lemma consent_AcknowledgeWake_records:
  "consent_AcknowledgeWake S w i now = (r, T) \<Longrightarrow> co_records T = co_records S \<and> co_maxRecords T = co_maxRecords S"
  by (auto simp: consent_AcknowledgeWake_def split: if_splits option.splits)

lemma consent_RetryWake_records:
  "consent_RetryWake S w i now d = (r, T) \<Longrightarrow> co_records T = co_records S \<and> co_maxRecords T = co_maxRecords S"
  by (auto simp: consent_RetryWake_def Let_def split: if_splits option.splits)

subsection \<open>The invariant\<close>

lemma consent_wfD:
  assumes "consent_wf S"
  shows "wf_map (co_records S)" and "wf_map (co_wakes S)" and "int (length (co_records S)) \<le> co_maxRecords S"
    and "map_of (co_records S) i = Some r \<Longrightarrow> consent_stored_ok i r"
    and "map_of (co_records S) i = Some r \<Longrightarrow> map_of (co_records S) j = Some r' \<Longrightarrow>
        consent_same_request (sr_challenge r) (sr_challenge r') \<Longrightarrow> i = j"
    and "map_of (co_wakes S) i = Some w \<Longrightarrow> consent_wake_ok (co_records S) i w"
  using assms unfolding consent_wf_def consent_records_ok_def consent_wakes_ok_def by blast+

lemma consent_wf_wakes:
  "consent_wf S \<Longrightarrow> wf_map m \<Longrightarrow> (\<And>i w. map_of m i = Some w \<Longrightarrow> consent_wake_ok (co_records S) i w) \<Longrightarrow>
   consent_wf (S\<lparr>co_wakes := m\<rparr>)"
  by (auto simp: consent_wf_def consent_wakes_ok_def)

text \<open>Updating a record in place.\<close>

lemma consent_wf_record:
  assumes "consent_wf S" and "map_of (co_records S) i = Some r"
    and "sr_challenge r' = sr_challenge r" and "consent_stored_ok i r'"
  shows "consent_wf (S\<lparr>co_records := AList.update i r' (co_records S)\<rparr>)"
proof -
  have wakes: "consent_wake_ok (AList.update i r' (co_records S)) j w" if "map_of (co_wakes S) j = Some w" for j w
    using consent_wfD(6) [OF assms(1) that] assms(2,3) by (auto simp: consent_wake_ok_def)
  have same: "j = k"
    if x: "map_of (AList.update i r' (co_records S)) j = Some x" and y: "map_of (AList.update i r' (co_records S)) k = Some y"
      and xy: "consent_same_request (sr_challenge x) (sr_challenge y)" for j k x y
  proof -
    obtain x' where "map_of (co_records S) j = Some x'" "sr_challenge x' = sr_challenge x"
      using x assms(2,3) by (cases "j = i") auto
    moreover obtain y' where "map_of (co_records S) k = Some y'" "sr_challenge y' = sr_challenge y"
      using y assms(2,3) by (cases "k = i") auto
    ultimately show "j = k" using consent_wfD(5) [OF assms(1)] xy by metis
  qed
  have ok: "consent_stored_ok j x" if "map_of (AList.update i r' (co_records S)) j = Some x" for j x
    using that consent_wfD(4) [OF assms(1)] assms(4) by (auto split: if_splits)
  have records: "consent_records_ok (AList.update i r' (co_records S))"
    unfolding consent_records_ok_def using ok same by blast
  have wakes_ok: "consent_wakes_ok (AList.update i r' (co_records S)) (co_wakes S)"
    unfolding consent_wakes_ok_def using wakes by blast
  have len: "length (AList.update i r' (co_records S)) = length (co_records S)"
    using assms(2) by (rule length_update_old)
  show ?thesis
    using records wakes_ok len consent_wfD(1-3) [OF assms(1)] by (simp add: consent_wf_def)
qed

lemma consent_Register_wf:
  assumes "consent_wf S" and "consent_Register S c now = (None, T)"
  shows "consent_wf T"
proof -
  note reg = consent_Register_ok [OF assms(2)]
  let ?i = "cc_ChallengeID c"
  let ?r = "\<lparr>sr_challenge = c, sr_decision = [], sr_decidedAt = 0, sr_consumedAt = 0\<rparr>"
  let ?rs = "AList.update ?i ?r (co_records S)"
  let ?w = "\<lparr>sw_wake = wakeFromChallenge c, sw_availableAt = now, sw_claimedBy = [], sw_leaseUntil = 0\<rparr>"
  have wakes: "consent_wake_ok ?rs j w" if "map_of (AList.update ?i ?w (co_wakes S)) j = Some w" for j w
  proof (cases "j = ?i")
    case True
    then show ?thesis
      using that by (auto simp: consent_wake_ok_def wakeFromChallenge_def maximumWakeAttempts_def)
  next
    case False
    then show ?thesis
      using that consent_wfD(6) [OF assms(1), of j w] by (auto simp: consent_wake_ok_def)
  qed
  have same: "j = k" if xy: "map_of ?rs j = Some x" "map_of ?rs k = Some y"
      "consent_same_request (sr_challenge x) (sr_challenge y)" for j k x y
  proof (rule ccontr)
    assume "j \<noteq> k"
    then consider "j \<noteq> ?i" "k \<noteq> ?i" | "j = ?i" "k \<noteq> ?i" | "j \<noteq> ?i" "k = ?i" by blast
    then show False
    proof cases
      case 1
      with xy \<open>j \<noteq> k\<close> consent_wfD(5) [OF assms(1), of j x k y] show False by simp
    next
      case 2
      with xy reg(3) [of k y] show False by (auto simp: consent_same_request_def)
    next
      case 3
      with xy reg(3) [of j x] show False by (auto simp: consent_same_request_def)
    qed
  qed
  have ok: "consent_stored_ok j x" if "map_of ?rs j = Some x" for j x
    using that consent_wfD(4) [OF assms(1), of j x] by (auto simp: consent_stored_ok_def split: if_splits)
  have records: "consent_records_ok ?rs"
    unfolding consent_records_ok_def using ok same by blast
  have wakes_ok: "consent_wakes_ok ?rs (AList.update ?i ?w (co_wakes S))"
    unfolding consent_wakes_ok_def using wakes by blast
  show ?thesis
    unfolding reg(5) using records wakes_ok reg(4) consent_wfD(1-2) [OF assms(1)]
    by (simp add: consent_wf_def length_update)
qed

lemma consent_Decide_wf:
  assumes "consent_wf S" and "consent_Decide S a q now = (Inr rec, T)"
  shows "consent_wf T"
proof -
  obtain r where r: "map_of (co_records S) (cq_ChallengeID q) = Some r" "sr_decision r = []"
    "now < cc_ExpiresAt (sr_challenge r)"
    "T = S\<lparr>co_records := AList.update (cq_ChallengeID q) (r\<lparr>sr_decision := cq_Decision q, sr_decidedAt := now\<rparr>) (co_records S)\<rparr>"
    using consent_Decide_ok(4) [OF assms(2)] by blast
  have "cq_Decision q \<noteq> []"
    using consent_Decide_ok(2) [OF assms(2)] by (auto simp: validDecision_def DecisionApprove_def DecisionDeny_def)
  then have "consent_stored_ok (cq_ChallengeID q) (r\<lparr>sr_decision := cq_Decision q, sr_decidedAt := now\<rparr>)"
    using consent_wfD(4) [OF assms(1) r(1)] r(2,3) consent_Decide_ok(1,2) [OF assms(2)]
    by (auto simp: consent_stored_ok_def)
  then show ?thesis
    unfolding r(4) by (intro consent_wf_record [OF assms(1) r(1)]) simp_all
qed

lemma consent_Consume_wf:
  assumes "consent_wf S" and "consent_Consume S d now = (Inr rec, T)"
  shows "consent_wf T"
proof -
  obtain r where r: "map_of (co_records S) (cd_ChallengeID d) = Some r" "sr_decision r \<noteq> []"
    "now < cc_ExpiresAt (sr_challenge r)"
    "T = S\<lparr>co_records := AList.update (cd_ChallengeID d) (r\<lparr>sr_consumedAt := now\<rparr>) (co_records S)\<rparr>"
    using consent_Consume_ok(2) [OF assms(2)] by blast
  have "consent_stored_ok (cd_ChallengeID d) (r\<lparr>sr_consumedAt := now\<rparr>)"
    using consent_wfD(4) [OF assms(1) r(1)] r(2,3) by (auto simp: consent_stored_ok_def)
  then show ?thesis
    unfolding r(4) by (intro consent_wf_record [OF assms(1) r(1)]) simp_all
qed

lemma consent_attempts_next:
  assumes "\<not> a \<ge> maximumWakeAttempts"
  shows "a + 1 \<le> maximumWakeAttempts" and "unat (a + 1) = unat a + 1"
proof -
  have "unat a < 100000" using assms by (simp add: maximumWakeAttempts_def word_le_nat_alt)
  then show "unat (a + 1) = unat a + 1" by (simp add: unat_word_ariths)
  with \<open>unat a < 100000\<close> show "a + 1 \<le> maximumWakeAttempts"
    by (simp add: maximumWakeAttempts_def word_le_nat_alt)
qed

text \<open>The outcomes of \<^verbatim>\<open>ClaimWake\<close>.\<close>

lemma consent_ClaimWake_cases:
  assumes "consent_ClaimWake S workerID now lease = (res, T)" and "wf_map (co_wakes S)"
  defines "live \<equiv> fold (\<lambda>(i, w) m. if consent_dead (co_records S) now i w then AList.delete i m else m) (co_wakes S) (co_wakes S)"
  obtains (invalid) "res = Inl ConsentInvalid" and "T = S"
  | (none) "res = Inr None" and "T = S\<lparr>co_wakes := live\<rparr>"
  | (exhausted) i where "res = Inr None" and "T = S\<lparr>co_wakes := AList.delete i live\<rparr>"
  | (claimed) i w where "map_of (co_wakes S) i = Some w" and "\<not> consent_dead (co_records S) now i w"
      and "consent_free now w" and "\<not> wk_Attempts (sw_wake w) \<ge> maximumWakeAttempts"
      and "validWakeWorker workerID" and "validWakeLease lease"
      and "res = Inr (Some ((sw_wake w)\<lparr>wk_Attempts := wk_Attempts (sw_wake w) + 1\<rparr>))"
      and "T = S\<lparr>co_wakes := AList.update i (w\<lparr>sw_claimedBy := workerID, sw_leaseUntil := now + lease,
         sw_wake := (sw_wake w)\<lparr>wk_Attempts := wk_Attempts (sw_wake w) + 1\<rparr>\<rparr>) live\<rparr>"
proof (cases "now = 0 \<or> \<not> validWakeWorker workerID \<or> \<not> validWakeLease lease")
  case True
  with assms(1) show ?thesis by (intro invalid) (auto simp: consent_ClaimWake_def)
next
  case False
  obtain wakes sel where loop: "fold (consent_claim_one (co_records S) now) (co_wakes S) (co_wakes S, None) = (wakes, sel)"
    by fastforce
  have wakes: "wakes = live"
    using consent_claim_fold [of "co_records S" now "co_wakes S" "(co_wakes S, None)"] by (simp add: loop live_def)
  show ?thesis
  proof (cases sel)
    case None
    with assms(1) False loop wakes show ?thesis by (intro none) (auto simp: consent_ClaimWake_def)
  next
    case (Some x)
    obtain i w where x: "x = (i, w)" by (cases x)
    have "(i, w) \<in> set (co_wakes S)" "\<not> consent_dead (co_records S) now i w" "consent_free now w"
      using consent_claim_selected [of "co_records S" now "co_wakes S" "(co_wakes S, None)" i w] loop Some x by auto
    then have iw: "map_of (co_wakes S) i = Some w" "\<not> consent_dead (co_records S) now i w" "consent_free now w"
      using assms(2) by (simp_all add: map_of_eq_Some_iff)
    show ?thesis
    proof (cases "wk_Attempts (sw_wake w) \<ge> maximumWakeAttempts")
      case True
      with assms(1) False loop Some x wakes show ?thesis
        by (intro exhausted [of "wk_WakeID (sw_wake w)"]) (auto simp: consent_ClaimWake_def)
    next
      case attempts: False
      with assms(1) False loop Some x wakes show ?thesis
        by (intro claimed [OF iw]) (auto simp: consent_ClaimWake_def Let_def)
    qed
  qed
qed

lemma consent_ClaimWake_wf:
  assumes "consent_wf S" and "consent_ClaimWake S workerID now lease = (res, T)"
  shows "consent_wf T"
proof -
  let ?live = "fold (\<lambda>(i, w) m. if consent_dead (co_records S) now i w then AList.delete i m else m) (co_wakes S) (co_wakes S)"
  have live: "wf_map ?live" by (intro wf_map_fold_delete consent_wfD(2) [OF assms(1)])
  have ok: "consent_wake_ok (co_records S) i w" if "map_of ?live i = Some w" for i w
    using that consent_wfD(6) [OF assms(1), of i w]
    by (simp add: map_of_range_delete [OF consent_wfD(2) [OF assms(1)]] split: option.splits if_splits)
  from assms(2) consent_wfD(2) [OF assms(1)] show ?thesis
  proof (cases rule: consent_ClaimWake_cases)
    case invalid
    then show ?thesis using assms(1) by simp
  next
    case none
    then show ?thesis using live ok by (auto intro!: consent_wf_wakes [OF assms(1)])
  next
    case exhausted
    then show ?thesis using live ok by (auto intro!: consent_wf_wakes [OF assms(1)] split: if_splits)
  next
    case (claimed i w)
    have "consent_wake_ok (co_records S) i (w\<lparr>sw_claimedBy := workerID, sw_leaseUntil := now + lease,
         sw_wake := (sw_wake w)\<lparr>wk_Attempts := wk_Attempts (sw_wake w) + 1\<rparr>\<rparr>)"
      using consent_wfD(6) [OF assms(1) claimed(1)] consent_attempts_next(1) [OF claimed(4)]
      by (auto simp: consent_wake_ok_def)
    then show ?thesis
      using live ok claimed(8) by (auto intro!: consent_wf_wakes [OF assms(1)] split: if_splits)
  qed
qed

lemma consent_AcknowledgeWake_wf:
  assumes "consent_wf S" and "consent_AcknowledgeWake S workerID i now = (res, T)"
  shows "consent_wf T"
proof -
  have "T = S \<or> T = S\<lparr>co_wakes := AList.delete i (co_wakes S)\<rparr>"
    using assms(2) by (auto simp: consent_AcknowledgeWake_def split: if_splits option.splits)
  then show ?thesis
    using assms(1) consent_wfD(2,6) [OF assms(1)] by (auto intro!: consent_wf_wakes split: if_splits)
qed

lemma consent_RetryWake_wf:
  assumes "consent_wf S" and "consent_RetryWake S workerID i now d = (res, T)"
  shows "consent_wf T"
proof -
  have "T = S \<or> T = S\<lparr>co_wakes := AList.delete i (co_wakes S)\<rparr> \<or>
      (\<exists>w. map_of (co_wakes S) i = Some w \<and> T = S\<lparr>co_wakes := AList.update i
         (w\<lparr>sw_availableAt := now + d, sw_claimedBy := [], sw_leaseUntil := 0\<rparr>) (co_wakes S)\<rparr>)"
    using assms(2) by (auto simp: consent_RetryWake_def Let_def split: if_splits option.splits)
  moreover have "consent_wake_ok (co_records S) i (w\<lparr>sw_availableAt := now + d, sw_claimedBy := [], sw_leaseUntil := 0\<rparr>)"
    if "map_of (co_wakes S) i = Some w" for w
    using consent_wfD(6) [OF assms(1) that] by (simp add: consent_wake_ok_def)
  ultimately show ?thesis
    using assms(1) consent_wfD(2,6) [OF assms(1)] by (auto intro!: consent_wf_wakes split: if_splits)
qed

lemma consent_trace_inv_same:
  assumes "consent_trace_inv evs S" and "consent_wf T" and "co_records T = co_records S"
  shows "consent_trace_inv evs T"
  using assms by (simp add: consent_trace_inv_def)

lemma consent_init_wf: "consent_init S \<Longrightarrow> consent_wf S"
  by (auto simp: consent_init_def consent_NewStore_def consent_wf_def consent_records_ok_def consent_wakes_ok_def
      split: if_splits)

lemma consent_step_wf:
  assumes "consent_wf S" and "consent_step w now S T"
  shows "consent_wf T"
  using assms(2)
proof cases
  case (register c)
  then show ?thesis
    by (cases "consent_Register S c now"; cases "fst (consent_Register S c now)")
      (auto simp: assms(1) dest: consent_Register_fails consent_Register_wf [OF assms(1)])
next
  case (decide a q)
  then show ?thesis
    by (cases "consent_Decide S a q now"; cases "fst (consent_Decide S a q now)")
      (auto simp: assms(1) dest: consent_Decide_fails consent_Decide_wf [OF assms(1)])
next
  case (consume d)
  then show ?thesis
    by (cases "consent_Consume S d now"; cases "fst (consent_Consume S d now)")
      (auto simp: assms(1) dest: consent_Consume_fails consent_Consume_wf [OF assms(1)])
next
  case claim
  then show ?thesis by (metis consent_ClaimWake_wf [OF assms(1)] prod.collapse)
next
  case acknowledge
  then show ?thesis by (metis consent_AcknowledgeWake_wf [OF assms(1)] prod.collapse)
next
  case retry
  then show ?thesis by (metis consent_RetryWake_wf [OF assms(1)] prod.collapse)
qed

interpretation ac: go_system consent_init consent_any_step consent_wf
  by unfold_locales (auto intro: consent_init_wf consent_step_wf)

subsection \<open>The trace explains the records\<close>

lemma consent_trace_invD:
  assumes "consent_trace_inv evs S"
  shows "consent_wf S" and "map_of (co_records S) i = Some r \<Longrightarrow> consent_traced evs i r"
    and "Consumed d t rec \<in> set evs \<Longrightarrow> map_of (co_records S) (cd_ChallengeID d) \<noteq> None"
  using assms unfolding consent_trace_inv_def by blast+

lemma consent_trace_holds: "consent_trace evs S \<Longrightarrow> consent_trace_inv evs S"
proof (induction rule: consent_trace.induct)
  case (start n S)
  then have "consent_init S" by (auto simp: consent_init_def)
  with start consent_init_wf show ?case
    by (auto simp: consent_trace_inv_def consent_NewStore_def split: if_splits)
next
  case (register evs S c now T)
  note reg = consent_Register_ok [OF register.hyps(2)] and inv = consent_trace_invD [OF register.IH]
  show ?case
    unfolding consent_trace_inv_def
  proof (intro conjI allI impI)
    show "consent_wf T" by (rule consent_Register_wf [OF inv(1) register.hyps(2)])
  next
    fix i r
    assume "map_of (co_records T) i = Some r"
    then show "consent_traced (Registered c now # evs) i r"
      using inv(2) [of i r] inv(3) reg(2)
      by (fastforce simp: reg(5) consent_traced_def split: if_splits)
  next
    fix d t rec
    assume "Consumed d t rec \<in> set (Registered c now # evs)"
    then show "map_of (co_records T) (cd_ChallengeID d) \<noteq> None"
      using inv(3) [of d t rec] by (simp add: reg(5))
  qed
next
  case (decide evs S a q now rec T)
  note inv = consent_trace_invD [OF decide.IH]
  from consent_Decide_ok(4) [OF decide.hyps(2)] obtain r where
    r: "map_of (co_records S) (cq_ChallengeID q) = Some r" "sr_decision r = []"
      "cq_ChallengeID q = cc_ChallengeID (sr_challenge r) \<longrightarrow> consent_authorises a q (sr_challenge r)"
    and T: "T = S\<lparr>co_records := AList.update (cq_ChallengeID q)
        (r\<lparr>sr_decision := cq_Decision q, sr_decidedAt := now\<rparr>) (co_records S)\<rparr>" by blast
  have auth: "consent_authorises a q (sr_challenge r)"
    using r consent_wfD(4) [OF inv(1) r(1)] by (simp add: consent_stored_ok_def)
  show ?case
    unfolding consent_trace_inv_def
  proof (intro conjI allI impI)
    show "consent_wf T" by (rule consent_Decide_wf [OF inv(1) decide.hyps(2)])
  next
    fix i r'
    assume "map_of (co_records T) i = Some r'"
    then show "consent_traced (Decided a q now # evs) i r'"
      using inv(2) [of i] r(1,2) auth
      by (fastforce simp: T consent_traced_def split: if_splits)
  next
    fix d t rec'
    assume "Consumed d t rec' \<in> set (Decided a q now # evs)"
    then show "map_of (co_records T) (cd_ChallengeID d) \<noteq> None"
      using inv(3) [of d t rec'] by (simp add: T)
  qed
next
  case (consume evs S d now rec T)
  note inv = consent_trace_invD [OF consume.IH]
  from consent_Consume_ok(2) [OF consume.hyps(2)] obtain r where
    r: "map_of (co_records S) (cd_ChallengeID d) = Some r"
    and T: "T = S\<lparr>co_records := AList.update (cd_ChallengeID d) (r\<lparr>sr_consumedAt := now\<rparr>) (co_records S)\<rparr>" by blast
  show ?case
    unfolding consent_trace_inv_def
  proof (intro conjI allI impI)
    show "consent_wf T" by (rule consent_Consume_wf [OF inv(1) consume.hyps(2)])
  next
    fix i r'
    assume "map_of (co_records T) i = Some r'"
    then show "consent_traced (Consumed d now rec # evs) i r'"
      using inv(2) [of i] r consent_Consume_ok(1) [OF consume.hyps(2)]
      by (fastforce simp: T consent_traced_def split: if_splits)
  next
    fix d' t rec'
    assume "Consumed d' t rec' \<in> set (Consumed d now rec # evs)"
    then show "map_of (co_records T) (cd_ChallengeID d') \<noteq> None"
      using inv(3) [of d' t rec'] by (auto simp: T)
  qed
next
  case (claim evs S w now lease r T)
  then show ?case
    using consent_trace_inv_same consent_trace_invD(1) consent_ClaimWake_wf consent_ClaimWake_records by blast
next
  case (acknowledge evs S w i now r' T)
  then show ?case
    using consent_trace_inv_same consent_trace_invD(1) consent_AcknowledgeWake_wf consent_AcknowledgeWake_records by blast
next
  case (retry evs S w i now d r' T)
  then show ?case
    using consent_trace_inv_same consent_trace_invD(1) consent_RetryWake_wf consent_RetryWake_records by blast
qed (auto dest: consent_Register_fails consent_Decide_fails consent_Consume_fails)

text \<open>What a trace says of each of its consumptions, from the events before it.\<close>

definition consent_agrees :: "consent_device_request \<Rightarrow> wall_time \<Rightarrow> consent_record \<Rightarrow> consent_event list \<Rightarrow> bool" where
  "consent_agrees d t rec ys \<longleftrightarrow>
     consent_presents d (cn_Challenge rec) \<and> cn_ConsumedAt rec = t \<and> t < cc_ExpiresAt (cn_Challenge rec) \<and>
     (\<exists>t0. Registered (cn_Challenge rec) t0 \<in> set ys) \<and>
     (\<exists>a q. Decided a q (cn_DecidedAt rec) \<in> set ys \<and> cq_Decision q = cn_Decision rec \<and>
        validDecision (cn_Decision rec) \<and> consent_authorises a q (cn_Challenge rec)) \<and>
     (\<forall>d' t' rec'. Consumed d' t' rec' \<in> set ys \<longrightarrow> cd_ChallengeID d' \<noteq> cd_ChallengeID d)"

lemma consent_Consume_agrees:
  assumes "consent_trace_inv ys S" and "consent_Consume S d t = (Inr rec, T)"
  shows "consent_agrees d t rec ys"
proof -
  note inv = consent_trace_invD [OF assms(1)]
  from consent_Consume_ok(2) [OF assms(2)] obtain r where
    r: "map_of (co_records S) (cd_ChallengeID d) = Some r" "sr_decision r \<noteq> []" "sr_consumedAt r = 0"
      "t < cc_ExpiresAt (sr_challenge r)"
      "cd_ChallengeID d = cc_ChallengeID (sr_challenge r) \<longrightarrow> consent_presents d (sr_challenge r)"
    and rec: "rec = consent_record_of (r\<lparr>sr_consumedAt := t\<rparr>)" by blast
  have ok: "consent_stored_ok (cd_ChallengeID d) r" by (rule consent_wfD(4) [OF inv(1) r(1)])
  then have "consent_presents d (sr_challenge r)" "validDecision (sr_decision r)"
    using r by (simp_all add: consent_stored_ok_def)
  with inv(2) [OF r(1)] r(2-4) show ?thesis
    unfolding consent_agrees_def consent_traced_def rec consent_record_of_def by simp
qed

lemma consent_trace_agrees:
  "consent_trace evs S \<Longrightarrow> evs = xs @ Consumed d t rec # ys \<Longrightarrow> consent_agrees d t rec ys"
proof (induction arbitrary: xs rule: consent_trace.induct)
  case (consume evs S d' now rec' T)
  show ?case
  proof (cases xs)
    case Nil
    with consume.prems consume.hyps consent_Consume_agrees [OF consent_trace_holds] show ?thesis by auto
  next
    case (Cons x xs')
    with consume.prems consume.IH show ?thesis by auto
  qed
qed (auto simp: Cons_eq_append_conv)

subsection \<open>The earliest pending challenge\<close>

lemma consent_sooner_total: "cc_ChallengeID c \<noteq> cc_ChallengeID d \<Longrightarrow> \<not> consent_sooner c d \<Longrightarrow> consent_sooner d c"
  by (auto simp: consent_sooner_def)

lemma consent_sooner_lex:
  "consent_sooner c d \<longleftrightarrow> (cc_ExpiresAt c, cc_ChallengeID c) < (cc_ExpiresAt d, cc_ChallengeID d)"
  by (simp add: consent_sooner_def less_prod_def')

lemma consent_sooner_below: "consent_sooner r s1 \<Longrightarrow> \<not> consent_sooner r s \<Longrightarrow> \<not> consent_sooner s1 s"
  unfolding consent_sooner_lex by order

lemma consent_sooner_not_trans: "\<not> consent_sooner r s1 \<Longrightarrow> \<not> consent_sooner s1 s \<Longrightarrow> \<not> consent_sooner r s"
  unfolding consent_sooner_lex by order

lemma consent_pending_one_cases:
  obtains (skip) "\<not> consent_is_pending a now r" and "consent_pending_one a now (i, r) sel = sel"
  | (first) "consent_is_pending a now r" and "sel = None" and "consent_pending_one a now (i, r) sel = Some r"
  | (better) s where "consent_is_pending a now r" and "sel = Some s" and "consent_sooner (sr_challenge r) (sr_challenge s)"
      and "consent_pending_one a now (i, r) sel = Some r"
  | (keep) s where "consent_is_pending a now r" and "sel = Some s" and "\<not> consent_sooner (sr_challenge r) (sr_challenge s)"
      and "consent_pending_one a now (i, r) sel = sel"
  by (cases "consent_is_pending a now r"; cases sel;
      cases "consent_sooner (sr_challenge r) (sr_challenge (the sel))") (auto simp: consent_pending_one_def)

lemma consent_pending_none:
  "fold (consent_pending_one a now) es sel = None \<longleftrightarrow>
   sel = None \<and> (\<forall>e \<in> set es. \<not> consent_is_pending a now (snd e))"
proof (induction es arbitrary: sel)
  case (Cons e es)
  obtain i r where e: "e = (i, r)" by (cases e)
  show ?case using consent_pending_one_cases [of a now r i sel] by cases (simp_all add: e Cons.IH)
qed simp

lemma consent_pending_some:
  "fold (consent_pending_one a now) es sel = Some s \<Longrightarrow>
   (sel = Some s \<or> s \<in> snd ` set es \<and> consent_is_pending a now s) \<and>
   (\<forall>s0. sel = Some s0 \<longrightarrow> \<not> consent_sooner (sr_challenge s0) (sr_challenge s)) \<and>
   (\<forall>e \<in> set es. consent_is_pending a now (snd e) \<longrightarrow> \<not> consent_sooner (sr_challenge (snd e)) (sr_challenge s))"
proof (induction es arbitrary: sel)
  case Nil
  then show ?case by (simp add: consent_sooner_def)
next
  case (Cons e es)
  obtain i r where e: "e = (i, r)" by (cases e)
  note IH = Cons.IH [of "consent_pending_one a now e sel"]
  show ?case
    using consent_pending_one_cases [of a now r i sel]
  proof cases
    case skip
    with IH Cons.prems show ?thesis by (auto simp: e)
  next
    case first
    with IH Cons.prems show ?thesis by (auto simp: e)
  next
    case (better s1)
    with IH Cons.prems have r: "\<not> consent_sooner (sr_challenge r) (sr_challenge s)" by (simp add: e)
    have "\<not> consent_sooner (sr_challenge s1) (sr_challenge s)"
      by (rule consent_sooner_below [OF better(3) r])
    with r IH Cons.prems better show ?thesis by (auto simp: e)
  next
    case (keep s1)
    with IH Cons.prems have s1: "\<not> consent_sooner (sr_challenge s1) (sr_challenge s)" by (simp add: e)
    have "\<not> consent_sooner (sr_challenge r) (sr_challenge s)"
      by (rule consent_sooner_not_trans [OF keep(3) s1])
    with s1 IH Cons.prems keep show ?thesis by (auto simp: e)
  qed
qed

lemma consent_pending_record:
  "consent_stored_ok i r \<Longrightarrow> consent_is_pending a now r \<Longrightarrow>
   consent_record_of r = \<lparr>cn_Challenge = sr_challenge r, cn_Decision = [], cn_DecidedAt = 0, cn_ConsumedAt = 0\<rparr>"
  by (simp add: consent_stored_ok_def consent_is_pending_def consent_record_of_def)

text \<open>The pending record that comes first.\<close>

definition consent_earliest :: "consent_store \<Rightarrow> consent_actor \<Rightarrow> wall_time \<Rightarrow> string \<Rightarrow> consent_stored \<Rightarrow> bool" where
  "consent_earliest S a now i r \<longleftrightarrow> consent_is_pending a now r \<and>
     (\<forall>j r'. j \<noteq> i \<longrightarrow> map_of (co_records S) j = Some r' \<longrightarrow> consent_is_pending a now r' \<longrightarrow>
        consent_sooner (sr_challenge r) (sr_challenge r'))"

lemma consent_earliest_unique:
  assumes "map_of (co_records S) i = Some r" and "consent_earliest S a now i r"
    and "map_of (co_records S) j = Some s" and "consent_earliest S a now j s"
  shows "s = r"
proof (cases "i = j")
  case False
  with assms have "consent_sooner (sr_challenge r) (sr_challenge s)" "consent_sooner (sr_challenge s) (sr_challenge r)"
    unfolding consent_earliest_def by metis+
  then show ?thesis unfolding consent_sooner_lex by order
qed (use assms in simp)

lemma consent_pending_earliest:
  assumes "consent_wf S" and "fold (consent_pending_one a now) (co_records S) None = Some s"
  shows "\<exists>i. map_of (co_records S) i = Some s \<and> consent_earliest S a now i s"
proof -
  note entry = map_of_eq_Some_iff [OF consent_wfD(1) [OF assms(1)]]
  have id: "cc_ChallengeID (sr_challenge r) = i" if "map_of (co_records S) i = Some r" for i r
    using consent_wfD(4) [OF assms(1) that] by (simp add: consent_stored_ok_def)
  note loop = consent_pending_some [OF assms(2)]
  then obtain i where i: "map_of (co_records S) i = Some s" and pending: "consent_is_pending a now s"
    by (auto simp: entry)
  moreover have "consent_sooner (sr_challenge s) (sr_challenge r')"
    if "j \<noteq> i" and r': "map_of (co_records S) j = Some r'" and "consent_is_pending a now r'" for j r'
  proof (rule consent_sooner_total)
    show "cc_ChallengeID (sr_challenge r') \<noteq> cc_ChallengeID (sr_challenge s)" using id [OF i] id [OF r'] that(1) by simp
    show "\<not> consent_sooner (sr_challenge r') (sr_challenge s)"
      using loop map_of_SomeD [OF r'] that(3) by fastforce
  qed
  ultimately show ?thesis unfolding consent_earliest_def by blast
qed

subsection \<open>The lease of a wake\<close>

text \<open>The wake is gone or still leased to the worker; its record, once there, stays.\<close>

definition consent_leased :: "string \<Rightarrow> string \<Rightarrow> wall_time \<Rightarrow> consent_store \<Rightarrow> bool" where
  "consent_leased i worker until S \<longleftrightarrow> map_of (co_records S) i \<noteq> None \<and>
     (\<forall>w. map_of (co_wakes S) i = Some w \<longrightarrow> sw_claimedBy w = worker \<and> sw_leaseUntil w = until)"

lemma consent_leased_delete:
  assumes "consent_leased i worker until S" and "\<And>w. map_of m i = Some w \<Longrightarrow> map_of (co_wakes S) i = Some w"
  shows "consent_leased i worker until (S\<lparr>co_wakes := m\<rparr>)"
proof -
  have "co_records (S\<lparr>co_wakes := m\<rparr>) = co_records S" "co_wakes (S\<lparr>co_wakes := m\<rparr>) = m" by simp_all
  with assms show ?thesis unfolding consent_leased_def by metis
qed

lemma consent_leased_update:
  assumes "consent_leased i worker until S" and "j \<noteq> i"
    and "\<And>w. map_of m i = Some w \<Longrightarrow> map_of (co_wakes S) i = Some w"
  shows "consent_leased i worker until (S\<lparr>co_wakes := AList.update j v m\<rparr>)"
  using assms by (intro consent_leased_delete) simp_all

lemma consent_leased_records:
  "consent_leased i worker until S \<Longrightarrow> consent_leased i worker until (S\<lparr>co_records := AList.update j r (co_records S)\<rparr>)"
  by (auto simp: consent_leased_def)

lemma consent_live_lookup:
  "map_of (fold (\<lambda>(i, w) m. if consent_dead records now i w then AList.delete i m else m) es m) i = Some w \<Longrightarrow>
   map_of m i = Some w"
proof (induction es arbitrary: m)
  case (Cons e es)
  obtain j v where e: "e = (j, v)" by (cases e)
  from Cons.IH Cons.prems have "map_of (if consent_dead records now j v then AList.delete j m else m) i = Some w"
    by (simp add: e)
  then show ?case by (simp add: delete_conv restrict_map_def split: if_splits)
qed simp

lemma consent_ClaimWake_leased:
  assumes "consent_wf S" and "consent_leased i worker until S" and "worker \<noteq> []" and "now < until"
    and "consent_ClaimWake S w now lease = (res, T)"
  shows "consent_leased i worker until T \<and> (\<forall>wake. res = Inr (Some wake) \<longrightarrow> wk_WakeID wake \<noteq> i)"
  using assms(5) consent_wfD(2) [OF assms(1)]
proof (cases rule: consent_ClaimWake_cases)
  case invalid
  with assms(2) show ?thesis by simp
next
  case none
  then show ?thesis using consent_leased_delete [OF assms(2) consent_live_lookup] by simp
next
  case (exhausted j)
  have "map_of (AList.delete j (fold (\<lambda>(i, w) m. if consent_dead (co_records S) now i w then AList.delete i m else m)
      (co_wakes S) (co_wakes S))) i = Some v \<Longrightarrow> map_of (co_wakes S) i = Some v" for v
    by (auto simp: delete_conv split: if_splits dest: consent_live_lookup)
  with exhausted show ?thesis using consent_leased_delete [OF assms(2)] by blast
next
  case (claimed j v)
  have "wk_WakeID (sw_wake v) = j"
    using consent_wfD(6) [OF assms(1) claimed(1)] consent_wfD(4) [OF assms(1)]
    by (auto simp: consent_wake_ok_def consent_stored_ok_def)
  moreover have "j \<noteq> i"
    using claimed(1,3) assms(2-4) by (auto simp: consent_leased_def consent_free_def)
  ultimately show ?thesis
    using claimed consent_leased_update [OF assms(2) _ consent_live_lookup] by simp
qed

lemma consent_ClaimWake_starts:
  assumes "consent_wf S" and "consent_ClaimWake S worker now lease = (Inr (Some wake), T)"
  shows "worker \<noteq> [] \<and> consent_wf T \<and> consent_leased (wk_WakeID wake) worker (now + lease) T"
  using assms(2) consent_wfD(2) [OF assms(1)]
proof (cases rule: consent_ClaimWake_cases)
  case (claimed j v)
  from consent_wfD(6) [OF assms(1) claimed(1)] obtain r where
    r: "map_of (co_records S) j = Some r" "wk_WakeID (sw_wake v) = cc_ChallengeID (sr_challenge r)"
    by (auto simp: consent_wake_ok_def)
  with consent_wfD(4) [OF assms(1) r(1)] have j: "wk_WakeID (sw_wake v) = j" by (simp add: consent_stored_ok_def)
  have wake: "wk_WakeID wake = j" using claimed(7) j by simp
  have worker: "worker \<noteq> []" using claimed(5) by (auto simp: validWakeWorker_def)
  have "consent_leased j worker (now + lease) T" unfolding claimed(8) by (simp add: consent_leased_def r(1))
  with worker wake consent_ClaimWake_wf [OF assms] show ?thesis by simp
qed simp_all

lemma consent_step_leased:
  assumes "consent_wf S" and "consent_leased i worker until S" and "worker \<noteq> []" and "now < until" and "w \<noteq> worker"
    and "consent_step w now S T"
  shows "consent_leased i worker until T"
  using assms(6)
proof cases
  case (register c)
  have "consent_leased i worker until U" if "consent_Register S c now = (None, U)" for U
    using consent_Register_ok(2,5) [OF that] assms(2) by (auto simp: consent_leased_def)
  with register assms(2) show ?thesis
    by (cases "consent_Register S c now"; cases "fst (consent_Register S c now)")
      (auto dest: consent_Register_fails)
next
  case (decide a q)
  have "consent_leased i worker until U" if "consent_Decide S a q now = (Inr rec, U)" for rec U
    using consent_Decide_ok(4) [OF that] consent_leased_records [OF assms(2)] by blast
  with decide assms(2) show ?thesis
    by (cases "consent_Decide S a q now"; cases "fst (consent_Decide S a q now)")
      (auto dest: consent_Decide_fails)
next
  case (consume d)
  have "consent_leased i worker until U" if "consent_Consume S d now = (Inr rec, U)" for rec U
    using consent_Consume_ok(2) [OF that] consent_leased_records [OF assms(2)] by blast
  with consume assms(2) show ?thesis
    by (cases "consent_Consume S d now"; cases "fst (consent_Consume S d now)")
      (auto dest: consent_Consume_fails)
next
  case (claim lease)
  then show ?thesis using consent_ClaimWake_leased [OF assms(1-4)] by (metis prod.collapse)
next
  case (acknowledge j)
  with assms(2) show ?thesis
    by (auto simp: consent_AcknowledgeWake_def consent_leased_def delete_conv split: option.splits if_splits)
next
  case (retry j delay)
  with assms(2,5) show ?thesis
    by (auto simp: consent_RetryWake_def Let_def consent_leased_def delete_conv split: option.splits if_splits)
qed

subsection \<open>The requests that match a challenge, and an example\<close>

definition consent_request_of :: "consent_challenge \<Rightarrow> string \<Rightarrow> consent_request" where
  "consent_request_of c decision = \<lparr>cq_ChallengeID = cc_ChallengeID c, cq_DeviceID = cc_DeviceID c,
     cq_OwnerRevision = cc_OwnerRevision c, cq_SessionID = cc_SessionID c, cq_RequestID = cc_RequestID c,
     cq_Action = cc_Action c, cq_Decision = decision\<rparr>"

definition consent_device_request_of :: "consent_challenge \<Rightarrow> consent_device_request" where
  "consent_device_request_of c = \<lparr>cd_ChallengeID = cc_ChallengeID c, cd_DeviceID = cc_DeviceID c,
     cd_OwnerRevision = cc_OwnerRevision c, cd_SessionID = cc_SessionID c, cd_RequestID = cc_RequestID c,
     cd_Action = cc_Action c\<rparr>"

definition consent_example :: consent_challenge where
  "consent_example = \<lparr>cc_ChallengeID = b64_encode (replicate 16 7), cc_DeviceID = ''dev-1'', cc_OwnerID = ''alice'',
     cc_TenantID = ''home'', cc_OwnerRevision = 1, cc_SessionID = ''s1'', cc_RequestID = 5,
     cc_Action = \<lparr>ca_IndicatorOn = True\<rparr>, cc_ExpiresAt = 20 * second\<rparr>"

definition consent_example_store :: consent_store where
  "consent_example_store = \<lparr>co_maxRecords = 10, co_records = [], co_wakes = []\<rparr>"

definition consent_example_registered :: consent_store where
  "consent_example_registered = snd (consent_Register consent_example_store consent_example second)"

definition consent_example_decided :: consent_store where
  "consent_example_decided = snd (consent_Decide consent_example_registered (wk_Target (wakeFromChallenge consent_example))
     (consent_request_of consent_example DecisionApprove) (2 * second))"

definition consent_example_consumed :: "(consent_error + consent_record) \<times> consent_store" where
  "consent_example_consumed = consent_Consume consent_example_decided (consent_device_request_of consent_example) (3 * second)"

lemma consent_example_NewStore: "consent_NewStore 10 = Some consent_example_store"
  by (simp add: consent_NewStore_def consent_example_store_def)

lemma consent_example_valid: "ValidChallenge consent_example second"
proof -
  have "ValidIdentifier ''dev-1'' 64" "ValidIdentifier ''alice'' 128" "ValidIdentifier ''home'' 128"
    "ValidIdentifier ''s1'' 64" "ValidBindingRevision 1"
    by code_simp+
  then show ?thesis
    by (simp add: ValidChallenge_def consent_example_def ValidChallengeID_def MaximumLifetime_def saturate64_def max_int64_def)
qed

lemma consent_example_Register:
  "consent_Register consent_example_store consent_example second = (None, consent_example_registered)"
  "map_of (co_records consent_example_registered) (cc_ChallengeID consent_example) =
     Some \<lparr>sr_challenge = consent_example, sr_decision = [], sr_decidedAt = 0, sr_consumedAt = 0\<rparr>"
  "consent_example_registered =
     \<lparr>co_maxRecords = 10,
      co_records = [(cc_ChallengeID consent_example,
        \<lparr>sr_challenge = consent_example, sr_decision = [], sr_decidedAt = 0, sr_consumedAt = 0\<rparr>)],
      co_wakes = [(cc_ChallengeID consent_example,
        \<lparr>sw_wake = wakeFromChallenge consent_example, sw_availableAt = second, sw_claimedBy = [], sw_leaseUntil = 0\<rparr>)]\<rparr>"
  using consent_example_valid
  by (simp_all add: consent_example_registered_def consent_Register_def consent_example_store_def)

lemma consent_example_wf: "consent_wf consent_example_registered"
  using consent_init_wf consent_Register_wf [OF _ consent_example_Register(1)] consent_example_NewStore
  unfolding consent_init_def by blast

text \<open>A registered challenge, its owner's decision and the device's consumption of it.\<close>

lemma consent_matching_Decide:
  assumes "ValidChallenge c t0" and "map_of (co_records S) (cc_ChallengeID c) = Some r" and "sr_challenge r = c"
    and "sr_decision r = []" and "validDecision decision" and "t \<noteq> 0" and "t < cc_ExpiresAt c"
  shows "consent_Decide S (wk_Target (wakeFromChallenge c)) (consent_request_of c decision) t =
    (Inr (consent_record_of (r\<lparr>sr_decision := decision, sr_decidedAt := t\<rparr>)),
     S\<lparr>co_records := AList.update (cc_ChallengeID c) (r\<lparr>sr_decision := decision, sr_decidedAt := t\<rparr>) (co_records S)\<rparr>)"
  using assms by (simp add: consent_Decide_def consent_request_of_def wakeFromChallenge_def ValidChallenge_def Let_def
      split: if_splits)

lemma consent_matching_Consume:
  assumes "ValidChallenge c t0" and "map_of (co_records S) (cc_ChallengeID c) = Some r" and "sr_challenge r = c"
    and "sr_decision r \<noteq> []" and "sr_consumedAt r = 0" and "t \<noteq> 0" and "t < cc_ExpiresAt c"
  shows "consent_Consume S (consent_device_request_of c) t =
    (Inr (consent_record_of (r\<lparr>sr_consumedAt := t\<rparr>)),
     S\<lparr>co_records := AList.update (cc_ChallengeID c) (r\<lparr>sr_consumedAt := t\<rparr>) (co_records S)\<rparr>)"
  using assms by (simp add: consent_Consume_def consent_device_request_of_def ValidChallenge_def Let_def
      split: if_splits)

lemma consent_matching_run:
  assumes "consent_Register S c t0 = (None, S1)" and "validDecision decision"
    and "t1 \<noteq> 0" and "t1 < cc_ExpiresAt c" and "t2 \<noteq> 0" and "t2 < cc_ExpiresAt c"
  obtains S2 S3 where
    "consent_Decide S1 (wk_Target (wakeFromChallenge c)) (consent_request_of c decision) t1 =
      (Inr \<lparr>cn_Challenge = c, cn_Decision = decision, cn_DecidedAt = t1, cn_ConsumedAt = 0\<rparr>, S2)"
    "consent_Consume S2 (consent_device_request_of c) t2 =
      (Inr \<lparr>cn_Challenge = c, cn_Decision = decision, cn_DecidedAt = t1, cn_ConsumedAt = t2\<rparr>, S3)"
proof -
  note reg = consent_Register_ok [OF assms(1)]
  define r where "r = \<lparr>sr_challenge = c, sr_decision = [], sr_decidedAt = 0, sr_consumedAt = 0\<rparr>"
  define r' where "r' = r\<lparr>sr_decision := decision, sr_decidedAt := t1\<rparr>"
  define S2 where "S2 = S1\<lparr>co_records := AList.update (cc_ChallengeID c) r' (co_records S1)\<rparr>"
  have "map_of (co_records S1) (cc_ChallengeID c) = Some r" by (simp add: reg(5) r_def)
  from consent_matching_Decide [OF reg(1) this _ _ assms(2-4)]
  have d: "consent_Decide S1 (wk_Target (wakeFromChallenge c)) (consent_request_of c decision) t1 =
      (Inr \<lparr>cn_Challenge = c, cn_Decision = decision, cn_DecidedAt = t1, cn_ConsumedAt = 0\<rparr>, S2)"
    by (simp add: S2_def r'_def r_def consent_record_of_def)
  have "map_of (co_records S2) (cc_ChallengeID c) = Some r'" by (simp add: S2_def)
  moreover have "decision \<noteq> []"
    using assms(2) by (auto simp: validDecision_def DecisionApprove_def DecisionDeny_def)
  ultimately show thesis
    using consent_matching_Consume [OF reg(1), of S2 r' t2] assms(5,6) that [OF d]
    by (simp add: r'_def r_def consent_record_of_def)
qed

lemma consent_example_run:
  obtains rec S3 where
    "consent_trace [Consumed (consent_device_request_of consent_example) (3 * second) rec,
       Decided (wk_Target (wakeFromChallenge consent_example)) (consent_request_of consent_example DecisionApprove) (2 * second),
       Registered consent_example second] S3"
    "cn_Decision rec = DecisionApprove"
proof -
  have times: "validDecision DecisionApprove" "2 * second \<noteq> 0" "2 * second < cc_ExpiresAt consent_example"
    "3 * second \<noteq> 0" "3 * second < cc_ExpiresAt consent_example"
    by (simp_all add: validDecision_def consent_example_def)
  from consent_matching_run [OF consent_example_Register(1) times] obtain S2 S3 where
    d: "consent_Decide consent_example_registered (wk_Target (wakeFromChallenge consent_example))
       (consent_request_of consent_example DecisionApprove) (2 * second) =
       (Inr \<lparr>cn_Challenge = consent_example, cn_Decision = DecisionApprove, cn_DecidedAt = 2 * second, cn_ConsumedAt = 0\<rparr>, S2)"
    and c: "consent_Consume S2 (consent_device_request_of consent_example) (3 * second) =
       (Inr \<lparr>cn_Challenge = consent_example, cn_Decision = DecisionApprove, cn_DecidedAt = 2 * second,
          cn_ConsumedAt = 3 * second\<rparr>, S3)" by blast
  note run = consent_trace.consume [OF consent_trace.decide [OF consent_trace.register
      [OF consent_trace.start [OF consent_example_NewStore] consent_example_Register(1)] d] c]
  show thesis by (rule that [OF run]) simp
qed

section \<open>Properties\<close>

text \<open>C2. Injective agreement of consent. In every trace of the store, whatever order devices, apps and
  workers call it in, a decision that a device consumes at time \<open>t\<close> is backed by the events before it:
  the device presented the registered challenge in every field and in time; that exact challenge was
  registered; an actor that matches the challenge's owner, tenant, device and ownership revision
  decided it with the decision the device receives; and nobody had consumed the challenge before.\<close>

theorem consent_injective_agreement:
  assumes "consent_trace (xs @ Consumed d t rec # ys) S"
  shows "consent_presents d (cn_Challenge rec) \<and> t < cc_ExpiresAt (cn_Challenge rec) \<and>
    (\<exists>t0. Registered (cn_Challenge rec) t0 \<in> set ys) \<and>
    (\<exists>a q. Decided a q (cn_DecidedAt rec) \<in> set ys \<and> cq_Decision q = cn_Decision rec \<and>
       validDecision (cn_Decision rec) \<and> consent_authorises a q (cn_Challenge rec)) \<and>
    (\<forall>d' t' rec'. Consumed d' t' rec' \<in> set ys \<longrightarrow> cd_ChallengeID d' \<noteq> cd_ChallengeID d)"
  using consent_trace_agrees [OF assms refl] unfolding consent_agrees_def by blast

theorem consent_injective_agreement_witness:
  "\<exists>rec :: consent_record. cn_Decision rec = DecisionApprove \<and>
     consent_presents (consent_device_request_of consent_example) (cn_Challenge rec)"
proof -
  obtain rec S3 where
    run: "consent_trace ([] @ Consumed (consent_device_request_of consent_example) (3 * second) rec #
       [Decided (wk_Target (wakeFromChallenge consent_example)) (consent_request_of consent_example DecisionApprove) (2 * second),
       Registered consent_example second]) S3" and rec: "cn_Decision rec = DecisionApprove"
    using consent_example_run by (metis append_Nil)
  show ?thesis using consent_injective_agreement [OF run, THEN conjunct1] rec by (intro exI conjI)
qed

text \<open>C38. The happy path. Once a challenge is registered, the owner's matching decision before it expires
  is accepted, and the device that then presents the challenge before it expires receives exactly
  that decision.\<close>

theorem consent_Register_Decide_Consume:
  assumes "consent_Register S c t0 = (None, S1)" and "validDecision decision"
    and "t1 \<noteq> 0" and "t1 < cc_ExpiresAt c" and "t2 \<noteq> 0" and "t2 < cc_ExpiresAt c"
  shows "\<exists>S2 S3.
    consent_Decide S1 (wk_Target (wakeFromChallenge c)) (consent_request_of c decision) t1 =
      (Inr \<lparr>cn_Challenge = c, cn_Decision = decision, cn_DecidedAt = t1, cn_ConsumedAt = 0\<rparr>, S2) \<and>
    consent_Consume S2 (consent_device_request_of c) t2 =
      (Inr \<lparr>cn_Challenge = c, cn_Decision = decision, cn_DecidedAt = t1, cn_ConsumedAt = t2\<rparr>, S3)"
  using consent_matching_run [OF assms] by metis

theorem consent_Register_Decide_Consume_witness:
  "\<exists>S2 S3.
    consent_Decide consent_example_registered (wk_Target (wakeFromChallenge consent_example))
      (consent_request_of consent_example DecisionDeny) (2 * second) =
      (Inr \<lparr>cn_Challenge = consent_example, cn_Decision = DecisionDeny, cn_DecidedAt = 2 * second, cn_ConsumedAt = 0\<rparr>, S2) \<and>
    consent_Consume S2 (consent_device_request_of consent_example) (3 * second) =
      (Inr \<lparr>cn_Challenge = consent_example, cn_Decision = DecisionDeny, cn_DecidedAt = 2 * second,
        cn_ConsumedAt = 3 * second\<rparr>, S3)"
  by (rule consent_Register_Decide_Consume [OF consent_example_Register(1)])
    (simp_all add: validDecision_def consent_example_def)

text \<open>C39. \<^verbatim>\<open>Pending\<close> does not depend on the order in which the map is ranged over: in a well-formed store
  it returns a challenge exactly when that challenge is pending for the actor and expires before every
  other one that is (by challenge ID between equal expiries).\<close>

theorem consent_Pending_earliest:
  assumes "consent_wf S" and "now \<noteq> 0" and "consent_validActor a"
  shows "consent_Pending S a now = Inr (Some rec) \<longleftrightarrow>
    (\<exists>i r. map_of (co_records S) i = Some r \<and> rec = consent_record_of r \<and> consent_earliest S a now i r)"
proof
  assume "consent_Pending S a now = Inr (Some rec)"
  then obtain s where s: "fold (consent_pending_one a now) (co_records S) None = Some s"
    and rec: "rec = \<lparr>cn_Challenge = sr_challenge s, cn_Decision = [], cn_DecidedAt = 0, cn_ConsumedAt = 0\<rparr>"
    using assms(2,3) by (auto simp: consent_Pending_def split: option.splits)
  from consent_pending_earliest [OF assms(1) s] obtain i where
    i: "map_of (co_records S) i = Some s" "consent_earliest S a now i s" by blast
  then have "consent_is_pending a now s" by (simp add: consent_earliest_def)
  with rec have "rec = consent_record_of s" using consent_pending_record [OF consent_wfD(4) [OF assms(1) i(1)]] by metis
  with i show "\<exists>i r. map_of (co_records S) i = Some r \<and> rec = consent_record_of r \<and> consent_earliest S a now i r"
    by blast
next
  assume "\<exists>i r. map_of (co_records S) i = Some r \<and> rec = consent_record_of r \<and> consent_earliest S a now i r"
  then obtain i r where r: "map_of (co_records S) i = Some r" "consent_earliest S a now i r" "rec = consent_record_of r"
    by blast
  then have "fold (consent_pending_one a now) (co_records S) None \<noteq> None"
    using map_of_SomeD [OF r(1)] unfolding consent_pending_none consent_earliest_def by fastforce
  then obtain s where s: "fold (consent_pending_one a now) (co_records S) None = Some s" by blast
  from consent_pending_earliest [OF assms(1) s] obtain j where
    "map_of (co_records S) j = Some s" "consent_earliest S a now j s" by blast
  with r have "s = r" by (auto intro: consent_earliest_unique)
  with s r show "consent_Pending S a now = Inr (Some rec)"
    using assms(2,3) consent_pending_record [OF consent_wfD(4) [OF assms(1) r(1)], of a now]
    by (simp add: consent_Pending_def consent_earliest_def)
qed

theorem consent_Pending_earliest_witness:
  "consent_Pending consent_example_registered (wk_Target (wakeFromChallenge consent_example)) (2 * second) =
     Inr (Some \<lparr>cn_Challenge = consent_example, cn_Decision = [], cn_DecidedAt = 0, cn_ConsumedAt = 0\<rparr>)"
proof -
  let ?a = "wk_Target (wakeFromChallenge consent_example)"
  have actor: "consent_validActor ?a"
    using consent_example_valid by (auto simp: consent_validActor_def wakeFromChallenge_def ValidChallenge_def split: if_splits)
  have "consent_earliest consent_example_registered ?a (2 * second) (cc_ChallengeID consent_example)
     \<lparr>sr_challenge = consent_example, sr_decision = [], sr_decidedAt = 0, sr_consumedAt = 0\<rparr>"
    unfolding consent_earliest_def consent_example_Register(3)
    by (simp add: consent_is_pending_def wakeFromChallenge_def) (simp add: consent_example_def)
  with consent_example_Register(2) have "\<exists>i r. map_of (co_records consent_example_registered) i = Some r \<and>
    \<lparr>cn_Challenge = consent_example, cn_Decision = [], cn_DecidedAt = 0, cn_ConsumedAt = 0\<rparr> = consent_record_of r \<and>
    consent_earliest consent_example_registered ?a (2 * second) i r"
    by (intro exI conjI) (assumption, simp add: consent_record_of_def)
  moreover have "2 * second \<noteq> 0" by simp
  ultimately show ?thesis using consent_Pending_earliest [OF consent_example_wf _ actor] by blast
qed

text \<open>C40. The lease of a wake is exclusive. After a worker has claimed a wake, and while its lease runs,
  no call of another worker, of an app or of a device, in any number and order, makes the store hand
  the same wake out again.\<close>

theorem consent_lease_exclusive:
  assumes "consent_wf S" and "consent_ClaimWake S worker now lease = (Inr (Some wake), T)"
    and "(\<lambda>A B. \<exists>w t. w \<noteq> worker \<and> t < now + lease \<and> consent_step w t A B)\<^sup>*\<^sup>* T U"
    and "t < now + lease"
  shows "\<not> (\<exists>wake'. fst (consent_ClaimWake U worker' t lease') = Inr (Some wake') \<and> wk_WakeID wake' = wk_WakeID wake)"
proof -
  let ?i = "wk_WakeID wake"
  have nonempty: "worker \<noteq> []" and T: "consent_wf T \<and> consent_leased ?i worker (now + lease) T"
    using consent_ClaimWake_starts [OF assms(1,2)] by blast+
  have "consent_wf U \<and> consent_leased ?i worker (now + lease) U"
    using assms(3)
  proof (induction rule: rtranclp_induct)
    case base
    show ?case by (rule T)
  next
    case (step A B)
    then show ?case using consent_step_leased [OF _ _ nonempty] consent_step_wf by blast
  qed
  then show ?thesis using consent_ClaimWake_leased [OF _ _ nonempty assms(4)] by (metis prod.collapse)
qed

theorem consent_lease_exclusive_witness:
  "\<not> (\<exists>wake'. fst (consent_ClaimWake (snd (consent_RetryWake (snd (consent_ClaimWake consent_example_registered
        ''w1'' (2 * second) (5 * second))) ''w2'' (cc_ChallengeID consent_example) (3 * second) 0)) ''w2'' (4 * second) second) =
      Inr (Some wake') \<and> wk_WakeID wake' = cc_ChallengeID consent_example)"
proof -
  let ?T = "snd (consent_ClaimWake consent_example_registered ''w1'' (2 * second) (5 * second))"
  let ?U = "snd (consent_RetryWake ?T ''w2'' (cc_ChallengeID consent_example) (3 * second) 0)"
  let ?wake = "(wakeFromChallenge consent_example)\<lparr>wk_Attempts := 1\<rparr>"
  have "ValidIdentifier ''w1'' 64" by code_simp
  moreover have "cc_ExpiresAt consent_example = 20 * second" by (simp add: consent_example_def)
  ultimately have "consent_ClaimWake consent_example_registered ''w1'' (2 * second) (5 * second) = (Inr (Some ?wake), ?T)"
    by (simp add: consent_ClaimWake_def validWakeWorker_def validWakeLease_def minimumWakeLease_def MaximumWakeLease_def
        consent_example_Register(3) consent_claim_one_def wakeFromChallenge_def maximumWakeAttempts_def word_le_nat_alt Let_def)
  note claim = consent_lease_exclusive [OF consent_example_wf this]
  have "(\<lambda>A B. \<exists>w t. w \<noteq> ''w1'' \<and> t < 2 * second + 5 * second \<and> consent_step w t A B)\<^sup>*\<^sup>* ?T ?U"
    by (rule r_into_rtranclp, rule exI [of _ "''w2''"], rule exI [of _ "3 * second"]) (simp add: consent_step.retry)
  from claim [OF this, of "4 * second"] show ?thesis by (simp add: wakeFromChallenge_def)
qed

end
