(* ===== verification/Json.thy ===== *)
theory Json
  imports Encoding
begin

text \<open>
  JSON as Go's \<^verbatim>\<open>encoding/json\<close> reads and writes it, in the parts the sources use. Documents are byte
  strings. A reader is a lexer followed by a parser over the tokens that keeps its open arrays and
  objects on a stack, as the library's scanner does; the adjacency errors of the scanner (two values
  with nothing between them) are syntax errors of the parser. String literals are unquoted as in the
  library: invalid UTF-8 and unpaired surrogates become the replacement character. A writer prints
  without white space and escapes what the library escapes.

  Struct decoding follows the library too: fields are assigned in the order of the document into the
  zero value, a name matches a field exactly or else after case folding, \<^verbatim>\<open>null\<close> leaves a field as it is,
  and with \<^verbatim>\<open>DisallowUnknownFields\<close> every other name is an error. The sources treat every decoding error
  alike, so all of them are \<^term>\<open>None\<close>.
\<close>

section \<open>Definitions\<close>

subsection \<open>Values\<close>

datatype json =
    JNull
  | JBool bool
  | JNum string \<comment> \<open>the literal\<close>
  | JStr string
  | JArr "json list"
  | JObj "(string \<times> json) list" \<comment> \<open>members in the order of the document\<close>

subsection \<open>UTF-8\<close>

definition cont_byte :: "nat \<Rightarrow> nat \<Rightarrow> nat \<Rightarrow> bool" where
  "cont_byte lo hi n \<longleftrightarrow> lo \<le> n \<and> n \<le> hi"

text \<open>The length of the well-formed sequence at the start of the string, 0 when there is none: the
  acceptance table of \<^verbatim>\<open>unicode/utf8\<close>.\<close>

definition utf8_len :: "string \<Rightarrow> nat" where
  "utf8_len s = (case map of_char (take 4 s) of
     [] \<Rightarrow> 0
   | a # r \<Rightarrow>
       if a < 128 then 1
       else if 194 \<le> a \<and> a \<le> 223 then
         (case r of b # _ \<Rightarrow> if cont_byte 128 191 b then 2 else 0 | _ \<Rightarrow> 0)
       else if 224 \<le> a \<and> a \<le> 239 then
         (case r of b # c # _ \<Rightarrow>
            if cont_byte (if a = 224 then 160 else 128) (if a = 237 then 159 else 191) b \<and> cont_byte 128 191 c
            then 3 else 0 | _ \<Rightarrow> 0)
       else if 240 \<le> a \<and> a \<le> 244 then
         (case r of b # c # d # _ \<Rightarrow>
            if cont_byte (if a = 240 then 144 else 128) (if a = 244 then 143 else 191) b \<and>
               cont_byte 128 191 c \<and> cont_byte 128 191 d
            then 4 else 0 | _ \<Rightarrow> 0)
       else 0)"

definition utf8_encode :: "nat \<Rightarrow> string" where
  "utf8_encode r = map char_of
     (if r < 128 then [r]
      else if r < 2048 then [192 + r div 64, 128 + r mod 64]
      else if r < 65536 then [224 + r div 4096, 128 + r div 64 mod 64, 128 + r mod 64]
      else [240 + r div 262144, 128 + r div 4096 mod 64, 128 + r div 64 mod 64, 128 + r mod 64])"

definition replacement_char :: string where
  "replacement_char = utf8_encode 65533"

subsection \<open>Lexer\<close>

datatype json_tok =
    TObjOpen | TObjClose | TArrOpen | TArrClose | TColon | TComma
  | TStr string | TNum string | TLit json

definition json_space :: "char \<Rightarrow> bool" where
  "json_space c \<longleftrightarrow> c = CHR '' '' \<or> c = CHR 0x09 \<or> c = CHR 0x0D \<or> c = CHR 0x0A"

definition is_digit :: "char \<Rightarrow> bool" where
  "is_digit c \<longleftrightarrow> 48 \<le> (of_char c :: nat) \<and> (of_char c :: nat) \<le> 57"

definition hex_val :: "char \<Rightarrow> nat option" where
  "hex_val c = (let n = of_char c in
     if 48 \<le> n \<and> n \<le> 57 then Some (n - 48)
     else if 97 \<le> n \<and> n \<le> 102 then Some (n - 87)
     else if 65 \<le> n \<and> n \<le> (70 :: nat) then Some (n - 55) else None)"

text \<open>The four hexadecimal digits after \<^verbatim>\<open>\u\<close>.\<close>

definition hex4 :: "string \<Rightarrow> nat option" where
  "hex4 s = (case s of
     a # b # c # d # _ \<Rightarrow>
       (case (hex_val a, hex_val b, hex_val c, hex_val d) of
          (Some i, Some j, Some k, Some l) \<Rightarrow> Some (((i * 16 + j) * 16 + k) * 16 + l)
        | _ \<Rightarrow> None)
   | _ \<Rightarrow> None)"

definition json_simple_escape :: "char \<Rightarrow> char option" where
  "json_simple_escape e =
     (if e = CHR 0x22 \<or> e = CHR 0x5C \<or> e = CHR ''/'' then Some e
      else if e = CHR ''b'' then Some (CHR 0x08)
      else if e = CHR ''f'' then Some (CHR 0x0C)
      else if e = CHR ''n'' then Some (CHR 0x0A)
      else if e = CHR ''r'' then Some (CHR 0x0D)
      else if e = CHR ''t'' then Some (CHR 0x09) else None)"

text \<open>A \<^verbatim>\<open>\uXXXX\<close> escape, given what follows the \<^verbatim>\<open>u\<close>: the text it stands for and how many characters
  after the \<^verbatim>\<open>u\<close> it takes, the second escape of a surrogate pair included.\<close>

definition json_unicode_escape :: "string \<Rightarrow> (string \<times> nat) option" where
  "json_unicode_escape es = (case hex4 es of
     None \<Rightarrow> None
   | Some r \<Rightarrow>
       if r < 55296 \<or> 57344 \<le> r then Some (utf8_encode r, 4)
       else
         let low = (if take 2 (drop 4 es) = [CHR 0x5C, CHR ''u''] then hex4 (drop 6 es) else None) in
         (case low of
            Some r2 \<Rightarrow>
              if r < 56320 \<and> 56320 \<le> r2 \<and> r2 < 57344
              then Some (utf8_encode (65536 + (r - 55296) * 1024 + (r2 - 56320)), 10)
              else Some (replacement_char, 4)
          | None \<Rightarrow> Some (replacement_char, 4)))"

text \<open>One element of a string literal that is not its closing quote: the text it stands for and how
  many characters it takes after its first.\<close>

definition json_str_item :: "char \<Rightarrow> string \<Rightarrow> (string \<times> nat) option" where
  "json_str_item c cs =
     (if c = CHR 0x5C then
        (case cs of
           [] \<Rightarrow> None
         | e # es \<Rightarrow>
             if e = CHR ''u'' then map_option (\<lambda>(out, n). (out, Suc n)) (json_unicode_escape es)
             else map_option (\<lambda>d. ([d], 1)) (json_simple_escape e))
      else if (of_char c :: nat) < 32 then None
      else if utf8_len (c # cs) = 0 then Some (replacement_char, 0)
      else Some (take (utf8_len (c # cs)) (c # cs), utf8_len (c # cs) - 1))"

text \<open>The rest of a string literal after its opening quote: its text, and what follows the closing quote.\<close>

fun json_string :: "string \<Rightarrow> (string \<times> string) option" where
  "json_string [] = None"
| "json_string (c # cs) =
     (if c = CHR 0x22 then Some ([], cs)
      else case json_str_item c cs of
        None \<Rightarrow> None
      | Some (out, n) \<Rightarrow> map_option (\<lambda>(s, rest). (out @ s, rest)) (json_string (drop n cs)))"

text \<open>A number literal at the start of the string, and what follows it: sign, integer part, fraction and
  exponent.\<close>

definition json_sign :: "string \<Rightarrow> string \<times> string" where
  "json_sign s = (if s \<noteq> [] \<and> hd s = CHR ''-'' then (take 1 s, drop 1 s) else ([], s))"

definition json_frac :: "string \<Rightarrow> (string \<times> string) option" where
  "json_frac s =
     (if s \<noteq> [] \<and> hd s = CHR ''.'' then
        let digits = takeWhile is_digit (tl s) in
        if digits = [] then None else Some (hd s # digits, dropWhile is_digit (tl s))
      else Some ([], s))"

definition json_exp :: "string \<Rightarrow> (string \<times> string) option" where
  "json_exp s =
     (if s \<noteq> [] \<and> (hd s = CHR ''e'' \<or> hd s = CHR ''E'') then
        let r = tl s;
            signed = r \<noteq> [] \<and> (hd r = CHR ''+'' \<or> hd r = CHR ''-'');
            sign = (if signed then take 1 r else []);
            digits = takeWhile is_digit (drop (length sign) r) in
        if digits = [] then None
        else Some (hd s # sign @ digits, dropWhile is_digit (drop (length sign) r))
      else Some ([], s))"

definition json_number :: "string \<Rightarrow> (string \<times> string) option" where
  "json_number s =
     (case json_sign s of (sign, s1) \<Rightarrow>
        let digits = takeWhile is_digit s1 in
        if digits = [] then None
        else
          let whole = (if hd digits = CHR ''0'' then take 1 digits else digits) in
          case json_frac (drop (length whole) s1) of
            None \<Rightarrow> None
          | Some (frac, s2) \<Rightarrow>
              (case json_exp s2 of
                 None \<Rightarrow> None
               | Some (exponent, s3) \<Rightarrow> Some (sign @ whole @ frac @ exponent, s3)))"

text \<open>One token at the start of a string that begins with \<open>c\<close>, and what follows it.\<close>

definition json_token :: "char \<Rightarrow> string \<Rightarrow> (json_tok \<times> string) option" where
  "json_token c cs =
     (if c = CHR ''{'' then Some (TObjOpen, cs)
      else if c = CHR ''}'' then Some (TObjClose, cs)
      else if c = CHR ''['' then Some (TArrOpen, cs)
      else if c = CHR '']'' then Some (TArrClose, cs)
      else if c = CHR '':'' then Some (TColon, cs)
      else if c = CHR '','' then Some (TComma, cs)
      else if c = CHR 0x22 then map_option (\<lambda>(s, rest). (TStr s, rest)) (json_string cs)
      else if c = CHR ''t'' then (if take 3 cs = ''rue'' then Some (TLit (JBool True), drop 3 cs) else None)
      else if c = CHR ''f'' then (if take 4 cs = ''alse'' then Some (TLit (JBool False), drop 4 cs) else None)
      else if c = CHR ''n'' then (if take 3 cs = ''ull'' then Some (TLit JNull, drop 3 cs) else None)
      else map_option (\<lambda>(n, rest). (TNum n, rest)) (json_number (c # cs)))"

text \<open>Every token takes at least one character.\<close>

lemma json_string_shorter: "json_string cs = Some (s, rest) \<Longrightarrow> length rest < length cs"
proof (induction cs arbitrary: s rule: json_string.induct)
  case (2 c cs)
  then show ?case by (fastforce split: if_splits option.splits prod.splits)
qed simp

lemma length_dropWhile: "length (dropWhile P xs) \<le> length xs"
  by (induction xs) auto

lemma json_sign_shorter: "json_sign s = (t, rest) \<Longrightarrow> length rest \<le> length s"
  by (auto simp: json_sign_def split: if_splits)

lemma json_frac_shorter: "json_frac s = Some (t, rest) \<Longrightarrow> length rest \<le> length s"
  by (cases s) (auto simp: json_frac_def Let_def split: if_splits intro: le_SucI length_dropWhile)

lemma json_exp_shorter:
  assumes "json_exp s = Some (t, rest)"
  shows "length rest \<le> length s"
proof (cases s)
  case (Cons c r)
  have "length (dropWhile is_digit (drop n r)) \<le> length r" for n
    by (rule le_trans [OF length_dropWhile]) simp
  with assms Cons show ?thesis by (auto simp: json_exp_def Let_def split: if_splits intro: le_SucI length_dropWhile)
qed (use assms in \<open>simp add: json_exp_def\<close>)

lemma json_number_shorter:
  assumes "json_number s = Some (n, rest)"
  shows "length rest < length s"
proof -
  obtain sign s1 where sign: "json_sign s = (sign, s1)" by fastforce
  define digits where "digits = takeWhile is_digit s1"
  define whole where "whole = (if hd digits = CHR ''0'' then take 1 digits else digits)"
  from assms obtain frac s2 expo where frac: "json_frac (drop (length whole) s1) = Some (frac, s2)"
    and ex: "json_exp s2 = Some (expo, rest)" and digits: "digits \<noteq> []"
    by (auto simp: json_number_def sign Let_def digits_def whole_def split: if_splits option.splits)
  have "whole \<noteq> []" "s1 \<noteq> []" using digits by (auto simp: whole_def digits_def)
  then have "length (drop (length whole) s1) < length s1" by simp
  with json_sign_shorter [OF sign] json_frac_shorter [OF frac] json_exp_shorter [OF ex] show ?thesis by linarith
qed

lemma json_token_shorter: "json_token c cs = Some (t, rest) \<Longrightarrow> length rest < Suc (length cs)"
  by (auto simp: json_token_def dest: json_string_shorter json_number_shorter split: if_splits)

function json_lex :: "string \<Rightarrow> json_tok list option" where
  "json_lex [] = Some []"
| "json_lex (c # cs) =
     (if json_space c then json_lex cs
      else case json_token c cs of
        None \<Rightarrow> None
      | Some (t, rest) \<Rightarrow> map_option ((#) t) (json_lex rest))"
  by pat_completeness auto
termination by (relation "measure length") (auto dest: json_token_shorter)

subsection \<open>Parser\<close>

text \<open>An open array with the values read so far, or an open object with the members read so far and the
  name of the member being read; newest first.\<close>

datatype json_frame = FArr "json list" | FObj "(string \<times> json) list" string

text \<open>What the parser expects: a value, a value or the end of an array, a name or the end of an object,
  a name, the colon after a name, or, after a complete value, whatever may follow it.\<close>

datatype json_mode = MValue | MFirst | MMembers | MName "(string \<times> json) list" | MColon "(string \<times> json) list" string | MDone json

definition json_max_depth :: nat where "json_max_depth = 10000"

fun json_run :: "nat \<Rightarrow> json_tok list \<Rightarrow> json_mode \<Rightarrow> json_frame list \<Rightarrow> json option" where
  "json_run lim [] m K = (case (m, K) of (MDone v, []) \<Rightarrow> Some v | _ \<Rightarrow> None)"
| "json_run lim (t # ts) m K =
     (case m of
        MDone v \<Rightarrow>
          (case K of
             [] \<Rightarrow> None
           | FArr vs # K' \<Rightarrow>
               (case t of
                  TComma \<Rightarrow> json_run lim ts MValue (FArr (v # vs) # K')
                | TArrClose \<Rightarrow> json_run lim ts (MDone (JArr (rev (v # vs)))) K'
                | _ \<Rightarrow> None)
           | FObj ms k # K' \<Rightarrow>
               (case t of
                  TComma \<Rightarrow> json_run lim ts (MName ((k, v) # ms)) K'
                | TObjClose \<Rightarrow> json_run lim ts (MDone (JObj (rev ((k, v) # ms)))) K'
                | _ \<Rightarrow> None))
      | MMembers \<Rightarrow>
          (case t of
             TObjClose \<Rightarrow> json_run lim ts (MDone (JObj [])) K
           | TStr k \<Rightarrow> json_run lim ts (MColon [] k) K
           | _ \<Rightarrow> None)
      | MName ms \<Rightarrow> (case t of TStr k \<Rightarrow> json_run lim ts (MColon ms k) K | _ \<Rightarrow> None)
      | MColon ms k \<Rightarrow> (case t of TColon \<Rightarrow> json_run lim ts MValue (FObj ms k # K) | _ \<Rightarrow> None)
      | _ \<Rightarrow>
          (case t of
             TStr s \<Rightarrow> json_run lim ts (MDone (JStr s)) (if m = MFirst then FArr [] # K else K)
           | TNum n \<Rightarrow> json_run lim ts (MDone (JNum n)) (if m = MFirst then FArr [] # K else K)
           | TLit v \<Rightarrow> json_run lim ts (MDone v) (if m = MFirst then FArr [] # K else K)
           | TArrOpen \<Rightarrow>
               if length K + (if m = MFirst then 1 else 0) \<ge> lim then None
               else json_run lim ts MFirst (if m = MFirst then FArr [] # K else K)
           | TObjOpen \<Rightarrow>
               if length K + (if m = MFirst then 1 else 0) \<ge> lim then None
               else json_run lim ts MMembers (if m = MFirst then FArr [] # K else K)
           | TArrClose \<Rightarrow> if m = MFirst then json_run lim ts (MDone (JArr [])) K else None
           | _ \<Rightarrow> None))"

definition json_parse_depth :: "nat \<Rightarrow> string \<Rightarrow> json option" where
  "json_parse_depth lim s = (case json_lex s of None \<Rightarrow> None | Some ts \<Rightarrow> json_run lim ts MValue [])"

definition json_parse :: "string \<Rightarrow> json option" where
  "json_parse s = json_parse_depth json_max_depth s"

subsection \<open>Writer\<close>

fun json_nat :: "nat \<Rightarrow> string" where
  "json_nat n = (if n < 10 then [char_of (48 + n)] else json_nat (n div 10) @ [char_of (48 + n mod 10)])"

declare json_nat.simps [simp del]

definition json_int :: "int \<Rightarrow> string" where
  "json_int i = (if i < 0 then CHR ''-'' # json_nat (nat (- i)) else json_nat (nat i))"

text \<open>The characters below 128: the quote, the backslash, control characters and the three that HTML
  treats specially are escaped.\<close>

definition json_quote_char :: "char \<Rightarrow> string" where
  "json_quote_char c = (let n = of_char c in
     if n = 34 \<or> n = 92 then [CHR 0x5C, c]
     else if n = 8 then [CHR 0x5C, CHR ''b'']
     else if n = 12 then [CHR 0x5C, CHR ''f'']
     else if n = 10 then [CHR 0x5C, CHR ''n'']
     else if n = 13 then [CHR 0x5C, CHR ''r'']
     else if n = 9 then [CHR 0x5C, CHR ''t'']
     else if n < 32 \<or> n = 60 \<or> n = 62 \<or> n = (38 :: nat)
     then [CHR 0x5C, CHR ''u'', CHR ''0'', CHR ''0'', hex_digit (n div 16), hex_digit (n mod 16)]
     else [c])"

fun json_quote_body :: "string \<Rightarrow> string" where
  "json_quote_body [] = []"
| "json_quote_body (c # cs) =
     (if (of_char c :: nat) < 128 then json_quote_char c @ json_quote_body cs
      else if utf8_len (c # cs) = 0 then CHR 0x5C # ''ufffd'' @ json_quote_body cs
      else if take 3 (c # cs) = utf8_encode 8232 then CHR 0x5C # ''u2028'' @ json_quote_body (drop 2 cs)
      else if take 3 (c # cs) = utf8_encode 8233 then CHR 0x5C # ''u2029'' @ json_quote_body (drop 2 cs)
      else take (utf8_len (c # cs)) (c # cs) @ json_quote_body (drop (utf8_len (c # cs) - 1) cs))"

definition json_quote :: "string \<Rightarrow> string" where
  "json_quote s = CHR 0x22 # json_quote_body s @ [CHR 0x22]"

fun json_join :: "string list \<Rightarrow> string" where
  "json_join [] = []"
| "json_join [x] = x"
| "json_join (x # y # xs) = x @ CHR '','' # json_join (y # xs)"

fun json_print :: "json \<Rightarrow> string" where
  "json_print JNull = ''null''"
| "json_print (JBool b) = (if b then ''true'' else ''false'')"
| "json_print (JNum n) = n"
| "json_print (JStr s) = json_quote s"
| "json_print (JArr vs) = CHR ''['' # json_join (map json_print vs) @ [CHR '']'']"
| "json_print (JObj ms) = CHR ''{'' # json_join (map (\<lambda>(k, v). json_quote k @ CHR '':'' # json_print v) ms) @ [CHR ''}'']"

subsection \<open>Decoding into structs\<close>

text \<open>The folding of names: ASCII letters to upper case, and the two other characters whose case folding
  is an ASCII letter (long s and the Kelvin sign).\<close>

fun json_fold_name :: "string \<Rightarrow> string" where
  "json_fold_name [] = []"
| "json_fold_name (c # cs) =
     (let n = of_char c :: nat in
      if 97 \<le> n \<and> n \<le> 122 then char_of (n - 32) # json_fold_name cs
      else if take 2 (c # cs) = utf8_encode 383 then CHR ''S'' # json_fold_name (drop 1 cs)
      else if take 3 (c # cs) = utf8_encode 8490 then CHR ''K'' # json_fold_name (drop 2 cs)
      else c # json_fold_name cs)"

type_synonym 'a json_fields = "(string \<times> (json \<Rightarrow> 'a \<Rightarrow> 'a option)) list"

definition json_field :: "'a json_fields \<Rightarrow> string \<Rightarrow> (json \<Rightarrow> 'a \<Rightarrow> 'a option) option" where
  "json_field fields name =
     (case map_of fields name of
        Some f \<Rightarrow> Some f
      | None \<Rightarrow> map_of (map (\<lambda>(k, f). (json_fold_name k, f)) fields) (json_fold_name name))"

text \<open>\<open>strict\<close> is \<^verbatim>\<open>DisallowUnknownFields\<close>.\<close>

fun json_members :: "bool \<Rightarrow> 'a json_fields \<Rightarrow> (string \<times> json) list \<Rightarrow> 'a \<Rightarrow> 'a option" where
  "json_members strict fields [] a = Some a"
| "json_members strict fields ((k, v) # ms) a =
     (case json_field fields k of
        None \<Rightarrow> if strict then None else json_members strict fields ms a
      | Some f \<Rightarrow> (case f v a of None \<Rightarrow> None | Some b \<Rightarrow> json_members strict fields ms b))"

definition json_struct :: "bool \<Rightarrow> 'a json_fields \<Rightarrow> json \<Rightarrow> 'a \<Rightarrow> 'a option" where
  "json_struct strict fields j a =
     (case j of JNull \<Rightarrow> Some a | JObj ms \<Rightarrow> json_members strict fields ms a | _ \<Rightarrow> None)"

definition json_to_string :: "json \<Rightarrow> string \<Rightarrow> string option" where
  "json_to_string j old = (case j of JNull \<Rightarrow> Some old | JStr s \<Rightarrow> Some s | _ \<Rightarrow> None)"

definition json_to_bool :: "json \<Rightarrow> bool \<Rightarrow> bool option" where
  "json_to_bool j old = (case j of JNull \<Rightarrow> Some old | JBool b \<Rightarrow> Some b | _ \<Rightarrow> None)"

definition digits_value :: "string \<Rightarrow> nat" where
  "digits_value s = foldl (\<lambda>n c. n * 10 + (of_char c - 48)) 0 s"

text \<open>A number literal as a signed or an unsigned integer: fractions and exponents are refused, and so is
  the sign for an unsigned one.\<close>

definition literal_nat :: "string \<Rightarrow> nat option" where
  "literal_nat n = (if n \<noteq> [] \<and> list_all is_digit n then Some (digits_value n) else None)"

definition literal_int :: "string \<Rightarrow> int option" where
  "literal_int n =
     (if n \<noteq> [] \<and> hd n = CHR ''-'' then map_option (\<lambda>k. - int k) (literal_nat (tl n))
      else map_option int (literal_nat n))"

definition json_to_int64 :: "json \<Rightarrow> int \<Rightarrow> int option" where
  "json_to_int64 j old =
     (case j of
        JNull \<Rightarrow> Some old
      | JNum n \<Rightarrow> (case literal_int n of
          Some i \<Rightarrow> if - (2 ^ 63) \<le> i \<and> i < 2 ^ 63 then Some i else None
        | None \<Rightarrow> None)
      | _ \<Rightarrow> None)"

definition json_to_word :: "json \<Rightarrow> 'w :: len word \<Rightarrow> 'w word option" where
  "json_to_word j old =
     (case j of
        JNull \<Rightarrow> Some old
      | JNum n \<Rightarrow> (case literal_nat n of
          Some k \<Rightarrow> if k < 2 ^ LENGTH('w) then Some (word_of_nat k) else None
        | None \<Rightarrow> None)
      | _ \<Rightarrow> None)"

text \<open>A slice is nil (\<^term>\<open>None\<close>) or a list; a pointer is nil or points to a value.\<close>

type_synonym 'a slice = "'a list option"

definition slice_list :: "'a slice \<Rightarrow> 'a list" where
  "slice_list s = (case s of None \<Rightarrow> [] | Some xs \<Rightarrow> xs)"

definition json_to_slice :: "(json \<Rightarrow> 'a \<Rightarrow> 'a option) \<Rightarrow> 'a \<Rightarrow> json \<Rightarrow> 'a slice \<Rightarrow> 'a slice option" where
  "json_to_slice f zero j old =
     (case j of
        JNull \<Rightarrow> Some None
      | JArr vs \<Rightarrow> map_option Some (those (map (\<lambda>v. f v zero) vs))
      | _ \<Rightarrow> None)"

definition json_to_pointer :: "(json \<Rightarrow> 'a \<Rightarrow> 'a option) \<Rightarrow> 'a \<Rightarrow> json \<Rightarrow> 'a option \<Rightarrow> 'a option option" where
  "json_to_pointer f zero j old =
     (case j of
        JNull \<Rightarrow> Some None
      | _ \<Rightarrow> map_option Some (f j (case old of Some a \<Rightarrow> a | None \<Rightarrow> zero)))"

definition json_slice :: "('a \<Rightarrow> json) \<Rightarrow> 'a slice \<Rightarrow> json" where
  "json_slice f s = (case s of None \<Rightarrow> JNull | Some xs \<Rightarrow> JArr (map f xs))"

definition json_pointer :: "('a \<Rightarrow> json) \<Rightarrow> 'a option \<Rightarrow> json" where
  "json_pointer f p = (case p of None \<Rightarrow> JNull | Some a \<Rightarrow> f a)"

text \<open>The values of a Go \<^verbatim>\<open>int64\<close>.\<close>

definition in_int64 :: "int \<Rightarrow> bool" where
  "in_int64 i \<longleftrightarrow> - (2 ^ 63) \<le> i \<and> i < 2 ^ 63"

section \<open>Lemmas\<close>

subsection \<open>Strings\<close>

definition ascii :: "string \<Rightarrow> bool" where
  "ascii s \<longleftrightarrow> list_all (\<lambda>c. (of_char c :: nat) < 128) s"

lemma ascii_append [simp]: "ascii (s @ t) \<longleftrightarrow> ascii s \<and> ascii t"
  by (simp add: ascii_def)

lemma ascii_Nil [simp]: "ascii []"
  by (simp add: ascii_def)

lemma ascii_Cons [simp]: "ascii (c # s) \<longleftrightarrow> (of_char c :: nat) < 128 \<and> ascii s"
  by (simp add: ascii_def)

lemma hex_val_digit [simp]: "k < 16 \<Longrightarrow> hex_val (hex_digit k) = Some k"
  by (auto simp: hex_val_def hex_digit_def Let_def)

lemma utf8_encode_ascii: "n < 128 \<Longrightarrow> utf8_encode n = [char_of n]"
  by (simp add: utf8_encode_def)

lemma utf8_len_ascii: "(of_char c :: nat) < 128 \<Longrightarrow> utf8_len (c # cs) = 1"
  by (simp add: utf8_len_def)

lemma char_eq_of_char: "c = d \<longleftrightarrow> (of_char c :: nat) = of_char d"
  by (metis char_of_char)

lemma json_unicode_escape_ascii:
  assumes "n < 128"
  shows "json_unicode_escape (CHR ''0'' # CHR ''0'' # hex_digit (n div 16) # hex_digit (n mod 16) # rest) =
    Some ([char_of n], 4)"
proof -
  have "hex_val (CHR ''0'') = Some 0" by (simp add: hex_val_def)
  then have "hex4 (CHR ''0'' # CHR ''0'' # hex_digit (n div 16) # hex_digit (n mod 16) # rest) =
      Some (n div 16 * 16 + n mod 16)"
    using assms by (simp add: hex4_def)
  then show ?thesis using assms by (simp add: json_unicode_escape_def utf8_encode_ascii)
qed

lemma escaped_chars:
  "char_of (34 :: nat) = CHR 0x22" "char_of (92 :: nat) = CHR 0x5C" "char_of (8 :: nat) = CHR 0x08"
  "char_of (9 :: nat) = CHR 0x09" "char_of (10 :: nat) = CHR 0x0A" "char_of (12 :: nat) = CHR 0x0C"
  "char_of (13 :: nat) = CHR 0x0D"
  by code_simp+

lemma json_quote_char_item:
  assumes "(of_char c :: nat) < 128"
  obtains d ds where "json_quote_char c = d # ds" and "d \<noteq> CHR 0x22"
    and "\<And>tail. json_str_item d (ds @ tail) = Some ([c], length ds)"
proof -
  define n :: nat where "n = of_char c"
  have c: "c = char_of n" by (simp add: n_def)
  have n: "n < 128" using assms by (simp add: n_def)
  note escape = json_unicode_escape_ascii [OF n]
  consider "n = 34 \<or> n = 92" | "n \<in> {8, 9, 10, 12, 13}"
    | "n \<notin> {8, 9, 10, 12, 13}" "n < 32 \<or> n = 60 \<or> n = 62 \<or> n = 38"
    | "\<not> n < 32" "n \<notin> {34, 92, 60, 62, 38}" by blast
  then show thesis
  proof cases
    case 1
    then show ?thesis
      by (intro that [of "CHR 0x5C" "[c]"])
        (auto simp: json_quote_char_def n_def [symmetric] json_str_item_def json_simple_escape_def c escaped_chars)
  next
    case 2
    then show ?thesis
      by (intro that [of "CHR 0x5C" "tl (json_quote_char c)"])
        (auto simp: json_quote_char_def n_def [symmetric] json_str_item_def json_simple_escape_def c escaped_chars)
  next
    case 3
    then have q: "json_quote_char c =
        [CHR 0x5C, CHR ''u'', CHR ''0'', CHR ''0'', hex_digit (n div 16), hex_digit (n mod 16)]"
      using n by (auto simp: json_quote_char_def n_def [symmetric])
    show ?thesis
      by (rule that [OF q]) (simp_all add: json_str_item_def escape c)
  next
    case 4
    then have q: "json_quote_char c = [c]" by (auto simp: json_quote_char_def n_def [symmetric])
    have "c \<noteq> CHR 0x5C" "c \<noteq> CHR 0x22" using 4 by (auto simp: char_eq_of_char n_def [symmetric])
    with 4 n q show ?thesis
      by (intro that [of c "[]"]) (simp_all add: json_str_item_def utf8_len_ascii n_def [symmetric])
  qed
qed

lemma json_string_quote: "ascii s \<Longrightarrow> json_string (json_quote_body s @ CHR 0x22 # rest) = Some (s, rest)"
proof (induction s)
  case (Cons c s)
  then have c: "(of_char c :: nat) < 128" by simp
  obtain d ds where q: "json_quote_char c = d # ds" "d \<noteq> CHR 0x22"
    and item: "\<And>tail. json_str_item d (ds @ tail) = Some ([c], length ds)"
    using json_quote_char_item [OF c] by blast
  from Cons c q show ?case by (simp add: item)
qed simp

lemma json_token_quote: "ascii s \<Longrightarrow> json_token (CHR 0x22) (json_quote_body s @ CHR 0x22 # rest) = Some (TStr s, rest)"
  by (simp add: json_token_def json_string_quote)

subsection \<open>Numbers\<close>

definition json_stop :: "string \<Rightarrow> bool" where
  "json_stop s \<longleftrightarrow> s = [] \<or> hd s = CHR '','' \<or> hd s = CHR '']'' \<or> hd s = CHR ''}'' \<or> hd s = CHR 0x0A"

lemma json_stop_not_number:
  assumes "json_stop s"
  shows "takeWhile is_digit s = []" and "dropWhile is_digit s = s" and "json_frac s = Some ([], s)" and "json_exp s = Some ([], s)"
  using assms by (cases s; auto simp: json_stop_def is_digit_def json_frac_def json_exp_def)+

lemma is_digit_char_of [simp]: "(k :: nat) < 10 \<Longrightarrow> is_digit (char_of (48 + k))"
  by (simp add: is_digit_def)

lemma json_nat_digits: "json_nat n \<noteq> [] \<and> list_all is_digit (json_nat n) \<and> (n \<noteq> 0 \<longrightarrow> hd (json_nat n) \<noteq> CHR ''0'')"
proof (induction n rule: json_nat.induct)
  case (1 n)
  show ?case
  proof (cases "n < 10")
    case True
    moreover have "char_of (48 + n) \<noteq> CHR ''0''" if "n \<noteq> 0"
      using that True by (simp add: char_eq_of_char)
    ultimately show ?thesis by (subst (1 2 3) json_nat.simps) simp
  next
    case False
    with 1 have IH: "json_nat (n div 10) \<noteq> [] \<and> list_all is_digit (json_nat (n div 10)) \<and>
       hd (json_nat (n div 10)) \<noteq> CHR ''0''" by (simp add: div_eq_0_iff)
    have "json_nat n = json_nat (n div 10) @ [char_of (48 + n mod 10)]"
      using False by (subst json_nat.simps) simp
    with IH show ?thesis by simp
  qed
qed

lemma json_nat_zero: "json_nat 0 = ''0''"
  by code_simp

lemma digits_value_append: "digits_value (s @ [c]) = digits_value s * 10 + (of_char c - 48)"
  by (simp add: digits_value_def)

lemma digits_value_nat [simp]: "digits_value (json_nat n) = n"
proof (induction n rule: json_nat.induct)
  case (1 n)
  show ?case
  proof (cases "n < 10")
    case True
    then show ?thesis by (subst json_nat.simps) (simp add: digits_value_def)
  next
    case False
    then have "json_nat n = json_nat (n div 10) @ [char_of (48 + n mod 10)]" by (subst json_nat.simps) simp
    with 1 False show ?thesis by (simp add: digits_value_append)
  qed
qed

lemma literal_nat_json [simp]: "literal_nat (json_nat n) = Some n"
  using json_nat_digits [of n] by (simp add: literal_nat_def)

lemma is_digit_not_minus: "is_digit c \<Longrightarrow> c \<noteq> CHR ''-''"
  by (auto simp: is_digit_def)

lemma hd_json_nat: "is_digit (hd (json_nat n))"
  using json_nat_digits [of n] by (cases "json_nat n") auto

lemma literal_int_json [simp]: "literal_int (json_int i) = Some i"
proof (cases "i < 0")
  case False
  then show ?thesis
    using is_digit_not_minus [OF hd_json_nat, of "nat i"] by (simp add: literal_int_def json_int_def)
qed (simp add: literal_int_def json_int_def)

lemma takeWhile_digits: "list_all is_digit ds \<Longrightarrow> json_stop rest \<Longrightarrow> takeWhile is_digit (ds @ rest) = ds"
  by (induction ds) (auto simp: json_stop_not_number)

lemma json_number_nat:
  assumes "json_sign (pre @ json_nat n @ rest) = (pre, json_nat n @ rest)" and "json_stop rest"
  shows "json_number (pre @ json_nat n @ rest) = Some (pre @ json_nat n, rest)"
proof -
  note digits = json_nat_digits [of n]
  have "(if hd (json_nat n) = CHR ''0'' then take 1 (json_nat n) else json_nat n) = json_nat n"
    using digits by (cases "n = 0") (auto simp: json_nat_zero)
  then show ?thesis
    using digits takeWhile_digits [OF _ assms(2)] json_stop_not_number(3,4) [OF assms(2)]
    by (simp add: json_number_def assms(1))
qed

lemma json_number_int:
  assumes "json_stop rest"
  shows "json_number (json_int i @ rest) = Some (json_int i, rest)"
proof (cases "i < 0")
  case True
  then show ?thesis
    using json_number_nat [of "[CHR ''-'']" "nat (- i)" rest] assms by (simp add: json_int_def json_sign_def)
next
  case False
  have "json_sign (json_nat (nat i) @ rest) = ([], json_nat (nat i) @ rest)"
    using is_digit_not_minus [OF hd_json_nat, of "nat i"] json_nat_digits [of "nat i"]
    by (simp add: json_sign_def)
  with False json_number_nat [of "[]" "nat i" rest] assms show ?thesis by (simp add: json_int_def)
qed

lemma json_int_start:
  obtains c cs where "json_int i = c # cs" and "is_digit c \<or> c = CHR ''-''"
proof -
  have "\<exists>c cs. json_nat n = c # cs \<and> is_digit c" for n
    using json_nat_digits [of n] by (cases "json_nat n") auto
  then show thesis
    using that by (metis json_int_def)
qed

lemma json_token_number:
  assumes "is_digit c \<or> c = CHR ''-''" and "json_number (c # cs) = Some (n, rest)"
  shows "json_token c cs = Some (TNum n, rest)" and "\<not> json_space c"
proof -
  have c: "(of_char c :: nat) = 45 \<or> 48 \<le> (of_char c :: nat) \<and> (of_char c :: nat) \<le> 57"
    using assms(1) by (auto simp: is_digit_def)
  have ne: "c \<noteq> d" if "(of_char d :: nat) < 45 \<or> (of_char d :: nat) > 57" for d
    using c that by auto
  have "c \<noteq> CHR ''{''" "c \<noteq> CHR ''}''" "c \<noteq> CHR ''[''" "c \<noteq> CHR '']''" "c \<noteq> CHR '':''" "c \<noteq> CHR '',''"
    "c \<noteq> CHR 0x22" "c \<noteq> CHR ''t''" "c \<noteq> CHR ''f''" "c \<noteq> CHR ''n''"
    by (rule ne, simp)+
  with assms(2) show "json_token c cs = Some (TNum n, rest)" by (simp add: json_token_def)
  have "c \<noteq> CHR '' ''" "c \<noteq> CHR 0x09" "c \<noteq> CHR 0x0D" "c \<noteq> CHR 0x0A" by (rule ne, simp)+
  then show "\<not> json_space c" by (simp add: json_space_def)
qed

subsection \<open>The round trip\<close>

text \<open>Values that print and parse back: ASCII strings, decimal integers, nesting below the limit.\<close>

fun json_leaf :: "json \<Rightarrow> bool" where
  "json_leaf (JNum n) = (\<exists>i. n = json_int i)"
| "json_leaf (JStr s) = ascii s"
| "json_leaf (JArr vs) = False"
| "json_leaf (JObj ms) = False"
| "json_leaf v = True"

primrec json_ok :: "nat \<Rightarrow> json \<Rightarrow> bool" where
  "json_ok 0 v = json_leaf v"
| "json_ok (Suc d) v =
     (case v of
        JArr vs \<Rightarrow> list_all (json_ok d) vs
      | JObj ms \<Rightarrow> list_all (\<lambda>(k, v). ascii k \<and> json_ok d v) ms
      | _ \<Rightarrow> json_leaf v)"

fun json_tokens :: "json \<Rightarrow> json_tok list" and
  json_tokens_arr :: "json list \<Rightarrow> json_tok list" and
  json_tokens_obj :: "(string \<times> json) list \<Rightarrow> json_tok list" where
  "json_tokens (JStr s) = [TStr s]"
| "json_tokens (JNum n) = [TNum n]"
| "json_tokens (JArr vs) = TArrOpen # json_tokens_arr vs"
| "json_tokens (JObj ms) = TObjOpen # json_tokens_obj ms"
| "json_tokens v = [TLit v]"
| "json_tokens_arr [] = [TArrClose]"
| "json_tokens_arr [v] = json_tokens v @ [TArrClose]"
| "json_tokens_arr (v # w # vs) = json_tokens v @ TComma # json_tokens_arr (w # vs)"
| "json_tokens_obj [] = [TObjClose]"
| "json_tokens_obj [(k, v)] = TStr k # TColon # json_tokens v @ [TObjClose]"
| "json_tokens_obj ((k, v) # m # ms) = TStr k # TColon # json_tokens v @ TComma # json_tokens_obj (m # ms)"

declare json_lex.simps(2) [simp del]

text \<open>Tokens in front of what the rest of the document yields.\<close>

definition json_more :: "json_tok list \<Rightarrow> json_tok list option \<Rightarrow> json_tok list option" where
  "json_more ts x = (case x of None \<Rightarrow> None | Some us \<Rightarrow> Some (ts @ us))"

lemma json_more_more [simp]: "json_more us (json_more ts x) = json_more (us @ ts) x"
  by (simp add: json_more_def split: option.splits)

lemma json_more_single: "map_option ((#) t) x = json_more [t] x"
  by (simp add: json_more_def split: option.splits)

lemma json_lex_punct:
  "json_lex (CHR ''{'' # s) = json_more [TObjOpen] (json_lex s)"
  "json_lex (CHR ''}'' # s) = json_more [TObjClose] (json_lex s)"
  "json_lex (CHR ''['' # s) = json_more [TArrOpen] (json_lex s)"
  "json_lex (CHR '']'' # s) = json_more [TArrClose] (json_lex s)"
  "json_lex (CHR '':'' # s) = json_more [TColon] (json_lex s)"
  "json_lex (CHR '','' # s) = json_more [TComma] (json_lex s)"
  by (simp_all add: json_lex.simps json_space_def json_token_def json_more_single)

lemma json_lex_quote: "ascii k \<Longrightarrow> json_lex (json_quote k @ s) = json_more [TStr k] (json_lex s)"
  by (simp add: json_lex.simps json_quote_def json_token_quote json_space_def json_more_single)

lemma json_lex_leaf:
  assumes "json_leaf v" and "json_stop s"
  shows "json_lex (json_print v @ s) = json_more (json_tokens v) (json_lex s)"
proof (cases v)
  case (JNum n)
  with assms obtain i where n: "n = json_int i" by auto
  obtain c cs where c: "json_int i = c # cs" "is_digit c \<or> c = CHR ''-''" by (rule json_int_start)
  have "json_number (c # cs @ s) = Some (c # cs, s)" using json_number_int [OF assms(2), of i] c by simp
  from json_token_number [OF c(2) this] show ?thesis by (simp add: JNum n c(1) json_lex.simps json_more_single)
next
  case (JBool b)
  then show ?thesis by (cases b) (simp_all add: json_token_def json_space_def json_lex.simps json_more_single)
next
  case (JStr t)
  with assms show ?thesis by (simp add: json_lex_quote json_lex.simps json_more_single)
qed (use assms in \<open>simp_all add: json_token_def json_space_def json_lex.simps json_more_single\<close>)

lemma json_stop_Cons [simp]: "json_stop (CHR '','' # s)" "json_stop (CHR '']'' # s)" "json_stop (CHR ''}'' # s)" "json_stop [CHR 0x0A]" "json_stop []"
  by (simp_all add: json_stop_def)

lemma json_lex_arr:
  assumes "\<And>v s. v \<in> set vs \<Longrightarrow> json_stop s \<Longrightarrow> json_lex (json_print v @ s) = json_more (json_tokens v) (json_lex s)"
  shows "json_lex (json_join (map json_print vs) @ CHR '']'' # s) = json_more (json_tokens_arr vs) (json_lex s)"
  using assms
proof (induction vs rule: induct_list012)
  case (3 v w vs)
  then show ?case by (simp add: json_lex_punct)
qed (simp_all add: json_lex_punct json_more_single)

lemma json_lex_obj:
  assumes "\<And>k v s. (k, v) \<in> set ms \<Longrightarrow> json_stop s \<Longrightarrow>
      ascii k \<and> json_lex (json_print v @ s) = json_more (json_tokens v) (json_lex s)"
  shows "json_lex (json_join (map (\<lambda>(k, v). json_quote k @ CHR '':'' # json_print v) ms) @ CHR ''}'' # s) =
    json_more (json_tokens_obj ms) (json_lex s)"
  using assms
proof (induction ms rule: induct_list012)
  case (2 m)
  obtain k v where m: "m = (k, v)" by (cases m)
  from 2 [of k v "CHR ''}'' # s"] m show ?case by (simp add: json_lex_punct json_lex_quote)
next
  case (3 m m' ms)
  obtain k v where m: "m = (k, v)" by (cases m)
  have "ascii k" and lex: "json_lex (json_print v @ CHR '','' # t) = json_more (json_tokens v) (json_lex (CHR '','' # t))" for t
    using 3(3) [of k v "CHR '','' # t"] m by simp_all
  moreover have "json_lex (json_join (map (\<lambda>(k, v). json_quote k @ CHR '':'' # json_print v) (m' # ms)) @ CHR ''}'' # s) =
      json_more (json_tokens_obj (m' # ms)) (json_lex s)"
    by (rule 3(2)) (use 3(3) in auto)
  ultimately show ?case using m by (simp add: json_lex_punct json_lex_quote)
qed (simp_all add: json_lex_punct json_more_single)

lemma json_lex_print:
  "json_ok d v \<Longrightarrow> json_stop s \<Longrightarrow> json_lex (json_print v @ s) = json_more (json_tokens v) (json_lex s)"
proof (induction d arbitrary: v s)
  case 0
  then show ?case by (simp add: json_lex_leaf)
next
  case (Suc d)
  show ?case
  proof (cases "json_leaf v")
    case True
    with Suc.prems show ?thesis by (simp add: json_lex_leaf)
  next
    case False
    with Suc.prems consider (arr) vs where "v = JArr vs" | (obj) ms where "v = JObj ms"
      by (auto split: json.splits)
    then show ?thesis
    proof cases
      case arr
      with Suc.prems have "list_all (json_ok d) vs" by simp
      with Suc.IH have "json_lex (json_join (map json_print vs) @ CHR '']'' # s) =
          json_more (json_tokens_arr vs) (json_lex s)"
        by (intro json_lex_arr) (simp add: list_all_iff)
      then show ?thesis by (simp add: arr json_lex_punct)
    next
      case obj
      with Suc.prems have "list_all (\<lambda>(k, v). ascii k \<and> json_ok d v) ms" by simp
      with Suc.IH have "json_lex (json_join (map (\<lambda>(k, v). json_quote k @ CHR '':'' # json_print v) ms) @ CHR ''}'' # s) =
          json_more (json_tokens_obj ms) (json_lex s)"
        by (intro json_lex_obj) (auto simp: list_all_iff)
      then show ?thesis by (simp add: obj json_lex_punct)
    qed
  qed
qed

text \<open>The parser reads the tokens of a value as that value, wherever the value stands.\<close>

definition json_value_at :: "json_mode \<Rightarrow> json_frame list \<Rightarrow> json_frame list" where
  "json_value_at m K = (if m = MFirst then FArr [] # K else K)"

definition json_reads :: "nat \<Rightarrow> nat \<Rightarrow> json \<Rightarrow> bool" where
  "json_reads lim n v \<longleftrightarrow> (\<forall>m K ts. (m = MValue \<or> m = MFirst) \<longrightarrow> length (json_value_at m K) \<le> n \<longrightarrow>
     json_run lim (json_tokens v @ ts) m K = json_run lim ts (MDone v) (json_value_at m K))"

lemma json_readsD:
  "json_reads lim n v \<Longrightarrow> m = MValue \<or> m = MFirst \<Longrightarrow> length (json_value_at m K) \<le> n \<Longrightarrow>
   json_run lim (json_tokens v @ ts) m K = json_run lim ts (MDone v) (json_value_at m K)"
  unfolding json_reads_def by blast

lemma json_reads_leaf: "json_leaf v \<Longrightarrow> json_reads lim n v"
  by (cases v) (auto simp: json_reads_def json_value_at_def)

lemma json_run_arr:
  assumes "\<forall>v \<in> set vs. json_reads lim n v" and "length K < n" and "vs \<noteq> []"
    and "mode = MValue \<and> L = FArr us # K \<or> mode = MFirst \<and> L = K \<and> us = []"
  shows "json_run lim (json_tokens_arr vs @ ts) mode L = json_run lim ts (MDone (JArr (rev us @ vs))) K"
  using assms
proof (induction vs arbitrary: us mode L rule: induct_list012)
  case (2 v)
  then have at: "json_value_at mode L = FArr us # K" by (auto simp: json_value_at_def)
  with json_readsD [of lim n v mode L] 2 show ?case by auto
next
  case (3 v w vs)
  then have at: "json_value_at mode L = FArr us # K" by (auto simp: json_value_at_def)
  have "json_run lim (json_tokens_arr (w # vs) @ ts) MValue (FArr (v # us) # K) =
      json_run lim ts (MDone (JArr (rev (v # us) @ w # vs))) K"
    by (rule 3(2)) (use 3(3-) in auto)
  with json_readsD [of lim n v mode L] at 3(3-) show ?case by auto
qed simp

lemma json_run_obj:
  assumes "\<forall>m \<in> set ms. json_reads lim n (snd m)" and "length K < n" and "ms \<noteq> []"
    and "mode = MName us \<or> mode = MMembers \<and> us = []"
  shows "json_run lim (json_tokens_obj ms @ ts) mode K = json_run lim ts (MDone (JObj (rev us @ ms))) K"
  using assms
proof (induction ms arbitrary: us mode rule: induct_list012)
  case (2 m)
  obtain k v where m: "m = (k, v)" by (cases m)
  have "json_value_at MValue (FObj us k # K) = FObj us k # K" by (simp add: json_value_at_def)
  with json_readsD [of lim n v MValue "FObj us k # K"] 2 m show ?case by auto
next
  case (3 m m' ms)
  obtain k v where m: "m = (k, v)" by (cases m)
  have "json_value_at MValue (FObj us k # K) = FObj us k # K" by (simp add: json_value_at_def)
  moreover have "json_run lim (json_tokens_obj (m' # ms) @ ts) (MName ((k, v) # us)) K =
      json_run lim ts (MDone (JObj (rev ((k, v) # us) @ m' # ms))) K"
    by (rule 3(2)) (use 3(3-) in auto)
  ultimately show ?case using json_readsD [of lim n v MValue "FObj us k # K"] 3(3-) m by auto
qed simp

lemma json_ok_reads: "json_ok d v \<Longrightarrow> n + d \<le> lim \<Longrightarrow> json_reads lim n v"
proof (induction d arbitrary: v n)
  case 0
  then show ?case by (simp add: json_reads_leaf)
next
  case (Suc d)
  show ?case
  proof (cases "json_leaf v")
    case False
    have inner: "json_ok d w \<Longrightarrow> json_reads lim (Suc n) w" for w using Suc by simp
    from False Suc.prems consider (arr) vs where "v = JArr vs" | (obj) ms where "v = JObj ms"
      by (auto split: json.splits)
    then show ?thesis
    proof cases
      case arr
      with Suc.prems inner have vs: "\<forall>v \<in> set vs. json_reads lim (Suc n) v" by (auto simp: list_all_iff)
      have "json_run lim (json_tokens_arr vs @ ts) MFirst K = json_run lim ts (MDone v) K" if "length K \<le> n" for K ts
        using json_run_arr [OF vs, of K MFirst K "[]" ts] that arr by (cases "vs = []") auto
      with arr Suc.prems(2) show ?thesis by (auto simp: json_reads_def json_value_at_def)
    next
      case obj
      with Suc.prems inner have ms: "\<forall>m \<in> set ms. json_reads lim (Suc n) (snd m)" by (auto simp: list_all_iff)
      have "json_run lim (json_tokens_obj ms @ ts) MMembers K = json_run lim ts (MDone v) K" if "length K \<le> n" for K ts
        using json_run_obj [OF ms, of K MMembers "[]" ts] that obj by (cases "ms = []") auto
      with obj Suc.prems(2) show ?thesis by (auto simp: json_reads_def json_value_at_def)
    qed
  qed (simp add: json_reads_leaf)
qed

lemma json_parse_depth_print:
  assumes "json_ok d v" and "d \<le> lim" and "json_stop s" and "json_lex s = Some []"
  shows "json_parse_depth lim (json_print v @ s) = Some v"
proof -
  have "json_run lim (json_tokens v @ []) MValue [] = json_run lim [] (MDone v) []"
    using json_readsD [OF json_ok_reads [OF assms(1), of 0], of lim MValue "[]" "[]"] assms(2)
    by (simp add: json_value_at_def)
  then show ?thesis
    by (simp add: json_parse_depth_def json_lex_print [OF assms(1,3)] assms(4) json_more_def)
qed

lemma json_parse_print:
  assumes "json_ok d v" and "d \<le> json_max_depth" and "json_stop s" and "json_lex s = Some []"
  shows "json_parse (json_print v @ s) = Some v"
  using json_parse_depth_print [OF assms] by (simp add: json_parse_def)

lemma json_lex_newline [simp]: "json_lex [CHR 0x0A] = Some []"
  by (simp add: json_lex.simps json_space_def)

subsection \<open>Decoding what was encoded\<close>

lemma json_int_nat: "json_int (int n) = json_nat n"
  by (simp add: json_int_def)

lemma json_leaf_num [simp]: "json_leaf (JNum (json_int i))" "json_leaf (JNum (json_nat n))"
  by (auto simp: json_int_nat [symmetric])

lemma json_ok_leaf: "json_leaf v \<Longrightarrow> json_ok d v"
  by (cases d; cases v) simp_all

lemma json_ok_simps [simp]:
  "json_ok (Suc d) (JArr vs) \<longleftrightarrow> list_all (json_ok d) vs"
  "json_ok (Suc d) (JObj ms) \<longleftrightarrow> list_all (\<lambda>(k, v). ascii k \<and> json_ok d v) ms"
  "json_ok d (JStr s) \<longleftrightarrow> ascii s"
  "json_ok d (JNum (json_int i))" "json_ok d (JNum (json_nat n))" "json_ok d JNull" "json_ok d (JBool b)"
  by (cases d; auto simp: json_int_nat [symmetric])+

declare json_ok.simps [simp del]

lemma json_to_simps [simp]:
  "json_to_string (JStr s) old = Some s"
  "json_to_bool (JBool b) oldb = Some b"
  "- (2 ^ 63) \<le> i \<Longrightarrow> i < 2 ^ 63 \<Longrightarrow> json_to_int64 (JNum (json_int i)) oldi = Some i"
  by (simp_all add: json_to_string_def json_to_bool_def json_to_int64_def)

lemma json_to_word_nat [simp]: "json_to_word (JNum (json_nat (unat w))) old = Some w"
  by (simp add: json_to_word_def unsigned_less)

lemma those_map_Some: "(\<And>x. x \<in> set xs \<Longrightarrow> f x = Some (g x)) \<Longrightarrow> those (map f xs) = Some (map g xs)"
  by (induction xs) simp_all

lemma json_to_slice_json:
  assumes "\<And>x. x \<in> set xs \<Longrightarrow> f (g x) zero = Some x"
  shows "json_to_slice f zero (json_slice g (Some xs)) old = Some (Some xs)"
proof -
  have "those (map (\<lambda>v. f v zero) (map g xs)) = Some (map (\<lambda>x. x) xs)"
    unfolding map_map comp_def by (rule those_map_Some) (rule assms)
  then show ?thesis by (simp add: json_to_slice_def json_slice_def)
qed

lemma json_to_slice_nil [simp]: "json_to_slice f zero (json_slice g None) old = Some None"
  by (simp add: json_to_slice_def json_slice_def)

lemma json_to_pointer_nil [simp]: "json_to_pointer f zero (json_pointer g None) old = Some None"
  by (simp add: json_to_pointer_def json_pointer_def)

lemma slice_list_simps [simp]: "slice_list None = []" "slice_list (Some xs) = xs"
  by (simp_all add: slice_list_def)

subsection \<open>Strings the sources validate are ASCII\<close>

lemma ident_char_ascii: "ident_char c \<Longrightarrow> (of_char c :: nat) < 128"
  by (auto simp: ident_char_def Let_def)

lemma ValidIdentifier_ascii: "ValidIdentifier v n \<Longrightarrow> ascii v"
  by (auto simp: ascii_def list_all_iff dest: ValidIdentifier_chars ident_char_ascii)

lemma validSHA256_ascii: "validSHA256 v \<Longrightarrow> ascii v"
  by (auto simp: validSHA256_def ascii_def list_all_iff lower_hex_char_def Let_def split: if_splits)

lemma b64_encode_ascii [simp]: "ascii (b64_encode bs)"
  by (auto simp: ascii_def list_all_iff b64_encode_def intro: ident_char_ascii b64_char_ident)

lemma lower_hex_digit [simp]: "k < 16 \<Longrightarrow> lower_hex_char (hex_digit k)"
  by (auto simp: lower_hex_char_def hex_digit_def Let_def)

lemma hex_encode_valid: "length bs = 32 \<Longrightarrow> validSHA256 (hex_encode bs)"
proof -
  have "length (hex_encode bs) = 2 * length bs" by (induction bs) (simp_all add: hex_encode_def)
  moreover have "list_all lower_hex_char (hex_encode bs)"
  proof (induction bs)
    case (Cons b bs)
    then show ?case using unat_byte_bound [of b] by (simp add: hex_encode_def)
  qed (simp add: hex_encode_def)
  ultimately show "length bs = 32 \<Longrightarrow> validSHA256 (hex_encode bs)" by (simp add: validSHA256_def)
qed

subsection \<open>Bounds on the length of a document\<close>

lemma length_json_quote_char: "length (json_quote_char c) \<le> 6"
  by (simp add: json_quote_char_def Let_def)

lemma length_json_quote: "ascii s \<Longrightarrow> length (json_quote s) \<le> 6 * length s + 2"
proof -
  have "ascii s \<Longrightarrow> length (json_quote_body s) \<le> 6 * length s"
  proof (induction s)
    case (Cons c s)
    then show ?case using length_json_quote_char [of c] by simp
  qed simp
  then show "ascii s \<Longrightarrow> length (json_quote s) \<le> 6 * length s + 2" by (simp add: json_quote_def)
qed

lemma length_json_nat: "n < 10 ^ Suc k \<Longrightarrow> length (json_nat n) \<le> Suc k"
proof (induction k arbitrary: n)
  case 0
  then show ?case by (subst json_nat.simps) simp
next
  case (Suc k)
  show ?case
  proof (cases "n < 10")
    case True
    then show ?thesis by (subst json_nat.simps) simp
  next
    case False
    have "n div 10 < 10 ^ Suc k" using Suc.prems by (simp add: less_mult_imp_div_less)
    from Suc.IH [OF this] False show ?thesis by (subst json_nat.simps) simp
  qed
qed

lemma length_json_int: "- (2 ^ 63) \<le> i \<Longrightarrow> i < 2 ^ 63 \<Longrightarrow> length (json_int i) \<le> 21"
proof -
  assume i: "- (2 ^ 63) \<le> i" "i < 2 ^ 63"
  have short: "length (json_nat n) \<le> 20" if "n \<le> 2 ^ 63" for n
    using length_json_nat [of n 19] that by simp
  have "length (json_nat (nat i)) \<le> 20" "length (json_nat (nat (- i))) \<le> 20"
    by (rule short, use i in \<open>simp add: nat_le_iff\<close>)+
  then show "length (json_int i) \<le> 21" unfolding json_int_def by (cases "i < 0") simp_all
qed

lemma length_json_join: "length (json_join xs) \<le> sum_list (map (\<lambda>x. Suc (length x)) xs)"
  by (induction xs rule: json_join.induct) auto

text \<open>An upper bound on the printed length, by the shape of the value.\<close>

fun json_size :: "json \<Rightarrow> nat" where
  "json_size (JStr s) = 6 * length s + 2"
| "json_size (JNum n) = length n"
| "json_size (JArr vs) = sum_list (map (\<lambda>v. Suc (json_size v)) vs) + 2"
| "json_size (JObj ms) = sum_list (map (\<lambda>(k, v). 6 * length k + json_size v + 4) ms) + 2"
| "json_size v = 5"

lemma json_size_bound: "json_ok d v \<Longrightarrow> length (json_print v) \<le> json_size v"
proof (induction d arbitrary: v)
  case 0
  then show ?case by (cases v) (auto simp: json_ok.simps dest: length_json_quote)
next
  case (Suc d)
  show ?case
  proof (cases v)
    case (JArr vs)
    with Suc have "\<forall>w \<in> set vs. length (json_print w) \<le> json_size w" by (simp add: list_all_iff)
    then have "sum_list (map (\<lambda>x. Suc (length x)) (map json_print vs)) \<le> sum_list (map (\<lambda>v. Suc (json_size v)) vs)"
      by (induction vs) auto
    with JArr length_json_join [of "map json_print vs"] show ?thesis by simp
  next
    case (JObj ms)
    with Suc have "\<forall>(k, w) \<in> set ms. ascii k \<and> length (json_print w) \<le> json_size w" by (fastforce simp: list_all_iff)
    then have "sum_list (map (\<lambda>x. Suc (length x)) (map (\<lambda>(k, v). json_quote k @ CHR '':'' # json_print v) ms)) \<le>
        sum_list (map (\<lambda>(k, v). 6 * length k + json_size v + 4) ms)"
    proof (induction ms)
      case (Cons m ms)
      then show ?case using length_json_quote [of "fst m"] by (cases m) fastforce
    qed simp
    with JObj length_json_join [of "map (\<lambda>(k, v). json_quote k @ CHR '':'' # json_print v) ms"] show ?thesis by simp
  qed (use Suc.prems in \<open>auto simp: json_ok.simps dest: length_json_quote\<close>)
qed

lemma json_size_slice:
  assumes "\<And>x. x \<in> set (slice_list xs) \<Longrightarrow> json_size (f x) \<le> b"
  shows "json_size (json_slice f xs) \<le> length (slice_list xs) * Suc b + 5"
proof (cases xs)
  case (Some ys)
  with assms have "sum_list (map (\<lambda>v. Suc (json_size v)) (map f ys)) \<le> length ys * Suc b"
    by (induction ys arbitrary: xs) (simp_all, fastforce)
  with Some show ?thesis by (simp add: json_slice_def)
qed (simp add: json_slice_def)

lemma ValidIdentifier_length: "ValidIdentifier v n \<Longrightarrow> length v \<le> n"
  by (auto simp: ValidIdentifier_def split: if_splits)

lemma length_json_word: "length (json_nat (unat (w :: 'a :: len word))) \<le> 20" if "LENGTH('a) \<le> 64"
proof -
  have "(2 :: nat) ^ LENGTH('a) \<le> 2 ^ 64" by (rule power_increasing [OF that]) simp
  then have "unat w < 2 ^ 64" by (rule less_le_trans [OF unsigned_less])
  then show ?thesis using length_json_nat [of "unat w" 19] by simp
qed

end
