(* ===== verification/GenState.thy ===== *)
theory GenState
  imports GoTime Sha256 Json "HOL-Library.List_Lexorder" "HOL-Library.Char_ord"
begin

text \<open>
  \<^verbatim>\<open>internal/generation/state.go\<close>, first part: the durable record of the generation coordinator, its
  validation (\<^verbatim>\<open>validateState\<close>), the transitions between consecutive records (\<^verbatim>\<open>validateTransition\<close>) and
  the canonical, authenticated encoding of a record. The operations of the store are in \<^verbatim>\<open>GenStore\<close>.

  A generation is what every replica serves; the coordinator moves from one to the next through
  PREPARING (all replicas acknowledge that they have it), DRAINING (every lease on the old one runs
  out) and COMMITTING (all replicas acknowledge that they serve it). Times in a record are Unix seconds.
\<close>

section \<open>Definitions\<close>

subsection \<open>Data\<close>

definition PhaseStable :: string where "PhaseStable = ''STABLE''"
definition PhasePreparing :: string where "PhasePreparing = ''PREPARING''"
definition PhaseDraining :: string where "PhaseDraining = ''DRAINING''"
definition PhaseCommitting :: string where "PhaseCommitting = ''COMMITTING''"
definition AckPrepared :: string where "AckPrepared = ''PREPARED''"
definition AckActive :: string where "AckActive = ''ACTIVE''"

definition StateLeaseDuration :: duration where "StateLeaseDuration = 5 * second"
definition DrainDuration :: duration where "DrainDuration = 10 * second"
definition maximumStateBytes :: nat where "maximumStateBytes = 1024 * 1024"
definition zeroDigest :: string where "zeroDigest = replicate 64 (CHR ''0'')"

record generation =
  gn_ID :: string
  gn_Sequence :: "32 word"
  gn_ReceiptSHA256 :: string

record replica_ref =
  rr_ID :: string
  rr_Role :: string

record acknowledgement =
  ak_ReplicaID :: string
  ak_Role :: string
  ak_Stage :: string
  ak_GenerationID :: string
  ak_ReceiptSHA256 :: string
  ak_AcknowledgedAt :: int

record gen_state =
  gs_Schema :: int
  gs_Revision :: "64 word"
  gs_PreviousRecordSHA256 :: string
  gs_Phase :: string
  gs_Active :: generation
  gs_Pending :: "generation option"
  gs_RequiredReplicas :: "replica_ref slice"
  gs_Acknowledgements :: "acknowledgement slice"
  gs_PrepareDeadline :: int
  gs_DrainUntil :: int
  gs_CommitDeadline :: int
  gs_UpdatedAt :: int
  gs_RecordHMACB64URL :: string

definition generation_zero :: generation where
  "generation_zero = \<lparr>gn_ID = [], gn_Sequence = 0, gn_ReceiptSHA256 = []\<rparr>"

definition replica_zero :: replica_ref where
  "replica_zero = \<lparr>rr_ID = [], rr_Role = []\<rparr>"

definition ack_zero :: acknowledgement where
  "ack_zero = \<lparr>ak_ReplicaID = [], ak_Role = [], ak_Stage = [], ak_GenerationID = [], ak_ReceiptSHA256 = [],
     ak_AcknowledgedAt = 0\<rparr>"

definition state_zero :: gen_state where
  "state_zero = \<lparr>gs_Schema = 0, gs_Revision = 0, gs_PreviousRecordSHA256 = [], gs_Phase = [],
     gs_Active = generation_zero, gs_Pending = None, gs_RequiredReplicas = None, gs_Acknowledgements = None,
     gs_PrepareDeadline = 0, gs_DrainUntil = 0, gs_CommitDeadline = 0, gs_UpdatedAt = 0,
     gs_RecordHMACB64URL = []\<rparr>"

text \<open>The elements of the two slices.\<close>

abbreviation gs_replicas :: "gen_state \<Rightarrow> replica_ref list" where
  "gs_replicas s \<equiv> slice_list (gs_RequiredReplicas s)"

abbreviation gs_acks :: "gen_state \<Rightarrow> acknowledgement list" where
  "gs_acks s \<equiv> slice_list (gs_Acknowledgements s)"

subsection \<open>Validation\<close>

definition gen_validSHA256 :: "string \<Rightarrow> bool" where
  "gen_validSHA256 value \<longleftrightarrow>
     \<not> (length value \<noteq> 64 \<or> map (\<lambda>c. let n = of_char c :: nat in if 65 \<le> n \<and> n \<le> 90 then char_of (n + 32) else c) value \<noteq> value) \<and>
     list_all (\<lambda>c. hex_val c \<noteq> None) value"

definition validGeneration :: "generation \<Rightarrow> bool" where
  "validGeneration g \<longleftrightarrow> ValidIdentifier (gn_ID g) 64 \<and> gen_validSHA256 (gn_ReceiptSHA256 g)"

definition sameGeneration :: "generation \<Rightarrow> generation \<Rightarrow> bool" where
  "sameGeneration l r \<longleftrightarrow> gn_ID l = gn_ID r \<and> gn_Sequence l = gn_Sequence r \<and>
     gn_ReceiptSHA256 l = gn_ReceiptSHA256 r"

definition gen_validPending :: "gen_state \<Rightarrow> bool" where
  "gen_validPending s = (case gs_Pending s of
     None \<Rightarrow> False
   | Some p \<Rightarrow> validGeneration p \<and> gn_Sequence p = gn_Sequence (gs_Active s) + 1 \<and> gn_ID p \<noteq> gn_ID (gs_Active s))"

text \<open>The loop of \<^verbatim>\<open>validReplicas\<close>: \<open>seen\<close> and the number of replicas of each role.\<close>

fun gen_replicas_loop :: "replica_ref list \<Rightarrow> string list \<Rightarrow> nat \<Rightarrow> nat \<Rightarrow> bool" where
  "gen_replicas_loop [] seen cp fo = (cp > 0 \<and> fo > 0)"
| "gen_replicas_loop (v # vs) seen cp fo =
     (if \<not> ValidIdentifier (rr_ID v) 64 \<or> (rr_Role v \<noteq> ''controlplane'' \<and> rr_Role v \<noteq> ''firmwareorigin'') then False
      else if rr_ID v \<in> set seen then False
      else gen_replicas_loop vs (rr_ID v # seen)
        (if rr_Role v = ''controlplane'' then Suc cp else cp)
        (if rr_Role v = ''firmwareorigin'' then Suc fo else fo))"

definition gen_validReplicas :: "replica_ref list \<Rightarrow> bool" where
  "gen_validReplicas values = (if length values < 2 \<or> length values > 64 then False else gen_replicas_loop values [] 0 0)"

definition gen_validTime :: "go_time \<Rightarrow> bool" where
  "gen_validTime t = (let seconds = time_unix (time_utc t) in seconds \<ge> 1609459200 \<and> seconds \<le> 4102444800)"

definition containsReplica :: "replica_ref list \<Rightarrow> replica_ref \<Rightarrow> bool" where
  "containsReplica values target = list_ex (\<lambda>v. v = target) values"

definition sortReplicas :: "replica_ref list \<Rightarrow> replica_ref list" where
  "sortReplicas values = sort_key rr_ID values"

fun ackStage :: "acknowledgement list \<Rightarrow> string \<Rightarrow> string" where
  "ackStage [] replicaID = []"
| "ackStage (a # acks) replicaID = (if ak_ReplicaID a = replicaID then ak_Stage a else ackStage acks replicaID)"

definition ackMatches :: "acknowledgement \<Rightarrow> generation \<Rightarrow> bool" where
  "ackMatches a g \<longleftrightarrow> ak_GenerationID a = gn_ID g \<and> ak_ReceiptSHA256 a = gn_ReceiptSHA256 g"

definition allAcknowledged :: "gen_state \<Rightarrow> string \<Rightarrow> bool" where
  "allAcknowledged s stage =
     (if length (gs_acks s) \<noteq> length (gs_replicas s) then False
      else list_all (\<lambda>(replica, a). \<not> (ak_ReplicaID a \<noteq> rr_ID replica \<or> ak_Role a \<noteq> rr_Role replica \<or> ak_Stage a \<noteq> stage))
        (zip (gs_replicas s) (gs_acks s)))"

definition gen_hmac_field_ok :: "string \<Rightarrow> bool" where
  "gen_hmac_field_ok h = (if h \<noteq> [] then (case b64_decode h of None \<Rightarrow> False | Some d \<Rightarrow> length d = 32) else True)"

definition gen_ack_ok :: "gen_state \<Rightarrow> string list \<Rightarrow> acknowledgement \<Rightarrow> bool" where
  "gen_ack_ok s seen a \<longleftrightarrow>
     \<not> (ak_ReplicaID a \<in> set seen \<or>
        \<not> containsReplica (gs_replicas s) \<lparr>rr_ID = ak_ReplicaID a, rr_Role = ak_Role a\<rparr> \<or>
        (ak_Stage a \<noteq> AckPrepared \<and> ak_Stage a \<noteq> AckActive) \<or>
        \<not> ValidIdentifier (ak_GenerationID a) 64 \<or> \<not> gen_validSHA256 (ak_ReceiptSHA256 a) \<or>
        ak_AcknowledgedAt a < 1609459200 \<or> ak_AcknowledgedAt a > gs_UpdatedAt s)"

fun gen_acks_loop :: "gen_state \<Rightarrow> acknowledgement list \<Rightarrow> string list \<Rightarrow> bool" where
  "gen_acks_loop s [] seen = True"
| "gen_acks_loop s (a # acks) seen = (if \<not> gen_ack_ok s seen a then False else gen_acks_loop s acks (ak_ReplicaID a # seen))"

definition gen_phase_ok :: "gen_state \<Rightarrow> bool" where
  "gen_phase_ok s =
     (if gs_Phase s = PhaseStable then
        \<not> (gs_Pending s \<noteq> None \<or> gs_acks s \<noteq> [] \<or> gs_PrepareDeadline s \<noteq> 0 \<or> gs_DrainUntil s \<noteq> 0 \<or> gs_CommitDeadline s \<noteq> 0)
      else if gs_Phase s = PhasePreparing then
        \<not> (\<not> gen_validPending s \<or> gs_PrepareDeadline s \<le> gs_UpdatedAt s \<or> gs_DrainUntil s \<noteq> 0 \<or>
           gs_CommitDeadline s < 30 \<or> gs_CommitDeadline s > 86400) \<and>
        list_all (\<lambda>a. \<not> (ak_Stage a \<noteq> AckPrepared \<or> \<not> ackMatches a (the (gs_Pending s)))) (gs_acks s)
      else if gs_Phase s = PhaseDraining then
        \<not> (\<not> gen_validPending s \<or> gs_PrepareDeadline s \<noteq> 0 \<or> gs_DrainUntil s \<noteq> i64 (gs_UpdatedAt s + 10) \<or>
           gs_CommitDeadline s < 30 \<or> \<not> allAcknowledged s AckPrepared)
      else if gs_Phase s = PhaseCommitting then
        \<not> ((case gs_Pending s of None \<Rightarrow> True | Some p \<Rightarrow> \<not> sameGeneration (gs_Active s) p) \<or>
           gs_PrepareDeadline s \<noteq> 0 \<or> gs_DrainUntil s \<noteq> 0 \<or> gs_CommitDeadline s \<le> gs_UpdatedAt s \<or>
           length (gs_acks s) \<noteq> length (gs_replicas s)) \<and>
        list_all (\<lambda>a. ackMatches a (gs_Active s)) (gs_acks s)
      else False)"

definition validateState :: "gen_state \<Rightarrow> bool" where
  "validateState s =
     (if gs_Schema s \<noteq> 1 \<or> gs_Revision s = 0 \<or> \<not> gen_validSHA256 (gs_PreviousRecordSHA256 s) \<or>
         \<not> validGeneration (gs_Active s) \<or> \<not> gen_validReplicas (gs_replicas s) \<or>
         gs_UpdatedAt s < 1609459200 \<or> gs_UpdatedAt s > 4102444800
      then False
      else if \<not> gen_hmac_field_ok (gs_RecordHMACB64URL s) then False
      else if \<not> sorted (map rr_ID (gs_replicas s)) \<or> \<not> sorted (map ak_ReplicaID (gs_acks s)) then False
      else gen_acks_loop s (gs_acks s) [] \<and> gen_phase_ok s)"

subsection \<open>Transitions\<close>

text \<open>The loop of \<^verbatim>\<open>ackProgresses\<close>: the number of changes, or nothing when it returns false.\<close>

fun ack_changes :: "acknowledgement list \<Rightarrow> string \<Rightarrow> acknowledgement list \<Rightarrow> nat option" where
  "ack_changes prior target [] = Some 0"
| "ack_changes prior target (a # acks) =
     (case map_of (rev (map (\<lambda>x. (ak_ReplicaID x, x)) prior)) (ak_ReplicaID a) of
        None \<Rightarrow>
          if target \<noteq> AckPrepared \<or> ak_Stage a \<noteq> AckPrepared then None
          else map_option Suc (ack_changes prior target acks)
      | Some old \<Rightarrow>
          if ak_Stage old = ak_Stage a then (if old \<noteq> a then None else ack_changes prior target acks)
          else if target \<noteq> AckActive \<or> ak_Stage old \<noteq> AckPrepared \<or> ak_Stage a \<noteq> AckActive then None
          else map_option Suc (ack_changes prior target acks))"

definition ackProgresses :: "acknowledgement list \<Rightarrow> acknowledgement list \<Rightarrow> string \<Rightarrow> bool" where
  "ackProgresses prior next_acks target =
     (if length next_acks < length prior \<or> length next_acks > length prior + 1 then False
      else ack_changes prior target next_acks = Some 1)"

definition validateTransition :: "gen_state \<Rightarrow> gen_state \<Rightarrow> string \<Rightarrow> bool" where
  "validateTransition prior next_s priorDigest =
     (if gs_Revision next_s \<noteq> gs_Revision prior + 1 \<or> gs_PreviousRecordSHA256 next_s \<noteq> priorDigest \<or>
         gs_UpdatedAt next_s < gs_UpdatedAt prior \<or> gs_replicas prior \<noteq> gs_replicas next_s
      then False
      else if gs_Phase prior = PhaseStable then
        \<not> (gs_Phase next_s \<noteq> PhasePreparing \<or> \<not> sameGeneration (gs_Active next_s) (gs_Active prior) \<or>
           (case gs_Pending next_s of None \<Rightarrow> True
            | Some p \<Rightarrow> gn_Sequence p \<noteq> gn_Sequence (gs_Active prior) + 1))
      else if gs_Phase prior = PhasePreparing then
        (if \<not> sameGeneration (gs_Active next_s) (gs_Active prior) then False
         else if gs_Phase next_s = PhaseStable then gs_Pending next_s = None
         else \<not> ((case (gs_Pending next_s, gs_Pending prior) of
                   (Some p, Some q) \<Rightarrow> \<not> sameGeneration p q | _ \<Rightarrow> True) \<or>
                 (gs_Phase next_s \<noteq> PhasePreparing \<and> gs_Phase next_s \<noteq> PhaseDraining) \<or>
                 \<not> ackProgresses (gs_acks prior) (gs_acks next_s) AckPrepared))
      else if gs_Phase prior = PhaseDraining then
        \<not> (gs_Phase next_s \<noteq> PhaseCommitting \<or>
           (case (gs_Pending prior, gs_Pending next_s) of
              (Some p, Some q) \<Rightarrow> \<not> sameGeneration p q \<or> \<not> sameGeneration (gs_Active next_s) q | _ \<Rightarrow> True) \<or>
           gs_acks prior \<noteq> gs_acks next_s)
      else if gs_Phase prior = PhaseCommitting then
        (if gs_Phase next_s = PhaseStable then
           \<not> (\<not> sameGeneration (gs_Active next_s) (gs_Active prior) \<or> gs_Pending next_s \<noteq> None) \<and>
           allAcknowledged prior AckActive
         else \<not> (gs_Phase next_s \<noteq> PhaseCommitting \<or> \<not> sameGeneration (gs_Active next_s) (gs_Active prior) \<or>
                 (case (gs_Pending next_s, gs_Pending prior) of
                   (Some p, Some q) \<Rightarrow> \<not> sameGeneration p q | _ \<Rightarrow> True) \<or>
                 \<not> ackProgresses (gs_acks prior) (gs_acks next_s) AckActive))
      else False)"

subsection \<open>Encoding\<close>

definition generation_json :: "generation \<Rightarrow> json" where
  "generation_json g = JObj [(''generation_id'', JStr (gn_ID g)),
     (''generation_sequence'', JNum (json_nat (unat (gn_Sequence g)))), (''receipt_sha256'', JStr (gn_ReceiptSHA256 g))]"

definition replica_json :: "replica_ref \<Rightarrow> json" where
  "replica_json r = JObj [(''replica_id'', JStr (rr_ID r)), (''role'', JStr (rr_Role r))]"

definition ack_json :: "acknowledgement \<Rightarrow> json" where
  "ack_json a = JObj [(''replica_id'', JStr (ak_ReplicaID a)), (''role'', JStr (ak_Role a)), (''stage'', JStr (ak_Stage a)),
     (''generation_id'', JStr (ak_GenerationID a)), (''receipt_sha256'', JStr (ak_ReceiptSHA256 a)),
     (''acknowledged_at'', JNum (json_int (ak_AcknowledgedAt a)))]"

text \<open>The members of \<^verbatim>\<open>unsignedState\<close>; a signed record has the HMAC after them.\<close>

definition unsigned_members :: "gen_state \<Rightarrow> (string \<times> json) list" where
  "unsigned_members s =
     [(''schema'', JNum (json_int (gs_Schema s))), (''revision'', JNum (json_nat (unat (gs_Revision s)))),
      (''previous_record_sha256'', JStr (gs_PreviousRecordSHA256 s)), (''phase'', JStr (gs_Phase s)),
      (''active'', generation_json (gs_Active s)), (''pending'', json_pointer generation_json (gs_Pending s)),
      (''required_replicas'', json_slice replica_json (gs_RequiredReplicas s)),
      (''acknowledgements'', json_slice ack_json (gs_Acknowledgements s)),
      (''prepare_deadline'', JNum (json_int (gs_PrepareDeadline s))), (''drain_until'', JNum (json_int (gs_DrainUntil s))),
      (''commit_deadline'', JNum (json_int (gs_CommitDeadline s))), (''updated_at'', JNum (json_int (gs_UpdatedAt s)))]"

definition unsigned_json :: "gen_state \<Rightarrow> json" where
  "unsigned_json s = JObj (unsigned_members s)"

definition state_json :: "gen_state \<Rightarrow> json" where
  "state_json s = JObj (unsigned_members s @ [(''record_hmac_b64url'', JStr (gs_RecordHMACB64URL s))])"

definition state_payload :: "gen_state \<Rightarrow> string" where
  "state_payload s = json_print (state_json s) @ [CHR 0x0A]"

definition generation_fields :: "generation json_fields" where
  "generation_fields =
     [(''generation_id'', \<lambda>j g. map_option (\<lambda>v. g\<lparr>gn_ID := v\<rparr>) (json_to_string j (gn_ID g))),
      (''generation_sequence'', \<lambda>j g. map_option (\<lambda>v. g\<lparr>gn_Sequence := v\<rparr>) (json_to_word j (gn_Sequence g))),
      (''receipt_sha256'', \<lambda>j g. map_option (\<lambda>v. g\<lparr>gn_ReceiptSHA256 := v\<rparr>) (json_to_string j (gn_ReceiptSHA256 g)))]"

definition replica_fields :: "replica_ref json_fields" where
  "replica_fields =
     [(''replica_id'', \<lambda>j r. map_option (\<lambda>v. r\<lparr>rr_ID := v\<rparr>) (json_to_string j (rr_ID r))),
      (''role'', \<lambda>j r. map_option (\<lambda>v. r\<lparr>rr_Role := v\<rparr>) (json_to_string j (rr_Role r)))]"

definition ack_fields :: "acknowledgement json_fields" where
  "ack_fields =
     [(''replica_id'', \<lambda>j a. map_option (\<lambda>v. a\<lparr>ak_ReplicaID := v\<rparr>) (json_to_string j (ak_ReplicaID a))),
      (''role'', \<lambda>j a. map_option (\<lambda>v. a\<lparr>ak_Role := v\<rparr>) (json_to_string j (ak_Role a))),
      (''stage'', \<lambda>j a. map_option (\<lambda>v. a\<lparr>ak_Stage := v\<rparr>) (json_to_string j (ak_Stage a))),
      (''generation_id'', \<lambda>j a. map_option (\<lambda>v. a\<lparr>ak_GenerationID := v\<rparr>) (json_to_string j (ak_GenerationID a))),
      (''receipt_sha256'', \<lambda>j a. map_option (\<lambda>v. a\<lparr>ak_ReceiptSHA256 := v\<rparr>) (json_to_string j (ak_ReceiptSHA256 a))),
      (''acknowledged_at'', \<lambda>j a. map_option (\<lambda>v. a\<lparr>ak_AcknowledgedAt := v\<rparr>) (json_to_int64 j (ak_AcknowledgedAt a)))]"

definition json_to_generation :: "json \<Rightarrow> generation \<Rightarrow> generation option" where
  "json_to_generation = json_struct True generation_fields"

definition json_to_replica :: "json \<Rightarrow> replica_ref \<Rightarrow> replica_ref option" where
  "json_to_replica = json_struct True replica_fields"

definition json_to_ack :: "json \<Rightarrow> acknowledgement \<Rightarrow> acknowledgement option" where
  "json_to_ack = json_struct True ack_fields"

definition state_fields :: "gen_state json_fields" where
  "state_fields =
     [(''schema'', \<lambda>j s. map_option (\<lambda>v. s\<lparr>gs_Schema := v\<rparr>) (json_to_int64 j (gs_Schema s))),
      (''revision'', \<lambda>j s. map_option (\<lambda>v. s\<lparr>gs_Revision := v\<rparr>) (json_to_word j (gs_Revision s))),
      (''previous_record_sha256'', \<lambda>j s. map_option (\<lambda>v. s\<lparr>gs_PreviousRecordSHA256 := v\<rparr>) (json_to_string j (gs_PreviousRecordSHA256 s))),
      (''phase'', \<lambda>j s. map_option (\<lambda>v. s\<lparr>gs_Phase := v\<rparr>) (json_to_string j (gs_Phase s))),
      (''active'', \<lambda>j s. map_option (\<lambda>v. s\<lparr>gs_Active := v\<rparr>) (json_to_generation j (gs_Active s))),
      (''pending'', \<lambda>j s. map_option (\<lambda>v. s\<lparr>gs_Pending := v\<rparr>) (json_to_pointer json_to_generation generation_zero j (gs_Pending s))),
      (''required_replicas'', \<lambda>j s. map_option (\<lambda>v. s\<lparr>gs_RequiredReplicas := v\<rparr>) (json_to_slice json_to_replica replica_zero j (gs_RequiredReplicas s))),
      (''acknowledgements'', \<lambda>j s. map_option (\<lambda>v. s\<lparr>gs_Acknowledgements := v\<rparr>) (json_to_slice json_to_ack ack_zero j (gs_Acknowledgements s))),
      (''prepare_deadline'', \<lambda>j s. map_option (\<lambda>v. s\<lparr>gs_PrepareDeadline := v\<rparr>) (json_to_int64 j (gs_PrepareDeadline s))),
      (''drain_until'', \<lambda>j s. map_option (\<lambda>v. s\<lparr>gs_DrainUntil := v\<rparr>) (json_to_int64 j (gs_DrainUntil s))),
      (''commit_deadline'', \<lambda>j s. map_option (\<lambda>v. s\<lparr>gs_CommitDeadline := v\<rparr>) (json_to_int64 j (gs_CommitDeadline s))),
      (''updated_at'', \<lambda>j s. map_option (\<lambda>v. s\<lparr>gs_UpdatedAt := v\<rparr>) (json_to_int64 j (gs_UpdatedAt s))),
      (''record_hmac_b64url'', \<lambda>j s. map_option (\<lambda>v. s\<lparr>gs_RecordHMACB64URL := v\<rparr>) (json_to_string j (gs_RecordHMACB64URL s)))]"

definition state_hmac :: "byte list \<Rightarrow> gen_state \<Rightarrow> byte list" where
  "state_hmac key s = hmac_sha256 key (bytes_of (json_print (unsigned_json s)))"

definition decodeCanonicalState :: "string \<Rightarrow> byte list \<Rightarrow> gen_state option" where
  "decodeCanonicalState payload key =
     (case json_parse payload of
        None \<Rightarrow> None
      | Some j \<Rightarrow>
          (case json_struct True state_fields j state_zero of
             None \<Rightarrow> None
           | Some s \<Rightarrow>
               if state_payload s \<noteq> payload then None
               else if \<not> validateState s then None
               else (case b64_decode (gs_RecordHMACB64URL s) of
                  None \<Rightarrow> None
                | Some provided \<Rightarrow>
                    if length provided \<noteq> 32 \<or> b64_encode provided \<noteq> gs_RecordHMACB64URL s then None
                    else if provided \<noteq> state_hmac key s then None
                    else Some s)))"

text \<open>What \<^verbatim>\<open>commitLocked\<close> writes: the record with its HMAC, and the digest of the file.\<close>

definition state_sealed :: "byte list \<Rightarrow> gen_state \<Rightarrow> gen_state" where
  "state_sealed key s = s\<lparr>gs_RecordHMACB64URL := b64_encode (state_hmac key s)\<rparr>"

definition payload_digest :: "string \<Rightarrow> string" where
  "payload_digest payload = hex_encode (sha256 (bytes_of payload))"

section \<open>Lemmas\<close>

lemma sameGeneration_eq: "sameGeneration g h \<longleftrightarrow> g = h"
  by (cases g; cases h) (auto simp: sameGeneration_def)

lemma generation_json_roundtrip [simp]: "json_to_generation (generation_json g) h = Some g"
  by (simp add: json_to_generation_def generation_json_def json_struct_def generation_fields_def json_field_def)

lemma replica_json_roundtrip [simp]: "json_to_replica (replica_json r) h = Some r"
  by (simp add: json_to_replica_def replica_json_def json_struct_def replica_fields_def json_field_def)

text \<open>The integer fields of a record are Go \<^verbatim>\<open>int64\<close> values.\<close>

definition state_typed :: "gen_state \<Rightarrow> bool" where
  "state_typed s \<longleftrightarrow> in_int64 (gs_Schema s) \<and> in_int64 (gs_PrepareDeadline s) \<and> in_int64 (gs_DrainUntil s) \<and>
     in_int64 (gs_CommitDeadline s) \<and> in_int64 (gs_UpdatedAt s) \<and>
     (\<forall>a \<in> set (gs_acks s). in_int64 (ak_AcknowledgedAt a))"

lemma ack_json_roundtrip: "in_int64 (ak_AcknowledgedAt a) \<Longrightarrow> json_to_ack (ack_json a) b = Some a"
  by (simp add: json_to_ack_def ack_json_def json_struct_def ack_fields_def json_field_def in_int64_def)

lemma pending_json_roundtrip [simp]:
  "json_to_pointer json_to_generation generation_zero (json_pointer generation_json p) old = Some p"
  by (cases p) (simp_all add: json_to_pointer_def json_pointer_def generation_json_def,
    simp add: generation_json_def [symmetric])

lemma replicas_json_roundtrip [simp]:
  "json_to_slice json_to_replica replica_zero (json_slice replica_json rs) old = Some rs"
  by (cases rs) (simp_all add: json_to_slice_json)

lemma acks_json_roundtrip:
  "(\<And>a. a \<in> set (slice_list as') \<Longrightarrow> in_int64 (ak_AcknowledgedAt a)) \<Longrightarrow>
   json_to_slice json_to_ack ack_zero (json_slice ack_json as') old = Some as'"
  by (cases as') (simp_all add: json_to_slice_json ack_json_roundtrip)

lemma state_json_roundtrip:
  assumes "state_typed s"
  shows "json_struct True state_fields (state_json s) z = Some s"
proof -
  have "json_to_slice json_to_ack ack_zero (json_slice ack_json (gs_Acknowledgements s)) old = Some (gs_Acknowledgements s)" for old
    by (rule acks_json_roundtrip) (use assms in \<open>simp add: state_typed_def\<close>)
  with assms show ?thesis
    by (simp add: state_json_def unsigned_members_def json_struct_def state_fields_def json_field_def state_typed_def in_int64_def)
qed

subsection \<open>What validation establishes\<close>

lemma gen_validSHA256_ascii: "gen_validSHA256 v \<Longrightarrow> ascii v"
  by (auto simp: gen_validSHA256_def ascii_def list_all_iff hex_val_def Let_def split: if_splits)

lemma gen_validSHA256_iff: "gen_validSHA256 v \<longleftrightarrow> validSHA256 v"
proof -
  have step: "(let n = of_char c :: nat in if 65 \<le> n \<and> n \<le> 90 then char_of (n + 32) else c) = c \<and> hex_val c \<noteq> None \<longleftrightarrow>
      lower_hex_char c" for c
  proof -
    have "char_of (n + 32) \<noteq> c" if "n = of_char c" "65 \<le> n" "n \<le> 90" for n :: nat
    proof
      assume "char_of (n + 32) = c"
      then have "of_char (char_of (n + 32) :: char) = (of_char c :: nat)" by (rule arg_cong)
      with that show False by simp
    qed
    then show ?thesis by (auto simp: hex_val_def lower_hex_char_def Let_def split: if_splits)
  qed
  have "map f v = v \<longleftrightarrow> list_all (\<lambda>c. f c = c) v" for f :: "char \<Rightarrow> char" by (induction v) auto
  then show ?thesis
    unfolding gen_validSHA256_def validSHA256_def step [symmetric] list_all_iff by auto
qed

lemma gen_acks_loop_iff:
  "gen_acks_loop s acks seen \<longleftrightarrow>
   (\<forall>a \<in> set acks. gen_ack_ok s [] a) \<and> distinct (map ak_ReplicaID acks) \<and> ak_ReplicaID ` set acks \<inter> set seen = {}"
  by (induction acks arbitrary: seen) (auto simp: gen_ack_ok_def)

lemma gen_replicas_loopD:
  "gen_replicas_loop vs seen cp fo \<Longrightarrow>
   (\<forall>v \<in> set vs. ValidIdentifier (rr_ID v) 64 \<and> (rr_Role v = ''controlplane'' \<or> rr_Role v = ''firmwareorigin'')) \<and>
   distinct (map rr_ID vs) \<and> rr_ID ` set vs \<inter> set seen = {}"
  by (induction vs arbitrary: seen cp fo) (fastforce split: if_splits)+

lemma gen_validReplicasD:
  assumes "gen_validReplicas rs"
  shows "2 \<le> length rs" and "length rs \<le> 64" and "distinct (map rr_ID rs)"
    and "r \<in> set rs \<Longrightarrow> ValidIdentifier (rr_ID r) 64"
    and "r \<in> set rs \<Longrightarrow> rr_Role r = ''controlplane'' \<or> rr_Role r = ''firmwareorigin''"
  using assms gen_replicas_loopD [of rs "[]" 0 0] by (auto simp: gen_validReplicas_def split: if_splits)

lemma validateStateD:
  assumes "validateState s"
  shows "gs_Schema s = 1" and "gs_Revision s \<noteq> 0" and "gen_validSHA256 (gs_PreviousRecordSHA256 s)"
    and "validGeneration (gs_Active s)" and "gen_validReplicas (gs_replicas s)"
    and "1609459200 \<le> gs_UpdatedAt s" and "gs_UpdatedAt s \<le> 4102444800"
    and "sorted (map rr_ID (gs_replicas s))" and "sorted (map ak_ReplicaID (gs_acks s))"
    and "a \<in> set (gs_acks s) \<Longrightarrow> gen_ack_ok s [] a" and "distinct (map ak_ReplicaID (gs_acks s))"
    and "gen_phase_ok s"
  using assms by (auto simp: validateState_def gen_acks_loop_iff split: if_splits)

lemmas phase_defs = PhaseStable_def PhasePreparing_def PhaseDraining_def PhaseCommitting_def
lemmas stage_defs = AckPrepared_def AckActive_def

lemma gen_phase_cases:
  assumes "gen_phase_ok s"
  obtains "gs_Phase s = PhaseStable" | "gs_Phase s = PhasePreparing" | "gs_Phase s = PhaseDraining"
    | "gs_Phase s = PhaseCommitting"
  using assms by (auto simp: gen_phase_ok_def split: if_splits)

lemma gen_phase_ok_pending:
  assumes "gen_phase_ok s" and "gs_Pending s = Some p" and "validGeneration (gs_Active s)"
  shows "validGeneration p"
  using assms by (auto simp: gen_phase_ok_def gen_validPending_def sameGeneration_eq split: if_splits)

lemma json_ok_generation: "validGeneration g \<Longrightarrow> json_ok (Suc d) (generation_json g)"
  by (auto simp: generation_json_def validGeneration_def dest: ValidIdentifier_ascii gen_validSHA256_ascii)

lemma json_ok_replica:
  "gen_validReplicas rs \<Longrightarrow> r \<in> set rs \<Longrightarrow> json_ok (Suc d) (replica_json r)"
  using gen_validReplicasD(4,5) [of rs r]
  by (auto simp: replica_json_def dest: ValidIdentifier_ascii)

lemma json_ok_ack:
  assumes "gen_ack_ok s [] a" and "gen_validReplicas (gs_replicas s)"
  shows "json_ok (Suc d) (ack_json a)"
proof -
  have "\<lparr>rr_ID = ak_ReplicaID a, rr_Role = ak_Role a\<rparr> \<in> set (gs_replicas s)"
    using assms(1) by (auto simp: gen_ack_ok_def containsReplica_def list_ex_iff)
  from gen_validReplicasD(4,5) [OF assms(2) this] assms(1) show ?thesis
    by (auto simp: ack_json_def gen_ack_ok_def stage_defs dest: ValidIdentifier_ascii gen_validSHA256_ascii)
qed

lemma json_ok_state:
  assumes "validateState s" and "ascii (gs_RecordHMACB64URL s)"
  shows "json_ok 3 (state_json s)"
proof -
  note D = validateStateD [OF assms(1)]
  have "json_ok (Suc (Suc 0)) (json_pointer generation_json (gs_Pending s))"
    using gen_phase_ok_pending [OF D(12) _ D(4)] json_ok_generation
    by (cases "gs_Pending s") (auto simp: json_pointer_def)
  moreover have "json_ok (Suc (Suc 0)) (json_slice replica_json (gs_RequiredReplicas s))"
    using json_ok_replica [OF D(5)] by (cases "gs_RequiredReplicas s") (auto simp: json_slice_def list_all_iff)
  moreover have "json_ok (Suc (Suc 0)) (json_slice ack_json (gs_Acknowledgements s))"
    using json_ok_ack [OF D(10) D(5)] by (cases "gs_Acknowledgements s") (auto simp: json_slice_def list_all_iff)
  moreover have "ascii (gs_Phase s)" using D(12) by (cases rule: gen_phase_cases) (simp_all add: phase_defs)
  ultimately show ?thesis
    using D(3,4) assms(2) json_ok_generation
    by (simp add: state_json_def unsigned_members_def numeral_3_eq_3 gen_validSHA256_ascii)
qed

subsection \<open>Records decode to what was committed\<close>

lemma state_sealed_simps [simp]:
  "gs_Schema (state_sealed key s) = gs_Schema s" "gs_Revision (state_sealed key s) = gs_Revision s"
  "gs_PreviousRecordSHA256 (state_sealed key s) = gs_PreviousRecordSHA256 s"
  "gs_Phase (state_sealed key s) = gs_Phase s" "gs_Active (state_sealed key s) = gs_Active s"
  "gs_Pending (state_sealed key s) = gs_Pending s"
  "gs_RequiredReplicas (state_sealed key s) = gs_RequiredReplicas s"
  "gs_Acknowledgements (state_sealed key s) = gs_Acknowledgements s"
  "gs_PrepareDeadline (state_sealed key s) = gs_PrepareDeadline s" "gs_DrainUntil (state_sealed key s) = gs_DrainUntil s"
  "gs_CommitDeadline (state_sealed key s) = gs_CommitDeadline s" "gs_UpdatedAt (state_sealed key s) = gs_UpdatedAt s"
  by (simp_all add: state_sealed_def)

lemma gen_ack_ok_sealed [simp]: "gen_ack_ok (state_sealed key s) = gen_ack_ok s"
  by (rule ext)+ (simp add: gen_ack_ok_def)

lemma gen_phase_ok_sealed [simp]: "gen_phase_ok (state_sealed key s) = gen_phase_ok s"
  by (cases "gs_Pending s") (simp_all add: gen_phase_ok_def gen_validPending_def allAcknowledged_def)

lemma gen_hmac_field_sealed: "gen_hmac_field_ok (gs_RecordHMACB64URL (state_sealed key s))"
  by (simp add: state_sealed_def gen_hmac_field_ok_def state_hmac_def)

lemma validateState_sealed: "validateState s \<Longrightarrow> validateState (state_sealed key s)"
  by (auto simp: validateState_def gen_acks_loop_iff gen_hmac_field_sealed split: if_splits)

lemma state_hmac_sealed [simp]: "state_hmac key (state_sealed key' s) = state_hmac key s"
  by (simp add: state_hmac_def unsigned_json_def unsigned_members_def)

lemma decode_sealed:
  assumes "validateState s" and "state_typed s"
  shows "decodeCanonicalState (state_payload (state_sealed key s)) key = Some (state_sealed key s)"
proof -
  let ?s = "state_sealed key s"
  have hmac: "gs_RecordHMACB64URL ?s = b64_encode (state_hmac key s)" by (simp add: state_sealed_def)
  have valid: "validateState ?s" by (rule validateState_sealed [OF assms(1)])
  have "json_ok 3 (state_json ?s)" by (rule json_ok_state [OF valid]) (simp add: hmac)
  then have "json_parse (state_payload ?s) = Some (state_json ?s)"
    unfolding state_payload_def by (rule json_parse_print) (simp_all add: json_max_depth_def)
  moreover have "state_typed ?s" using assms(2) by (simp add: state_typed_def)
  then have "json_struct True state_fields (state_json ?s) state_zero = Some ?s" by (rule state_json_roundtrip)
  ultimately show ?thesis
    using valid by (simp add: decodeCanonicalState_def hmac) (simp add: state_hmac_def)
qed

lemma decode_canonical:
  assumes "decodeCanonicalState payload key = Some s"
  shows "payload = state_payload s" and "validateState s" and "gs_RecordHMACB64URL s = b64_encode (state_hmac key s)"
  using assms by (auto simp: decodeCanonicalState_def split: option.splits if_splits)

subsection \<open>Records fit the size limit\<close>

lemma gen_validSHA256_length: "gen_validSHA256 v \<Longrightarrow> length v = 64"
  by (simp add: gen_validSHA256_def)

lemma size_generation: "validGeneration g \<Longrightarrow> json_size (generation_json g) \<le> 2000"
  using length_json_word [of "gn_Sequence g"]
  by (auto simp: generation_json_def validGeneration_def dest!: ValidIdentifier_length gen_validSHA256_length)

lemma size_replica: "gen_validReplicas rs \<Longrightarrow> r \<in> set rs \<Longrightarrow> json_size (replica_json r) \<le> 1000"
  using gen_validReplicasD(4,5) [of rs r] by (auto simp: replica_json_def dest!: ValidIdentifier_length)

lemma size_ack:
  assumes "gen_ack_ok s [] a" and "gen_validReplicas (gs_replicas s)" and "in_int64 (ak_AcknowledgedAt a)"
  shows "json_size (ack_json a) \<le> 3000"
proof -
  have "\<lparr>rr_ID = ak_ReplicaID a, rr_Role = ak_Role a\<rparr> \<in> set (gs_replicas s)"
    using assms(1) by (auto simp: gen_ack_ok_def containsReplica_def list_ex_iff)
  from gen_validReplicasD(4,5) [OF assms(2) this]
  have "length (ak_ReplicaID a) \<le> 64" "length (ak_Role a) \<le> 14" by (auto dest: ValidIdentifier_length)
  moreover have "length (ak_Stage a) \<le> 8" "length (ak_GenerationID a) \<le> 64" "length (ak_ReceiptSHA256 a) = 64"
    using assms(1) by (auto simp: gen_ack_ok_def stage_defs dest: ValidIdentifier_length gen_validSHA256_length)
  ultimately show ?thesis
    using length_json_int [of "ak_AcknowledgedAt a"] assms(3) by (simp add: ack_json_def in_int64_def)
qed

lemma size_state:
  assumes "validateState s" and "state_typed s" and "length (gs_RecordHMACB64URL s) \<le> 64"
  shows "json_size (state_json s) \<le> 400000"
proof -
  note D = validateStateD [OF assms(1)]
  have reps: "length (gs_replicas s) \<le> 64" by (rule gen_validReplicasD(2) [OF D(5)])
  have "ak_ReplicaID ` set (gs_acks s) \<subseteq> rr_ID ` set (gs_replicas s)"
    using D(10) by (force simp: gen_ack_ok_def containsReplica_def list_ex_iff)
  then have "card (set (map ak_ReplicaID (gs_acks s))) \<le> card (set (map rr_ID (gs_replicas s)))"
    by (intro card_mono) auto
  then have acks: "length (gs_acks s) \<le> 64"
    using reps distinct_card [OF D(11)] card_length [of "map rr_ID (gs_replicas s)"] by simp
  have "json_size (json_slice replica_json (gs_RequiredReplicas s)) \<le> length (gs_replicas s) * Suc 1000 + 5"
    by (rule json_size_slice) (rule size_replica [OF D(5)])
  moreover have "json_size (json_slice ack_json (gs_Acknowledgements s)) \<le> length (gs_acks s) * Suc 3000 + 5"
    by (rule json_size_slice) (use size_ack [OF D(10) D(5)] assms(2) in \<open>simp add: state_typed_def\<close>)
  moreover have "json_size (json_pointer generation_json (gs_Pending s)) \<le> 2000"
    using gen_phase_ok_pending [OF D(12) _ D(4)] size_generation
    by (cases "gs_Pending s") (auto simp: json_pointer_def)
  moreover have "length (gs_Phase s) \<le> 10" using D(12) by (cases rule: gen_phase_cases) (simp_all add: phase_defs)
  moreover note size_generation [OF D(4)] length_json_word [of "gs_Revision s"] gen_validSHA256_length [OF D(3)]
  moreover have "length (json_int (gs_Schema s)) \<le> 21" "length (json_int (gs_PrepareDeadline s)) \<le> 21"
    "length (json_int (gs_DrainUntil s)) \<le> 21" "length (json_int (gs_CommitDeadline s)) \<le> 21"
    "length (json_int (gs_UpdatedAt s)) \<le> 21"
    using assms(2) by (simp_all add: state_typed_def in_int64_def length_json_int)
  ultimately show ?thesis
    using reps acks assms(3) by (simp add: state_json_def unsigned_members_def)
qed

lemma sealed_size:
  assumes "validateState s" and "state_typed s"
  shows "length (state_payload (state_sealed key s)) \<ge> 1" and "length (state_payload (state_sealed key s)) \<le> maximumStateBytes"
proof -
  let ?s = "state_sealed key s"
  have hmac: "gs_RecordHMACB64URL ?s = b64_encode (state_hmac key s)" by (simp add: state_sealed_def)
  have valid: "validateState ?s" by (rule validateState_sealed [OF assms(1)])
  have typed: "state_typed ?s" using assms(2) by (simp add: state_typed_def)
  have "length (json_print (state_json ?s)) \<le> json_size (state_json ?s)"
    by (rule json_size_bound [OF json_ok_state [OF valid]]) (simp add: hmac)
  also have "\<dots> \<le> 400000"
    by (rule size_state [OF valid typed]) (simp add: hmac length_b64_encode state_hmac_def)
  finally show "length (state_payload ?s) \<ge> 1" "length (state_payload ?s) \<le> maximumStateBytes"
    by (simp_all add: state_payload_def maximumStateBytes_def)
qed

end
