(* ===== verification/GenStore.thy ===== *)
theory GenStore
  imports GenState
begin

text \<open>
  \<^verbatim>\<open>internal/generation/state.go\<close>, second part: the coordinator's store. Its state in memory is the last
  record; the directory holds one immutable file per record and the repairable \<^verbatim>\<open>CURRENT\<close> pointer.
  The directory is a map from file names to contents of regular files; ownership, permissions, the
  lock and symbolic links belong to the operating system and are not modelled.

  Every operation that commits takes a number \<open>io\<close>: how many of the commit's file operations succeed
  before the first that fails, in the order of the source (write the temporary file, link it, remove
  the temporary name, sync the directory, then the three steps of \<^verbatim>\<open>CURRENT\<close>); a number of 7 or more
  means that none fails. A crash in the middle of a commit leaves the directory as the failure at that
  point does, and is followed by \<^verbatim>\<open>OpenStore\<close>.
\<close>

section \<open>Definitions\<close>

subsection \<open>Files\<close>

type_synonym gen_disk = "(string, string) gomap"

definition stateFileName :: "64 word \<Rightarrow> string" where
  "stateFileName revision = ''state-'' @ decimal_fixed 20 (uint revision) @ ''.json''"

definition parseStateFileName :: "string \<Rightarrow> 64 word option" where
  "parseStateFileName name =
     (if length name \<noteq> 6 + 20 + 5 \<or> take 6 name \<noteq> ''state-'' \<or> drop 26 name \<noteq> ''.json'' then None
      else
        let digits = take 20 (drop 6 name) in
        case literal_nat digits of
          None \<Rightarrow> None
        | Some v \<Rightarrow>
            if v < 2 ^ 64 \<and> v > 0 \<and> decimal_fixed 20 (int v) = digits then Some (word_of_nat v) else None)"

definition stateTempName :: "64 word \<Rightarrow> string" where
  "stateTempName revision = ''.state-tmp-'' @ json_nat (unat revision)"

definition currentTempName :: "64 word \<Rightarrow> string" where
  "currentTempName revision = ''.current-tmp-'' @ json_nat (unat revision)"

definition currentName :: string where "currentName = ''CURRENT''"

definition is_temp_name :: "string \<Rightarrow> bool" where
  "is_temp_name name \<longleftrightarrow> take 11 name = ''.state-tmp-'' \<or> take 13 name = ''.current-tmp-''"

subsection \<open>The store\<close>

datatype gen_error = GenConflict | GenExpired | GenInvalid

record gen_store =
  st_key :: "byte list"
  st_state :: gen_state
  st_digest :: string
  st_drainStarted :: go_time
  st_disk :: gen_disk

definition slice_clone :: "'a slice \<Rightarrow> 'a slice" where
  "slice_clone s = (case slice_list s of [] \<Rightarrow> None | xs \<Rightarrow> Some xs)"

definition cloneState :: "gen_state \<Rightarrow> gen_state" where
  "cloneState s = s\<lparr>gs_RequiredReplicas := slice_clone (gs_RequiredReplicas s),
     gs_Acknowledgements := slice_clone (gs_Acknowledgements s)\<rparr>"

definition nextLocked :: "gen_store \<Rightarrow> go_time \<Rightarrow> gen_state" where
  "nextLocked S now = (cloneState (st_state S))\<lparr>gs_Revision := gs_Revision (st_state S) + 1,
     gs_PreviousRecordSHA256 := st_digest S, gs_UpdatedAt := time_unix (time_utc now), gs_RecordHMACB64URL := []\<rparr>"

definition makeStable :: "gen_state \<Rightarrow> gen_state" where
  "makeStable s = s\<lparr>gs_Phase := PhaseStable, gs_Pending := None, gs_Acknowledgements := Some [],
     gs_PrepareDeadline := 0, gs_DrainUntil := 0, gs_CommitDeadline := 0\<rparr>"

definition current_json :: "64 word \<Rightarrow> string \<Rightarrow> json" where
  "current_json revision digest = JObj [(''revision'', JNum (json_nat (unat revision))), (''record_sha256'', JStr digest)]"

definition current_payload :: "gen_store \<Rightarrow> string" where
  "current_payload S = json_print (current_json (gs_Revision (st_state S)) (st_digest S)) @ [CHR 0x0A]"

definition writeCurrentLocked :: "nat \<Rightarrow> gen_store \<Rightarrow> gen_error option \<times> gen_store" where
  "writeCurrentLocked io S =
     (let temp = currentTempName (gs_Revision (st_state S));
          d0 = AList.delete temp (st_disk S);
          d1 = AList.update temp (current_payload S) d0;
          d2 = AList.update currentName (current_payload S) (AList.delete temp d1) in
      if io = 0 then (Some GenInvalid, S\<lparr>st_disk := d0\<rparr>)
      else if io = 1 then (Some GenInvalid, S\<lparr>st_disk := d1\<rparr>)
      else if io = 2 then (Some GenInvalid, S\<lparr>st_disk := d2\<rparr>)
      else (None, S\<lparr>st_disk := d2\<rparr>))"

definition commitLocked :: "nat \<Rightarrow> gen_store \<Rightarrow> gen_state \<Rightarrow> gen_error option \<times> gen_store" where
  "commitLocked io S s =
     (if \<not> validateState s then (Some GenInvalid, S)
      else if gs_Revision (st_state S) \<noteq> 0 \<and> \<not> validateTransition (st_state S) s (st_digest S)
      then (Some GenInvalid, S)
      else
        let sealed = state_sealed (st_key S) s;
            payload = state_payload sealed;
            recordName = stateFileName (gs_Revision s);
            tempName = stateTempName (gs_Revision s) in
        if io = 0 \<or> map_of (st_disk S) tempName \<noteq> None then (Some GenInvalid, S)
        else
          let d1 = AList.update tempName payload (st_disk S) in
          if io = 1 \<or> map_of d1 recordName \<noteq> None then (Some GenInvalid, S\<lparr>st_disk := d1\<rparr>)
          else
            let d2 = AList.update recordName payload d1;
                d3 = AList.delete tempName d2 in
            if io = 2 then (Some GenInvalid, S\<lparr>st_disk := d2\<rparr>)
            else if io = 3 then (Some GenInvalid, S\<lparr>st_disk := d3\<rparr>)
            else writeCurrentLocked (io - 4)
              (S\<lparr>st_state := sealed, st_digest := payload_digest payload, st_disk := d3\<rparr>))"

subsection \<open>Operations\<close>

definition gen_InitializeStore ::
  "nat \<Rightarrow> byte list \<Rightarrow> generation \<Rightarrow> replica_ref list \<Rightarrow> go_time \<Rightarrow> gen_error + gen_store" where
  "gen_InitializeStore io key initial replicas now =
     (if length key < 32 \<or> length key > 128 \<or> \<not> validGeneration initial \<or> \<not> gen_validReplicas replicas \<or> \<not> gen_validTime now
      then Inl GenInvalid
      else
        let store = \<lparr>st_key = key, st_state = state_zero, st_digest = [], st_drainStarted = time_zero, st_disk = []\<rparr>;
            state = state_zero\<lparr>gs_Schema := 1, gs_Revision := 1, gs_PreviousRecordSHA256 := zeroDigest,
              gs_Phase := PhaseStable, gs_Active := initial, gs_RequiredReplicas := Some (sortReplicas replicas),
              gs_Acknowledgements := Some [], gs_UpdatedAt := time_unix (time_utc now)\<rparr> in
        case commitLocked io store state of
          (Some e, _) \<Rightarrow> Inl e
        | (None, S) \<Rightarrow> Inr S)"

definition gen_RequiredReplicasMatch :: "gen_store \<Rightarrow> replica_ref list \<Rightarrow> bool" where
  "gen_RequiredReplicasMatch S replicas \<longleftrightarrow> gs_replicas (st_state S) = sortReplicas replicas"

text \<open>Every operation returns a copy of the state it leaves behind, with or without an error.\<close>

definition gen_Snapshot :: "gen_store \<Rightarrow> gen_state \<times> string" where
  "gen_Snapshot S = (cloneState (st_state S), st_digest S)"

definition gen_Publish ::
  "nat \<Rightarrow> gen_store \<Rightarrow> 64 word \<Rightarrow> generation \<Rightarrow> generation \<Rightarrow> duration \<Rightarrow> duration \<Rightarrow> go_time \<Rightarrow> gen_error option \<times> gen_store" where
  "gen_Publish io S expectedRevision expectedActive pending prepareTimeout commitTimeout now =
     (if gs_Revision (st_state S) \<noteq> expectedRevision \<or> gs_Phase (st_state S) \<noteq> PhaseStable \<or>
         \<not> sameGeneration (gs_Active (st_state S)) expectedActive
      then (Some GenConflict, S)
      else if \<not> validGeneration pending \<or> gn_Sequence pending \<noteq> gn_Sequence expectedActive + 1 \<or>
         gn_ID pending = gn_ID expectedActive \<or> prepareTimeout < 30 * second \<or> prepareTimeout > 24 * hour \<or>
         commitTimeout < 30 * second \<or> commitTimeout > 24 * hour \<or> \<not> gen_validTime now
      then (Some GenInvalid, S)
      else commitLocked io S ((nextLocked S now)\<lparr>gs_Phase := PhasePreparing, gs_Pending := Some pending,
        gs_Acknowledgements := Some [],
        gs_PrepareDeadline := time_unix (time_add (time_utc now) prepareTimeout),
        gs_CommitDeadline := commitTimeout sdiv second\<rparr>))"

definition gen_Abort :: "nat \<Rightarrow> gen_store \<Rightarrow> 64 word \<Rightarrow> generation \<Rightarrow> go_time \<Rightarrow> gen_error option \<times> gen_store" where
  "gen_Abort io S expectedRevision pending now =
     (if gs_Revision (st_state S) \<noteq> expectedRevision \<or> gs_Phase (st_state S) \<noteq> PhasePreparing \<or>
         (case gs_Pending (st_state S) of None \<Rightarrow> True | Some p \<Rightarrow> \<not> sameGeneration p pending)
      then (Some GenConflict, S)
      else commitLocked io S (makeStable (nextLocked S now)))"

text \<open>The checks of \<^verbatim>\<open>Acknowledge\<close> that depend on the stage, before the expiry of PREPARING.\<close>

definition gen_ack_allowed :: "gen_state \<Rightarrow> replica_ref \<Rightarrow> generation \<Rightarrow> string \<Rightarrow> bool" where
  "gen_ack_allowed s replica g stage =
     (if stage = AckPrepared then
        \<not> (gs_Phase s \<noteq> PhasePreparing \<or> (case gs_Pending s of None \<Rightarrow> True | Some p \<Rightarrow> \<not> sameGeneration p g))
      else
        \<not> (gs_Phase s \<noteq> PhaseCommitting \<or>
           (case gs_Pending s of None \<Rightarrow> True | Some p \<Rightarrow> \<not> sameGeneration (gs_Active s) g \<or> \<not> sameGeneration p g) \<or>
           ackStage (gs_acks s) (rr_ID replica) \<noteq> AckPrepared))"

text \<open>The loop over the acknowledgements: nothing when this one is recorded already, otherwise the
  changed list and whether an entry was found.\<close>

fun ack_update :: "acknowledgement list \<Rightarrow> string \<Rightarrow> string \<Rightarrow> int \<Rightarrow> (acknowledgement list \<times> bool) option" where
  "ack_update [] replicaID stage at = Some ([], False)"
| "ack_update (a # acks) replicaID stage at =
     (if ak_ReplicaID a = replicaID then
        (if ak_Stage a = stage then None
         else Some (a\<lparr>ak_Stage := stage, ak_AcknowledgedAt := at\<rparr> # acks, True))
      else map_option (\<lambda>(xs, found). (a # xs, found)) (ack_update acks replicaID stage at))"

definition gen_Acknowledge ::
  "nat \<Rightarrow> nat \<Rightarrow> gen_store \<Rightarrow> 64 word \<Rightarrow> replica_ref \<Rightarrow> generation \<Rightarrow> string \<Rightarrow> go_time \<Rightarrow> gen_error option \<times> gen_store" where
  "gen_Acknowledge io io2 S expectedRevision replica g stage now =
     (if gs_Revision (st_state S) \<noteq> expectedRevision \<or> \<not> containsReplica (gs_replicas (st_state S)) replica \<or> \<not> gen_validTime now
      then (Some GenConflict, S)
      else if stage \<noteq> AckPrepared \<and> stage \<noteq> AckActive then (Some GenInvalid, S)
      else if \<not> gen_ack_allowed (st_state S) replica g stage then (Some GenConflict, S)
      else if stage = AckPrepared \<and> time_unix (time_utc now) > gs_PrepareDeadline (st_state S)
      then (case commitLocked io S (makeStable (nextLocked S now)) of
              (Some e, S') \<Rightarrow> (Some e, S')
            | (None, S') \<Rightarrow> (Some GenExpired, S'))
      else
        let n = nextLocked S now; at = time_unix (time_utc now) in
        case ack_update (gs_acks n) (rr_ID replica) stage at of
          None \<Rightarrow> (None, S)
        | Some (acks, updated) \<Rightarrow>
            let acks' = (if updated then acks else acks @
                  [\<lparr>ak_ReplicaID = rr_ID replica, ak_Role = rr_Role replica, ak_Stage = stage,
                    ak_GenerationID = gn_ID g, ak_ReceiptSHA256 = gn_ReceiptSHA256 g, ak_AcknowledgedAt = at\<rparr>]);
                n1 = n\<lparr>gs_Acknowledgements := Some (sort_key ak_ReplicaID acks')\<rparr>;
                drain = allAcknowledged n1 stage \<and> stage = AckPrepared;
                n2 = (if drain then n1\<lparr>gs_Phase := PhaseDraining, gs_PrepareDeadline := 0,
                        gs_DrainUntil := time_unix (time_add (time_utc now) DrainDuration)\<rparr> else n1);
                S1 = (if drain then S\<lparr>st_drainStarted := now\<rparr> else S) in
            case commitLocked io S1 n2 of
              (Some e, S2) \<Rightarrow> (Some e, S2)
            | (None, S2) \<Rightarrow>
                if stage = AckActive \<and> allAcknowledged (st_state S2) AckActive
                then commitLocked io2 S2 (makeStable (nextLocked S2 now))
                else (None, S2))"

definition gen_Advance :: "nat \<Rightarrow> gen_store \<Rightarrow> go_time \<Rightarrow> gen_error option \<times> gen_store" where
  "gen_Advance io S now =
     (if \<not> gen_validTime now then (Some GenInvalid, S)
      else if gs_Phase (st_state S) = PhasePreparing then
        (if time_unix (time_utc now) \<le> gs_PrepareDeadline (st_state S) then (None, S)
         else commitLocked io S (makeStable (nextLocked S now)))
      else if gs_Phase (st_state S) = PhaseDraining then
        (let S1 = (if time_is_zero (st_drainStarted S) then S\<lparr>st_drainStarted := now\<rparr> else S) in
         if time_unix (time_utc now) < gs_DrainUntil (st_state S1) \<or> time_sub now (st_drainStarted S1) < DrainDuration
         then (None, S1)
         else
           let n = nextLocked S1 now in
           commitLocked io S1 (n\<lparr>gs_Phase := PhaseCommitting, gs_Active := the (gs_Pending n), gs_DrainUntil := 0,
             gs_CommitDeadline := time_unix (time_add (time_utc now) (i64 (gs_CommitDeadline (st_state S1) * second)))\<rparr>))
      else if gs_Phase (st_state S) = PhaseCommitting then
        (if allAcknowledged (st_state S) AckActive then commitLocked io S (makeStable (nextLocked S now)) else (None, S))
      else (None, S))"

subsection \<open>Recovery\<close>

text \<open>The loop over the directory: the records by revision, and the directory without temporary files.\<close>

fun gen_scan :: "gen_disk \<Rightarrow> (64 word, string) gomap \<Rightarrow> gen_disk \<Rightarrow> ((64 word, string) gomap \<times> gen_disk) option" where
  "gen_scan [] records disk = Some (records, disk)"
| "gen_scan ((name, content) # entries) records disk =
     (if name = currentName then gen_scan entries records disk
      else if is_temp_name name then gen_scan entries records (AList.delete name disk)
      else case parseStateFileName name of
        None \<Rightarrow> None
      | Some revision \<Rightarrow> gen_scan entries (AList.update revision content records) disk)"

fun gen_load_chain ::
  "byte list \<Rightarrow> (64 word, string) gomap \<Rightarrow> nat \<Rightarrow> 64 word \<Rightarrow> gen_state \<Rightarrow> string \<Rightarrow> (gen_state \<times> string) option" where
  "gen_load_chain key records 0 revision previous previousDigest = Some (previous, previousDigest)"
| "gen_load_chain key records (Suc n) revision previous previousDigest =
     (case map_of records revision of
        None \<Rightarrow> None
      | Some payload \<Rightarrow>
          if length payload < 1 \<or> length payload > maximumStateBytes then None
          else case decodeCanonicalState payload key of
            None \<Rightarrow> None
          | Some state \<Rightarrow>
              if gs_Revision state \<noteq> revision then None
              else if (if revision = 1 then gs_PreviousRecordSHA256 state \<noteq> zeroDigest \<or> gs_Phase state \<noteq> PhaseStable
                       else \<not> validateTransition previous state previousDigest)
              then None
              else gen_load_chain key records n (revision + 1) state (payload_digest payload))"

definition current_fields :: "(64 word \<times> string) json_fields" where
  "current_fields =
     [(''revision'', \<lambda>j (r, d). map_option (\<lambda>v. (v, d)) (json_to_word j r)),
      (''record_sha256'', \<lambda>j (r, d). map_option (\<lambda>v. (r, v)) (json_to_string j d))]"

definition currentMatchesLocked :: "gen_store \<Rightarrow> bool" where
  "currentMatchesLocked S =
     (case map_of (st_disk S) currentName of
        None \<Rightarrow> False
      | Some payload \<Rightarrow>
          if length payload < 1 \<or> length payload > 256 then False
          else case json_parse payload of
            None \<Rightarrow> False
          | Some j \<Rightarrow>
              (case json_struct True current_fields j (0, []) of
                 None \<Rightarrow> False
               | Some (revision, digest) \<Rightarrow>
                   \<not> (revision \<noteq> gs_Revision (st_state S) \<or> digest \<noteq> st_digest S) \<and>
                   json_print (current_json revision digest) @ [CHR 0x0A] = payload))"

text \<open>\<open>now\<close> is the clock reading with which the drain starts afresh. Removing the temporary files is taken to succeed, and an
  \<^verbatim>\<open>OpenStore\<close> that fails is taken to leave the directory alone: it can at most have removed temporary files, whose
  content is never read, or rewritten \<^verbatim>\<open>CURRENT\<close>, which the next one repairs.\<close>

definition gen_OpenStore :: "nat \<Rightarrow> byte list \<Rightarrow> gen_disk \<Rightarrow> go_time \<Rightarrow> gen_error + gen_store" where
  "gen_OpenStore io key disk now =
     (if length key < 32 \<or> length key > 128 then Inl GenInvalid
      else case gen_scan disk [] disk of
        None \<Rightarrow> Inl GenInvalid
      | Some (records, disk') \<Rightarrow>
          if records = [] then Inl GenInvalid
          else case gen_load_chain key records (length records) 1 state_zero [] of
            None \<Rightarrow> Inl GenInvalid
          | Some (previous, digest) \<Rightarrow>
              let S = \<lparr>st_key = key, st_state = previous, st_digest = digest,
                    st_drainStarted = (if gs_Phase previous = PhaseDraining then now else time_zero), st_disk = disk'\<rparr> in
              if \<not> currentMatchesLocked S
              then (case writeCurrentLocked io S of (Some e, _) \<Rightarrow> Inl e | (None, S') \<Rightarrow> Inr S')
              else Inr S)"

text \<open>The calls on an open store. A call may fail at any of its file operations; \<open>reopen\<close> is a crash at
  that point and a restart.\<close>

inductive gen_step :: "go_time \<Rightarrow> gen_store \<Rightarrow> gen_store \<Rightarrow> bool" where
  publish: "gen_step now S (snd (gen_Publish io S r a p pt ct now))"
| abort: "gen_step now S (snd (gen_Abort io S r p now))"
| acknowledge: "gen_step now S (snd (gen_Acknowledge io io2 S r replica g stage now))"
| advance: "gen_step now S (snd (gen_Advance io S now))"
| reopen: "gen_OpenStore io (st_key S) (st_disk S) now = Inr T \<Longrightarrow> gen_step now S T"

definition gen_init :: "gen_store \<Rightarrow> bool" where
  "gen_init S \<longleftrightarrow> (\<exists>io key initial replicas now. gen_InitializeStore io key initial replicas now = Inr S)"

section \<open>Lemmas\<close>

subsection \<open>File names\<close>

lemma digits_value_decimal:
  "0 \<le> n \<Longrightarrow> digits_value (decimal_fixed w n) = nat (n mod 10 ^ w) \<and> list_all is_digit (decimal_fixed w n)"
proof (induction w arbitrary: n)
  case 0
  then show ?case by (simp add: digits_value_def)
next
  case (Suc w)
  have IH: "digits_value (decimal_fixed w (n div 10)) = nat (n div 10 mod 10 ^ w)"
    "list_all is_digit (decimal_fixed w (n div 10))"
    using Suc.IH [of "n div 10"] Suc.prems by auto
  have "n mod 10 ^ Suc w = 10 * (n div 10 mod 10 ^ w) + n mod 10"
    by (simp add: mod_mult2_eq' [of n 10 "10 ^ w", simplified] mult.commute zmod_zmult2_eq)
  moreover have "nat (n mod 10) < 10" by simp
  moreover have "of_char (char_of (48 + nat (n mod 10)) :: char) = 48 + nat (n mod 10)"
    by (simp add: nat_less_iff)
  ultimately show ?case
    using IH is_digit_char_of [of "nat (n mod 10)"]
    by (simp add: digits_value_append nat_add_distrib nat_mult_distrib)
qed

lemma stateFileName_shape:
  "length (stateFileName r) = 31" "take 6 (stateFileName r) = ''state-''" "drop 26 (stateFileName r) = ''.json''"
  "take 20 (drop 6 (stateFileName r)) = decimal_fixed 20 (uint r)"
  by (simp_all add: stateFileName_def)

lemma parse_stateFileName:
  assumes "r \<noteq> 0"
  shows "parseStateFileName (stateFileName r) = Some r"
proof -
  have bound: "uint r < 2 ^ 64" using uint_lt2p [of r] by simp
  then have small: "uint r mod 10 ^ 20 = uint r" by (intro mod_pos_pos_trivial) simp_all
  have "literal_nat (decimal_fixed 20 (uint r)) = Some (unat r)"
    using digits_value_decimal [of "uint r" 20] small length_decimal_fixed [of 20 "uint r"]
    by (auto simp: literal_nat_def simp del: length_decimal_fixed)
  moreover have "unat r < 2 ^ 64" using unsigned_less [of r] by simp
  moreover have "0 < unat r" using assms by (simp add: unat_gt_0)
  ultimately show ?thesis by (simp add: parseStateFileName_def stateFileName_shape)
qed

lemma parse_stateFileName_Some:
  assumes "parseStateFileName name = Some r"
  shows "name = stateFileName r" and "r \<noteq> 0"
proof -
  let ?digits = "take 20 (drop 6 name)"
  from assms obtain v where shape: "length name = 31" "take 6 name = ''state-''" "drop 26 name = ''.json''"
    and v: "v < 2 ^ 64" "v > 0" "decimal_fixed 20 (int v) = ?digits" "r = word_of_nat v"
    by (auto simp: parseStateFileName_def Let_def split: if_splits option.splits)
  have r: "uint r = int v" using v(1,4) by (simp add: unsigned_of_nat take_bit_eq_mod)
  have "drop 6 name = ?digits @ drop 20 (drop 6 name)" by (rule append_take_drop_id [symmetric])
  then have "name = take 6 name @ ?digits @ drop 26 name"
    using append_take_drop_id [of 6 name] by simp
  with shape v r show "name = stateFileName r" by (simp add: stateFileName_def)
  show "r \<noteq> 0" using r v(2) by auto
qed

lemma stateFileName_inj [simp]: "stateFileName r = stateFileName q \<longleftrightarrow> r = q"
proof
  assume eq: "stateFileName r = stateFileName q"
  have small: "uint x mod 10 ^ 20 = uint x" for x :: "64 word"
    using uint_lt2p [of x] by (intro mod_pos_pos_trivial) simp_all
  have "decimal_fixed 20 (uint r) = decimal_fixed 20 (uint q)" using eq by (simp add: stateFileName_def)
  then have "nat (uint r) = nat (uint q)"
    using digits_value_decimal [of "uint r" 20] digits_value_decimal [of "uint q" 20] small by simp
  then show "r = q" by (simp add: word_unat_eq_iff)
qed simp

lemma file_name_kinds [simp]:
  "is_temp_name (stateTempName r)" "is_temp_name (currentTempName r)" "\<not> is_temp_name (stateFileName r)"
  "\<not> is_temp_name currentName" "stateFileName r \<noteq> currentName"
  by (simp_all add: is_temp_name_def stateTempName_def currentTempName_def stateFileName_def currentName_def)

text \<open>The files that are records.\<close>

definition gen_files :: "gen_disk \<Rightarrow> string \<Rightarrow> string option" where
  "gen_files disk name = (if name = currentName \<or> is_temp_name name then None else map_of disk name)"

lemma gen_files_simps [simp]:
  "is_temp_name t \<Longrightarrow> gen_files (AList.update t c disk) = gen_files disk"
  "is_temp_name t \<Longrightarrow> gen_files (AList.delete t disk) = gen_files disk"
  "gen_files (AList.update currentName c disk) = gen_files disk"
  "gen_files (AList.update (stateFileName r) c disk) = (gen_files disk)(stateFileName r \<mapsto> c)"
  by (rule ext, auto simp: gen_files_def)+

lemma gen_files_record: "gen_files disk (stateFileName r) = map_of disk (stateFileName r)"
  by (simp add: gen_files_def)

subsection \<open>Commits\<close>

lemma writeCurrentLocked_effect:
  assumes "writeCurrentLocked io S = (res, T)"
  shows "st_state T = st_state S" and "st_digest T = st_digest S" and "st_key T = st_key S"
    and "st_drainStarted T = st_drainStarted S" and "gen_files (st_disk T) = gen_files (st_disk S)"
    and "wf_map (st_disk S) \<Longrightarrow> wf_map (st_disk T)" and "io \<ge> 3 \<Longrightarrow> res = None"
  using assms by (auto simp: writeCurrentLocked_def Let_def split: if_splits)

text \<open>The outcomes of a commit: nothing changes but temporary files; the record is linked but memory
  does not move on; or the record is committed.\<close>

lemma commitLocked_cases:
  assumes "commitLocked io S s = (res, T)"
  obtains (refused) "res = Some GenInvalid" and "st_state T = st_state S" and "st_digest T = st_digest S"
      and "gen_files (st_disk T) = gen_files (st_disk S)"
  | (linked) "res = Some GenInvalid" and "st_state T = st_state S" and "st_digest T = st_digest S"
      and "validateState s" and "gs_Revision (st_state S) = 0 \<or> validateTransition (st_state S) s (st_digest S)"
      and "gen_files (st_disk S) (stateFileName (gs_Revision s)) = None"
      and "gen_files (st_disk T) = (gen_files (st_disk S))(stateFileName (gs_Revision s) \<mapsto> state_payload (state_sealed (st_key S) s))"
  | (committed) "st_state T = state_sealed (st_key S) s"
      and "st_digest T = payload_digest (state_payload (state_sealed (st_key S) s))"
      and "validateState s" and "gs_Revision (st_state S) = 0 \<or> validateTransition (st_state S) s (st_digest S)"
      and "gen_files (st_disk S) (stateFileName (gs_Revision s)) = None"
      and "gen_files (st_disk T) = (gen_files (st_disk S))(stateFileName (gs_Revision s) \<mapsto> state_payload (state_sealed (st_key S) s))"
proof -
  define sealed where "sealed = state_sealed (st_key S) s"
  define payload where "payload = state_payload sealed"
  define recordName where "recordName = stateFileName (gs_Revision s)"
  define tempName where "tempName = stateTempName (gs_Revision s)"
  define d1 where "d1 = AList.update tempName payload (st_disk S)"
  define d2 where "d2 = AList.update recordName payload d1"
  define d3 where "d3 = AList.delete tempName d2"
  define S1 where "S1 = S\<lparr>st_state := sealed, st_digest := payload_digest payload, st_disk := d3\<rparr>"
  have temp: "is_temp_name tempName" by (simp add: tempName_def)
  have f1: "gen_files d1 = gen_files (st_disk S)" by (simp add: d1_def temp)
  have f2: "gen_files d2 = (gen_files (st_disk S))(recordName \<mapsto> payload)" by (simp add: d2_def recordName_def f1)
  have f3: "gen_files d3 = (gen_files (st_disk S))(recordName \<mapsto> payload)" by (simp add: d3_def temp f2)
  have new: "gen_files (st_disk S) recordName = map_of d1 recordName"
    using f1 by (simp add: recordName_def gen_files_record [symmetric])
  note def = assms [unfolded commitLocked_def Let_def, folded sealed_def, folded payload_def recordName_def tempName_def,
      folded d1_def, folded d2_def, folded d3_def, folded S1_def]
  note names = sealed_def payload_def recordName_def
  consider "\<not> validateState s \<or> gs_Revision (st_state S) \<noteq> 0 \<and> \<not> validateTransition (st_state S) s (st_digest S) \<or>
      io = 0 \<or> map_of (st_disk S) tempName \<noteq> None \<or> io = 1 \<or> map_of d1 recordName \<noteq> None"
    | "validateState s" "gs_Revision (st_state S) = 0 \<or> validateTransition (st_state S) s (st_digest S)"
      "map_of d1 recordName = None" "map_of (st_disk S) tempName = None" "io = 2 \<or> io = 3"
    | "validateState s" "gs_Revision (st_state S) = 0 \<or> validateTransition (st_state S) s (st_digest S)"
      "map_of d1 recordName = None" "map_of (st_disk S) tempName = None" "io \<noteq> 0" "io \<noteq> 1" "io \<noteq> 2" "io \<noteq> 3"
    by blast
  then show thesis
  proof cases
    case 1
    with def have "res = Some GenInvalid \<and> (T = S \<or> T = S\<lparr>st_disk := d1\<rparr>)" by (simp split: if_splits)
    then show ?thesis by (intro refused) (auto simp: f1)
  next
    case 2
    with def have "res = Some GenInvalid \<and> (T = S\<lparr>st_disk := d2\<rparr> \<or> T = S\<lparr>st_disk := d3\<rparr>)" by (auto split: if_splits)
    with 2 show ?thesis
      by (intro linked) (use f2 f3 new in \<open>auto simp: names [symmetric]\<close>)
  next
    case 3
    with def have "writeCurrentLocked (io - 4) S1 = (res, T)" by auto
    note effect = writeCurrentLocked_effect [OF this]
    have S1: "st_state S1 = sealed" "st_digest S1 = payload_digest payload" "gen_files (st_disk S1) = (gen_files (st_disk S))(recordName \<mapsto> payload)"
      by (simp_all add: S1_def f3)
    show ?thesis
      by (rule committed) (use effect S1 3 new in \<open>simp_all add: names [symmetric]\<close>)
  qed
qed

lemma commitLocked_frame:
  assumes "commitLocked io S s = (res, T)"
  shows "st_key T = st_key S" and "st_drainStarted T = st_drainStarted S" and "wf_map (st_disk S) \<Longrightarrow> wf_map (st_disk T)"
  using assms writeCurrentLocked_effect(3,4,6)
  by (fastforce simp: commitLocked_def Let_def split: if_splits)+

lemma commitLocked_ok:
  assumes "commitLocked io S s = (None, T)"
  shows "st_state T = state_sealed (st_key S) s" and "validateState s"
    and "gs_Revision (st_state S) = 0 \<or> validateTransition (st_state S) s (st_digest S)"
  using assms by (auto elim!: commitLocked_cases)

subsection \<open>The log of records\<close>

text \<open>\<open>hs\<close> is the history of the store, oldest record first.\<close>

definition gen_link :: "byte list \<Rightarrow> gen_state list \<Rightarrow> nat \<Rightarrow> bool" where
  "gen_link key hs i \<longleftrightarrow> validateState (hs ! i) \<and> state_typed (hs ! i) \<and> state_sealed key (hs ! i) = hs ! i \<and>
     gs_Revision (hs ! i) = word_of_nat (Suc i) \<and>
     (if i = 0 then gs_PreviousRecordSHA256 (hs ! 0) = zeroDigest \<and> gs_Phase (hs ! 0) = PhaseStable
      else validateTransition (hs ! (i - 1)) (hs ! i) (payload_digest (state_payload (hs ! (i - 1)))))"

definition gen_chain :: "byte list \<Rightarrow> gen_state list \<Rightarrow> bool" where
  "gen_chain key hs \<longleftrightarrow> hs \<noteq> [] \<and> length hs < 2 ^ 64 \<and> (\<forall>i < length hs. gen_link key hs i)"

definition log_files :: "gen_state list \<Rightarrow> string \<Rightarrow> string option" where
  "log_files hs name = (case parseStateFileName name of
     None \<Rightarrow> None
   | Some r \<Rightarrow> if unat r \<le> length hs then Some (state_payload (hs ! (unat r - 1))) else None)"

lemma state_sealed_sealed [simp]: "state_sealed key (state_sealed key s) = state_sealed key s"
  by (simp add: state_sealed_def [of key "state_sealed key s"]) (simp add: state_sealed_def)

lemma unat_word_Suc: "Suc i < 2 ^ 64 \<Longrightarrow> unat (word_of_nat (Suc i) :: 64 word) = Suc i"
  by (simp add: unsigned_of_nat take_bit_eq_mod del: of_nat_Suc)

lemma word_Suc_nonzero: "Suc i < 2 ^ 64 \<Longrightarrow> (word_of_nat (Suc i) :: 64 word) \<noteq> 0"
  using unat_word_Suc [of i] by (metis nat.distinct(1) unsigned_0)

lemma log_files_at:
  "i < length hs \<Longrightarrow> length hs < 2 ^ 64 \<Longrightarrow> log_files hs (stateFileName (word_of_nat (Suc i))) = Some (state_payload (hs ! i))"
  by (simp add: log_files_def parse_stateFileName word_Suc_nonzero unat_word_Suc del: of_nat_Suc)

lemma log_files_next:
  "Suc (length hs) < 2 ^ 64 \<Longrightarrow> log_files hs (stateFileName (word_of_nat (Suc (length hs)))) = None"
  by (simp add: log_files_def parse_stateFileName word_Suc_nonzero unat_word_Suc del: of_nat_Suc)

lemma log_files_append:
  assumes "Suc (length hs) < 2 ^ 64"
  shows "log_files (hs @ [x]) = (log_files hs)(stateFileName (word_of_nat (Suc (length hs))) \<mapsto> state_payload x)"
proof (rule ext)
  fix name
  show "log_files (hs @ [x]) name = ((log_files hs)(stateFileName (word_of_nat (Suc (length hs))) \<mapsto> state_payload x)) name"
  proof (cases "parseStateFileName name")
    case None
    then have "name \<noteq> stateFileName (word_of_nat (Suc (length hs)))"
      using parse_stateFileName [OF word_Suc_nonzero [OF assms]] by auto
    with None show ?thesis by (simp add: log_files_def)
  next
    case (Some r)
    note name = parse_stateFileName_Some [OF Some]
    show ?thesis
    proof (cases "unat r = Suc (length hs)")
      case True
      then have "r = word_of_nat (Suc (length hs))" using unat_word_Suc [OF assms] by (simp add: word_unat_eq_iff del: of_nat_Suc)
      with Some True name show ?thesis by (simp add: log_files_def del: of_nat_Suc)
    next
      case False
      then have "r \<noteq> word_of_nat (Suc (length hs))" using unat_word_Suc [OF assms] by auto
      moreover have "unat r \<noteq> 0" using name(2) by (simp add: unat_eq_zero)
      ultimately show ?thesis using False Some name(1)
        by (auto simp: log_files_def nth_append simp del: of_nat_Suc)
    qed
  qed
qed

lemma validateTransition_sealed [simp]: "validateTransition p (state_sealed key s) d = validateTransition p s d"
  by (cases "gs_Pending s"; cases "gs_Pending p") (simp_all add: validateTransition_def)

lemma gen_link_append: "i < length hs \<Longrightarrow> gen_link key (hs @ [x]) i \<longleftrightarrow> gen_link key hs i"
  by (auto simp: gen_link_def nth_append)

lemma gen_chain_append:
  assumes "gen_chain key hs" and "Suc (length hs) < 2 ^ 64" and "validateState s" and "state_typed s"
    and "validateTransition (last hs) s (payload_digest (state_payload (last hs)))"
  shows "gen_chain key (hs @ [state_sealed key s])"
proof -
  have hs: "hs \<noteq> []" and links: "\<And>i. i < length hs \<Longrightarrow> gen_link key hs i"
    using assms(1) by (auto simp: gen_chain_def)
  let ?n = "length hs - 1"
  have last: "hs ! ?n = last hs" "Suc ?n = length hs" using hs by (simp_all add: last_conv_nth)
  have "gs_Revision (last hs) = word_of_nat (length hs)"
    using links [of ?n] last hs by (simp add: gen_link_def)
  moreover have "gs_Revision s = gs_Revision (last hs) + 1"
    using assms(5) by (auto simp: validateTransition_def split: if_splits)
  ultimately have rev: "gs_Revision s = word_of_nat (Suc (length hs))" by simp
  have trans: "validateTransition (last hs) (state_sealed key s) (payload_digest (state_payload (last hs)))"
    using assms(5) by (simp add: validateTransition_sealed)
  have "state_typed (state_sealed key s)" using assms(4) by (simp add: state_typed_def)
  then have "gen_link key (hs @ [state_sealed key s]) (length hs)"
    using validateState_sealed [OF assms(3)] rev trans hs last
    by (simp add: gen_link_def nth_append)
  with links assms(2) show ?thesis by (auto simp: gen_chain_def gen_link_append less_Suc_eq)
qed

subsection \<open>Loading\<close>

fun scan_records :: "gen_disk \<Rightarrow> (64 word, string) gomap" where
  "scan_records [] = []"
| "scan_records ((name, content) # entries) =
     (if name = currentName \<or> is_temp_name name then scan_records entries
      else case parseStateFileName name of
        None \<Rightarrow> scan_records entries
      | Some r \<Rightarrow> (r, content) # scan_records entries)"

lemma scan_records_mem:
  "(r, content) \<in> set (scan_records entries) \<longleftrightarrow> (stateFileName r, content) \<in> set entries \<and> r \<noteq> 0"
proof -
  have "(r, content) \<in> set (scan_records entries) \<longleftrightarrow>
      (\<exists>name. (name, content) \<in> set entries \<and> name \<noteq> currentName \<and> \<not> is_temp_name name \<and> parseStateFileName name = Some r)"
    by (induction entries rule: scan_records.induct) (auto split: if_splits option.splits)
  also have "\<dots> \<longleftrightarrow> (stateFileName r, content) \<in> set entries \<and> r \<noteq> 0"
    using parse_stateFileName parse_stateFileName_Some by (metis file_name_kinds(3,5))
  finally show ?thesis .
qed

lemma scan_records_distinct: "wf_map entries \<Longrightarrow> wf_map (scan_records entries)"
proof (induction entries)
  case (Cons e entries)
  obtain name content where e: "e = (name, content)" by (cases e)
  have "r \<notin> fst ` set (scan_records entries)" if "parseStateFileName name = Some r" for r
    using Cons.prems parse_stateFileName_Some [OF that] by (force simp: e scan_records_mem)
  with Cons e show ?case by (auto split: option.splits)
qed simp

lemma gen_scan_records:
  assumes "\<And>name content. (name, content) \<in> set entries \<Longrightarrow>
      name = currentName \<or> is_temp_name name \<or> parseStateFileName name \<noteq> None"
    and "wf_map (records @ scan_records entries)"
  shows "\<exists>disk'. gen_scan entries records disk = Some (records @ scan_records entries, disk') \<and>
    gen_files disk' = gen_files disk \<and> (wf_map disk \<longrightarrow> wf_map disk')"
  using assms
proof (induction entries arbitrary: records disk)
  case Nil
  then show ?case by simp
next
  case (Cons e entries)
  obtain name content where e: "e = (name, content)" by (cases e)
  have IH: "wf_map (rs @ scan_records entries) \<Longrightarrow> \<exists>disk'. gen_scan entries rs d = Some (rs @ scan_records entries, disk') \<and>
      gen_files disk' = gen_files d \<and> (wf_map d \<longrightarrow> wf_map disk')" for rs d
    by (rule Cons.IH) (use Cons.prems(1) in auto)
  consider (current) "name = currentName" | (temp) "name \<noteq> currentName" "is_temp_name name"
    | (rec) r where "name \<noteq> currentName" "\<not> is_temp_name name" "parseStateFileName name = Some r"
    using Cons.prems(1) [of name content] e by auto
  then show ?case
  proof cases
    case current
    then have "scan_records (e # entries) = scan_records entries" by (simp add: e)
    with current IH [of records disk] Cons.prems(2) e show ?thesis by simp
  next
    case temp
    then have "scan_records (e # entries) = scan_records entries" by (simp add: e)
    with temp IH [of records "AList.delete name disk"] Cons.prems(2) e show ?thesis by auto
  next
    case rec
    then have scan: "scan_records (e # entries) = (r, content) # scan_records entries" by (simp add: e)
    then have "map_of records r = None" using Cons.prems(2) by (auto simp: map_of_eq_None_iff)
    then have "AList.update r content records = records @ [(r, content)]" by (rule update_new)
    with rec scan IH [of "records @ [(r, content)]" disk] Cons.prems(2) e show ?thesis by simp
  qed
qed

lemma gen_files_entry:
  assumes "wf_map disk" and "gen_files disk = log_files hs" and "(name, content) \<in> set disk"
  shows "name = currentName \<or> is_temp_name name \<or> parseStateFileName name \<noteq> None"
proof -
  have "map_of disk name = Some content" using assms(1,3) by (simp add: map_of_eq_Some_iff)
  then show ?thesis
    using fun_cong [OF assms(2), of name] by (auto simp: gen_files_def log_files_def split: if_splits option.splits)
qed

lemma scan_records_log:
  assumes "wf_map disk" and "gen_files disk = log_files hs" and "length hs < 2 ^ 64"
  shows "map_of (scan_records disk) r = (if r \<noteq> 0 \<and> unat r \<le> length hs then Some (state_payload (hs ! (unat r - 1))) else None)"
    and "length (scan_records disk) = length hs"
proof -
  have look: "map_of (scan_records disk) r = (if r = 0 then None else map_of disk (stateFileName r))" for r
  proof -
    have "map_of (scan_records disk) r = Some c \<longleftrightarrow> r \<noteq> 0 \<and> map_of disk (stateFileName r) = Some c" for c
      unfolding map_of_eq_Some_iff [OF scan_records_distinct [OF assms(1)]] map_of_eq_Some_iff [OF assms(1)] scan_records_mem
      by blast
    then show ?thesis by (metis not_None_eq)
  qed
  have disk: "r \<noteq> 0 \<Longrightarrow> map_of disk (stateFileName r) = (if unat r \<le> length hs then Some (state_payload (hs ! (unat r - 1))) else None)" for r
    using fun_cong [OF assms(2), of "stateFileName r"]
    by (simp add: gen_files_record log_files_def parse_stateFileName)
  show lookup: "map_of (scan_records disk) r = (if r \<noteq> 0 \<and> unat r \<le> length hs then Some (state_payload (hs ! (unat r - 1))) else None)" for r
    using look disk by simp
  let ?W = "\<lambda>i. word_of_nat (Suc i) :: 64 word"
  have "fst ` set (scan_records disk) = dom (map_of (scan_records disk))" by (simp add: dom_map_of_conv_image_fst)
  also have "\<dots> = {r. r \<noteq> 0 \<and> unat r \<le> length hs}" using lookup by (auto simp: dom_def split: if_splits)
  also have "\<dots> = ?W ` {..<length hs}"
  proof (intro set_eqI iffI)
    fix r :: "64 word"
    assume "r \<in> {r. r \<noteq> 0 \<and> unat r \<le> length hs}"
    then obtain i where "unat r = Suc i" "i < length hs" by (cases "unat r") (auto simp: unat_eq_zero)
    then show "r \<in> ?W ` {..<length hs}"
      using assms(3) unat_word_Suc [of i] by (intro image_eqI [of _ _ i]) (simp_all add: word_unat_eq_iff del: of_nat_Suc)
  next
    fix r :: "64 word"
    assume "r \<in> ?W ` {..<length hs}"
    then obtain i where "r = ?W i" "i < length hs" by blast
    then show "r \<in> {r. r \<noteq> 0 \<and> unat r \<le> length hs}"
      using assms(3) unat_word_Suc [of i] word_Suc_nonzero [of i] by (simp del: of_nat_Suc)
  qed
  finally have "card (fst ` set (scan_records disk)) = card (?W ` {..<length hs})" by simp
  also have "\<dots> = card {..<length hs}"
  proof (rule card_image, rule inj_onI)
    fix i j
    assume ij: "i \<in> {..<length hs}" "j \<in> {..<length hs}" and eq: "?W i = ?W j"
    have "unat (?W i) = Suc i" "unat (?W j) = Suc j"
      by (rule unat_word_Suc, use ij assms(3) in simp)+
    with eq show "i = j" by (metis nat.inject)
  qed
  also have "\<dots> = length hs" by simp
  finally show "length (scan_records disk) = length hs"
    using distinct_card [OF scan_records_distinct [OF assms(1)]] by simp
qed

lemma gen_load_chain_log:
  assumes "gen_chain key hs"
    and "\<And>r. map_of records r = (if r \<noteq> 0 \<and> unat r \<le> length hs then Some (state_payload (hs ! (unat r - 1))) else None)"
    and "i \<le> length hs" and "0 < i \<Longrightarrow> prev = hs ! (i - 1) \<and> digest = payload_digest (state_payload (hs ! (i - 1)))"
  shows "gen_load_chain key records (length hs - i) (word_of_nat (Suc i)) prev digest =
    Some (if i = length hs then (prev, digest) else (last hs, payload_digest (state_payload (last hs))))"
  using assms(3,4)
proof (induction "length hs - i" arbitrary: i prev digest)
  case 0
  then show ?case by simp
next
  case (Suc n)
  have i: "i < length hs" and big: "length hs < 2 ^ 64" and link: "gen_link key hs i"
    using Suc.hyps(2) assms(1) by (auto simp: gen_chain_def)
  have W: "unat (word_of_nat (Suc i) :: 64 word) = Suc i" "(word_of_nat (Suc i) :: 64 word) \<noteq> 0"
    by (rule unat_word_Suc word_Suc_nonzero, use i big in simp)+
  have look: "map_of records (word_of_nat (Suc i)) = Some (state_payload (hs ! i))"
    using assms(2) [of "word_of_nat (Suc i)"] W i by (simp del: of_nat_Suc)
  have valid: "validateState (hs ! i)" "state_typed (hs ! i)" and sealed: "state_sealed key (hs ! i) = hs ! i"
    and rev: "gs_Revision (hs ! i) = word_of_nat (Suc i)"
    using link by (simp_all add: gen_link_def)
  note decode = decode_sealed [OF valid, of key, unfolded sealed] and len = sealed_size [OF valid, of key, unfolded sealed]
  have first: "(word_of_nat (Suc i) :: 64 word) = 1 \<longleftrightarrow> i = 0"
    using W(1) by (auto simp: word_unat_eq_iff simp del: of_nat_Suc)
  have ok: "\<not> (if (word_of_nat (Suc i) :: 64 word) = 1 then gs_PreviousRecordSHA256 (hs ! i) \<noteq> zeroDigest \<or> gs_Phase (hs ! i) \<noteq> PhaseStable
      else \<not> validateTransition prev (hs ! i) digest)"
    using link Suc.prems(2) unfolding first by (auto simp: gen_link_def)
  have step: "gen_load_chain key records (Suc n) (word_of_nat (Suc i)) prev digest =
      gen_load_chain key records n (word_of_nat (Suc (Suc i))) (hs ! i) (payload_digest (state_payload (hs ! i)))"
    using look len decode rev ok by (cases "state_payload (hs ! i)") (simp_all add: add.commute)
  have n: "n = length hs - Suc i" using Suc.hyps(2) by simp
  have "gen_load_chain key records (length hs - Suc i) (word_of_nat (Suc (Suc i))) (hs ! i) (payload_digest (state_payload (hs ! i))) =
      Some (if Suc i = length hs then (hs ! i, payload_digest (state_payload (hs ! i)))
            else (last hs, payload_digest (state_payload (last hs))))"
    by (rule Suc.hyps(1)) (use n i in simp_all)
  moreover have "Suc i = length hs \<Longrightarrow> hs ! i = last hs" by (metis diff_Suc_1 i last_conv_nth length_greater_0_conv list.size(3) not_less0)
  ultimately show ?case
    using i n unfolding Suc.hyps(2) [symmetric] step by auto
qed

end
