(* ===== verification/GenLog.thy ===== *)
theory GenLog
  imports GenStore
begin

text \<open>
  The correctness of the coordinator's store of \<^verbatim>\<open>internal/generation/state.go\<close>: the directory is
  always an authenticated log of valid transitions, memory stands at its last or last but one record, and
  \<^verbatim>\<open>OpenStore\<close> recovers the last record after a crash at any file operation.
\<close>

subsection \<open>The invariant\<close>

text \<open>The directory holds the history \<open>hs\<close>, and memory stands at its record \<open>m\<close>: the last one, or the one
  before it when the last commit linked its record and failed afterwards.\<close>

definition gen_at :: "gen_state list \<Rightarrow> nat \<Rightarrow> gen_store \<Rightarrow> bool" where
  "gen_at hs m S \<longleftrightarrow> gen_chain (st_key S) hs \<and> wf_map (st_disk S) \<and> gen_files (st_disk S) = log_files hs \<and>
     m < length hs \<and> length hs \<le> m + 2 \<and> st_state S = hs ! m \<and>
     st_digest S = payload_digest (state_payload (hs ! m)) \<and> 32 \<le> length (st_key S) \<and> length (st_key S) \<le> 128"

lemma gen_atD:
  assumes "gen_at hs m S"
  shows "gen_link (st_key S) hs m" and "m < length hs" and "length hs \<le> m + 2" and "st_state S = hs ! m"
    and "length hs < 2 ^ 64" and "validateState (st_state S)" and "state_typed (st_state S)"
    and "gs_Revision (st_state S) = word_of_nat (Suc m)"
proof -
  have chain: "gen_chain (st_key S) hs" "m < length hs" using assms by (simp_all add: gen_at_def)
  then show l: "gen_link (st_key S) hs m" and "m < length hs" and "length hs < 2 ^ 64" by (simp_all only: gen_chain_def)
  show "length hs \<le> m + 2" and s: "st_state S = hs ! m" using assms by (simp_all only: gen_at_def)
  show "validateState (st_state S)" and "state_typed (st_state S)" and "gs_Revision (st_state S) = word_of_nat (Suc m)"
    using l unfolding s gen_link_def by blast+
qed

lemma state_typedI:
  assumes "validateState s" and "gs_PrepareDeadline s < 2 ^ 63" and "gs_CommitDeadline s < 2 ^ 63"
  shows "state_typed s"
proof -
  note D = validateStateD [OF assms(1)]
  have "in_int64 (gs_DrainUntil s) \<and> in_int64 (gs_PrepareDeadline s) \<and> in_int64 (gs_CommitDeadline s)"
    using D(6,7,12) assms(2,3) i64_range [of "gs_UpdatedAt s + 10"]
    by (auto simp: gen_phase_ok_def in_int64_def split: if_splits)
  moreover have "in_int64 (ak_AcknowledgedAt a)" if "a \<in> set (gs_acks s)" for a
    using D(10) [OF that] D(7) by (auto simp: gen_ack_ok_def in_int64_def)
  ultimately show ?thesis using D(1,6,7) by (auto simp: state_typed_def in_int64_def)
qed

lemma commitLocked_at:
  assumes "gen_at hs m S" and "validateState s \<Longrightarrow> state_typed s" and "commitLocked io S s = (res, T)"
  obtains (kept) "gen_at hs m T" and "res = Some GenInvalid"
  | (linked) "gen_at (hs @ [state_sealed (st_key S) s]) m T" and "res = Some GenInvalid" and "Suc m = length hs"
      and "validateTransition (st_state S) s (st_digest S)"
  | (committed) "gen_at (hs @ [state_sealed (st_key S) s]) (Suc m) T" and "Suc m = length hs"
      and "validateTransition (st_state S) s (st_digest S)"
proof -
  note D = gen_atD [OF assms(1)] and frame = commitLocked_frame [OF assms(3)]
  have rev0: "gs_Revision (st_state S) \<noteq> 0" by (rule validateStateD(2) [OF D(6)])
  have disk: "wf_map (st_disk T)" using frame(3) assms(1) by (simp add: gen_at_def)
  have grow: "Suc m = length hs \<and> gen_chain (st_key S) (hs @ [state_sealed (st_key S) s]) \<and>
      (gen_files (st_disk S))(stateFileName (gs_Revision s) \<mapsto> state_payload (state_sealed (st_key S) s)) =
        log_files (hs @ [state_sealed (st_key S) s])"
    if v: "validateState s" and t: "validateTransition (st_state S) s (st_digest S)"
      and new: "gen_files (st_disk S) (stateFileName (gs_Revision s)) = None"
  proof -
    have "gs_Revision s = gs_Revision (st_state S) + 1" using t by (auto simp: validateTransition_def split: if_splits)
    then have rev: "gs_Revision s = word_of_nat (Suc (Suc m))" using D(8) by simp
    have files: "gen_files (st_disk S) = log_files hs" using assms(1) by (simp add: gen_at_def)
    have last: "Suc m = length hs"
    proof (rule ccontr)
      assume "Suc m \<noteq> length hs"
      then have "Suc m < length hs" using D(2) by simp
      from log_files_at [OF this D(5)] new files rev show False by simp
    qed
    have big: "Suc (length hs) < 2 ^ 64"
    proof (rule ccontr)
      assume "\<not> Suc (length hs) < 2 ^ 64"
      then have "Suc (length hs) = 2 ^ 64" using D(5) by simp
      then have "gs_Revision s = word_of_nat (2 ^ 64)" using rev last by (simp del: of_nat_Suc)
      then have "gs_Revision s = 0" by simp
      with validateStateD(2) [OF v] show False by blast
    qed
    have "st_state S = last hs" using D(4) last by (metis diff_Suc_1 last_conv_nth list.size(3) nat.distinct(1))
    moreover have "st_digest S = payload_digest (state_payload (last hs))"
      using assms(1) calculation D(4) by (simp add: gen_at_def)
    ultimately have "gen_chain (st_key S) (hs @ [state_sealed (st_key S) s])"
      using gen_chain_append [OF _ big v assms(2) [OF v]] t assms(1) by (simp add: gen_at_def)
    then show ?thesis using last rev log_files_append [OF big] files by (simp del: of_nat_Suc)
  qed
  from assms(3) show thesis
  proof (cases rule: commitLocked_cases)
    case refused
    then show ?thesis
      using assms(1) disk frame(1) by (intro kept) (simp_all add: gen_at_def)
  next
    case linked
    with rev0 have t: "validateTransition (st_state S) s (st_digest S)" by simp
    note g = grow [OF linked(4) t linked(6)]
    have "gen_at (hs @ [state_sealed (st_key S) s]) m T"
      using linked(2,3,7) g t disk frame(1) assms(1) by (simp add: gen_at_def nth_append)
    then show ?thesis using linked(1) g t that(2) by blast
  next
    case committed
    with rev0 have t: "validateTransition (st_state S) s (st_digest S)" by simp
    note g = grow [OF committed(3) t committed(5)]
    have "gen_at (hs @ [state_sealed (st_key S) s]) (Suc m) T"
      using committed(1,2,6) g t disk frame(1) assms(1) by (simp add: gen_at_def nth_append)
    then show ?thesis using g t that(3) by blast
  qed
qed

text \<open>Every call consists of changes of \<open>st_drainStarted\<close> to the current time and of commits. A commit
  either keeps the active generation, and a record that begins to drain is committed with the drain clock
  set, or it activates the pending generation after a full drain.\<close>

definition gen_commit_ok :: "go_time \<Rightarrow> gen_store \<Rightarrow> gen_state \<Rightarrow> bool" where
  "gen_commit_ok now S s \<longleftrightarrow> (validateState s \<longrightarrow> state_typed s) \<and>
     (gs_Active s = gs_Active (st_state S) \<and> (gs_Phase s = PhaseDraining \<longrightarrow> st_drainStarted S = now) \<or>
      gs_Phase (st_state S) = PhaseDraining \<and> gs_Phase s = PhaseCommitting \<and>
        DrainDuration \<le> time_sub now (st_drainStarted S))"

inductive gen_work :: "go_time \<Rightarrow> gen_store \<Rightarrow> gen_store \<Rightarrow> bool" where
  idle: "gen_work now S S"
| clock: "gen_work now S T \<Longrightarrow> gen_work now S (T\<lparr>st_drainStarted := now\<rparr>)"
| commit: "gen_work now S T \<Longrightarrow> gen_commit_ok now T s \<Longrightarrow> gen_work now S (snd (commitLocked io T s))"

lemma nextLocked_simps [simp]:
  "gs_Phase (nextLocked S now) = gs_Phase (st_state S)" "gs_Active (nextLocked S now) = gs_Active (st_state S)"
  "gs_Pending (nextLocked S now) = gs_Pending (st_state S)" "gs_acks (nextLocked S now) = gs_acks (st_state S)"
  "gs_replicas (nextLocked S now) = gs_replicas (st_state S)"
  "gs_PrepareDeadline (nextLocked S now) = gs_PrepareDeadline (st_state S)"
  "gs_CommitDeadline (nextLocked S now) = gs_CommitDeadline (st_state S)"
  "gs_DrainUntil (nextLocked S now) = gs_DrainUntil (st_state S)"
  by (simp_all add: nextLocked_def cloneState_def slice_clone_def slice_list_def split: list.splits option.splits)

lemma makeStable_simps [simp]:
  "gs_Phase (makeStable s) = PhaseStable" "gs_Active (makeStable s) = gs_Active s" "gs_PrepareDeadline (makeStable s) = 0"
  "gs_CommitDeadline (makeStable s) = 0" "gs_Pending (makeStable s) = None"
  by (simp_all add: makeStable_def)

lemma gen_commit_stable: "gen_commit_ok now S (makeStable (nextLocked S now'))"
  by (simp add: gen_commit_ok_def state_typedI phase_defs)

lemma gen_work_stable: "gen_work now S T \<Longrightarrow> gen_work now S (snd (commitLocked io T (makeStable (nextLocked T now'))))"
  by (rule gen_work.commit [OF _ gen_commit_stable])

lemma time_unix_bound:
  assumes "gen_validTime now" and "d < 2 ^ 63"
  shows "time_unix (time_add (time_utc now) d) < 2 ^ 63"
  using assms by (simp add: gen_validTime_def Let_def time_defs unix_of_wall_def) linarith

lemma gen_Publish_work: "gen_work now S (snd (gen_Publish io S r a p pt ct now))"
proof -
  have ct: "ct sdiv second < 2 ^ 63" if "ct \<le> 24 * hour" "30 * second \<le> ct"
    using that by (simp add: sdiv_nonneg)
  moreover have "time_unix (time_add (time_utc now) pt) < 2 ^ 63" if "gen_validTime now" "pt \<le> 24 * hour"
    by (rule time_unix_bound) (use that in simp_all)
  ultimately show ?thesis
    by (auto simp: gen_Publish_def gen_commit_ok_def phase_defs intro!: gen_work.intros state_typedI)
qed

lemma gen_Abort_work: "gen_work now S (snd (gen_Abort io S r p now))"
  by (simp add: gen_Abort_def gen_work.idle gen_work_stable)

lemma gen_Acknowledge_work:
  assumes "state_typed (st_state S)"
  shows "gen_work now S (snd (gen_Acknowledge io io2 S r replica g stage now))"
proof (cases "gs_Revision (st_state S) \<noteq> r \<or> \<not> containsReplica (gs_replicas (st_state S)) replica \<or> \<not> gen_validTime now \<or>
    stage \<noteq> AckPrepared \<and> stage \<noteq> AckActive \<or> \<not> gen_ack_allowed (st_state S) replica g stage")
  case True
  then have "snd (gen_Acknowledge io io2 S r replica g stage now) = S"
    unfolding gen_Acknowledge_def by (simp split: if_splits) blast
  then show ?thesis by (simp add: gen_work.idle)
next
  case False
  show ?thesis
  proof (cases "stage = AckPrepared \<and> time_unix (time_utc now) > gs_PrepareDeadline (st_state S)")
    case True
    with False have "snd (gen_Acknowledge io io2 S r replica g stage now) =
        snd (commitLocked io S (makeStable (nextLocked S now)))"
      unfolding gen_Acknowledge_def by (simp split: prod.split option.split)
    then show ?thesis by (simp add: gen_work.idle gen_work_stable)
  next
    case live: False
    define n where "n = nextLocked S now"
    show ?thesis
    proof (cases "ack_update (gs_acks n) (rr_ID replica) stage (time_unix (time_utc now))")
      case None
      with False live have "snd (gen_Acknowledge io io2 S r replica g stage now) = S"
        unfolding gen_Acknowledge_def by (auto simp: Let_def n_def)
      then show ?thesis by (simp add: gen_work.idle)
    next
      case (Some q)
      obtain acks updated where q: "q = (acks, updated)" by fastforce
      define acks' where "acks' = (if updated then acks else acks @
        [\<lparr>ak_ReplicaID = rr_ID replica, ak_Role = rr_Role replica, ak_Stage = stage,
          ak_GenerationID = gn_ID g, ak_ReceiptSHA256 = gn_ReceiptSHA256 g, ak_AcknowledgedAt = time_unix (time_utc now)\<rparr>])"
      define n1 where "n1 = n\<lparr>gs_Acknowledgements := Some (sort_key ak_ReplicaID acks')\<rparr>"
      define drain where "drain = (allAcknowledged n1 stage \<and> stage = AckPrepared)"
      define n2 where "n2 = (if drain then n1\<lparr>gs_Phase := PhaseDraining, gs_PrepareDeadline := 0,
        gs_DrainUntil := time_unix (time_add (time_utc now) DrainDuration)\<rparr> else n1)"
      define S1 where "S1 = (if drain then S\<lparr>st_drainStarted := now\<rparr> else S)"
      obtain e S2 where c: "commitLocked io S1 n2 = (e, S2)" by fastforce
      have guards: "(gs_Revision (st_state S) \<noteq> r \<or> \<not> containsReplica (gs_replicas (st_state S)) replica \<or> \<not> gen_validTime now) = False"
        "(stage \<noteq> AckPrepared \<and> stage \<noteq> AckActive) = False" "(\<not> gen_ack_allowed (st_state S) replica g stage) = False"
        "(stage = AckPrepared \<and> time_unix (time_utc now) > gs_PrepareDeadline (st_state S)) = False"
        using False live by auto
      have eq: "gen_Acknowledge io io2 S r replica g stage now =
          (case commitLocked io S1 n2 of
              (Some e, S2) \<Rightarrow> (Some e, S2)
            | (None, S2) \<Rightarrow>
                if stage = AckActive \<and> allAcknowledged (st_state S2) AckActive
                then commitLocked io2 S2 (makeStable (nextLocked S2 now))
                else (None, S2))"
        unfolding gen_Acknowledge_def Let_def guards if_False n_def [symmetric] Some option.case q prod.case
          acks'_def [symmetric] n1_def [symmetric] drain_def [symmetric] n2_def [symmetric] S1_def [symmetric] ..
      have result: "snd (gen_Acknowledge io io2 S r replica g stage now) = S2 \<or>
          snd (gen_Acknowledge io io2 S r replica g stage now) = snd (commitLocked io2 S2 (makeStable (nextLocked S2 now)))"
        by (simp add: eq c split: option.split)
      have "gs_Phase (st_state S) \<noteq> PhaseDraining"
        using False by (auto simp: gen_ack_allowed_def phase_defs split: if_splits)
      moreover have "gs_PrepareDeadline n2 < 2 ^ 63 \<and> gs_CommitDeadline n2 < 2 ^ 63 \<and> gs_Active n2 = gs_Active (st_state S)"
        using assms by (simp add: n2_def n1_def n_def state_typed_def in_int64_def)
      ultimately have "gen_commit_ok now S1 n2"
        by (auto simp: gen_commit_ok_def S1_def n2_def n1_def n_def intro!: state_typedI)
      moreover have "gen_work now S S1" by (simp add: S1_def gen_work.intros)
      ultimately have "gen_work now S S2" using gen_work.commit [of now S S1 n2 io] c by simp
      with result show ?thesis by (auto simp: gen_work_stable)
    qed
  qed
qed

lemma gen_Advance_work:
  assumes "state_typed (st_state S)"
  shows "gen_work now S (snd (gen_Advance io S now))"
proof (cases "gen_validTime now \<and> gs_Phase (st_state S) = PhaseDraining")
  case True
  define S1 where "S1 = (if time_is_zero (st_drainStarted S) then S\<lparr>st_drainStarted := now\<rparr> else S)"
  have S1: "gen_work now S S1" "st_state S1 = st_state S" by (simp_all add: S1_def gen_work.intros)
  define s where "s = (nextLocked S1 now)\<lparr>gs_Phase := PhaseCommitting, gs_Active := the (gs_Pending (nextLocked S1 now)),
    gs_DrainUntil := 0,
    gs_CommitDeadline := time_unix (time_add (time_utc now) (i64 (gs_CommitDeadline (st_state S1) * second)))\<rparr>"
  have "gs_CommitDeadline s < 2 ^ 63"
    unfolding s_def using time_unix_bound [of now] True i64_range [of "gs_CommitDeadline (st_state S1) * second"] by simp
  moreover have "gs_PrepareDeadline s < 2 ^ 63" using assms S1(2) by (simp add: s_def state_typed_def in_int64_def)
  ultimately have "gen_commit_ok now S1 s" if "\<not> time_sub now (st_drainStarted S1) < DrainDuration"
    using that True S1(2) by (auto simp: gen_commit_ok_def s_def intro!: state_typedI)
  then have "gen_work now S (if time_unix (time_utc now) < gs_DrainUntil (st_state S1) \<or>
      time_sub now (st_drainStarted S1) < DrainDuration then S1 else snd (commitLocked io S1 s))"
    using gen_work.commit [OF S1(1)] S1(1) by simp
  moreover have "snd (gen_Advance io S now) = (if time_unix (time_utc now) < gs_DrainUntil (st_state S1) \<or>
      time_sub now (st_drainStarted S1) < DrainDuration then S1 else snd (commitLocked io S1 s))"
    using True by (simp add: gen_Advance_def phase_defs Let_def S1_def [symmetric] s_def)
  ultimately show ?thesis by simp
next
  case False
  then show ?thesis by (auto simp: gen_Advance_def gen_work.idle intro!: gen_work_stable)
qed

subsection \<open>Opening a store\<close>

lemma gen_OpenStore_log:
  assumes "gen_chain key hs" and "wf_map disk" and "gen_files disk = log_files hs"
    and "32 \<le> length key" and "length key \<le> 128"
  shows "gen_OpenStore io key disk now = Inr T \<Longrightarrow> gen_at hs (length hs - 1) T \<and> st_key T = key \<and>
      st_drainStarted T = (if gs_Phase (last hs) = PhaseDraining then now else time_zero)"
    and "3 \<le> io \<Longrightarrow> \<exists>T. gen_OpenStore io key disk now = Inr T"
proof -
  have big: "length hs < 2 ^ 64" and ne: "hs \<noteq> []" using assms(1) unfolding gen_chain_def by blast+
  have "wf_map ([] @ scan_records disk)" using scan_records_distinct [OF assms(2)] by simp
  then have "\<exists>disk'. gen_scan disk [] disk = Some ([] @ scan_records disk, disk') \<and> gen_files disk' = gen_files disk \<and>
      (wf_map disk \<longrightarrow> wf_map disk')"
    by (rule gen_scan_records [rotated]) (rule gen_files_entry [OF assms(2,3)])
  then obtain disk' where scan: "gen_scan disk [] disk = Some (scan_records disk, disk')"
    and disk': "gen_files disk' = gen_files disk" "wf_map disk'" using assms(2) by auto
  note recs = scan_records_log [OF assms(2,3) big]
  from gen_load_chain_log [OF assms(1) recs(1), of 0 state_zero "[]"] ne
  have load: "gen_load_chain key (scan_records disk) (length (scan_records disk)) 1 state_zero [] =
      Some (last hs, payload_digest (state_payload (last hs)))"
    by (simp add: recs(2))
  have recs0: "scan_records disk \<noteq> []" using recs(2) ne by auto
  define S where "S = \<lparr>st_key = key, st_state = last hs, st_digest = payload_digest (state_payload (last hs)),
    st_drainStarted = (if gs_Phase (last hs) = PhaseDraining then now else time_zero), st_disk = disk'\<rparr>"
  have open_eq: "gen_OpenStore io key disk now = (if \<not> currentMatchesLocked S
      then (case writeCurrentLocked io S of (Some e, _) \<Rightarrow> Inl e | (None, S') \<Rightarrow> Inr S') else Inr S)"
    using assms(4,5) recs0 by (simp add: gen_OpenStore_def scan load S_def)
  have at: "gen_at hs (length hs - 1) S"
    using assms disk' ne by (simp add: gen_at_def S_def last_conv_nth)
  obtain res S' where w: "writeCurrentLocked io S = (res, S')" by fastforce
  note effect = writeCurrentLocked_effect [OF w]
  have at': "gen_at hs (length hs - 1) S'" using at effect(1-6) by (simp add: gen_at_def)
  show "gen_OpenStore io key disk now = Inr T \<Longrightarrow> gen_at hs (length hs - 1) T \<and> st_key T = key \<and>
      st_drainStarted T = (if gs_Phase (last hs) = PhaseDraining then now else time_zero)"
    unfolding open_eq w using at at' effect(3,4) by (auto simp: S_def split: if_splits option.splits)
  show "3 \<le> io \<Longrightarrow> \<exists>T. gen_OpenStore io key disk now = Inr T"
    unfolding open_eq w using effect(7) by simp
qed

lemma gen_InitializeStore_at:
  assumes "gen_InitializeStore io key initial replicas now = Inr S"
  shows "\<exists>s. gen_at [s] 0 S \<and> st_key S = key \<and> gs_Active s = initial \<and> st_drainStarted S = time_zero"
proof -
  define store where "store = \<lparr>st_key = key, st_state = state_zero, st_digest = [], st_drainStarted = time_zero, st_disk = []\<rparr>"
  define s where "s = state_zero\<lparr>gs_Schema := 1, gs_Revision := 1, gs_PreviousRecordSHA256 := zeroDigest,
    gs_Phase := PhaseStable, gs_Active := initial, gs_RequiredReplicas := Some (sortReplicas replicas),
    gs_Acknowledgements := Some [], gs_UpdatedAt := time_unix (time_utc now)\<rparr>"
  have key: "32 \<le> length key" "length key \<le> 128" and c: "commitLocked io store s = (None, S)"
    using assms by (auto simp: gen_InitializeStore_def Let_def store_def s_def split: if_splits prod.splits option.splits)
  from c show ?thesis
  proof (cases rule: commitLocked_cases)
    case committed
    let ?s = "state_sealed key s"
    have typed: "state_typed s" by (rule state_typedI [OF committed(3)]) (simp_all add: s_def state_zero_def)
    have link: "gen_link key [?s] 0"
      using committed(3) typed
      by (simp add: gen_link_def validateState_sealed) (simp add: s_def state_sealed_simps state_typed_def)
    have "log_files [] = Map.empty"
      by (rule ext) (use parse_stateFileName_Some(2) in \<open>auto simp: log_files_def unat_eq_zero split: option.split\<close>)
    moreover have "gen_files [] = Map.empty" by (rule ext) (simp add: gen_files_def)
    moreover have "gs_Revision s = 1" by (simp add: s_def)
    ultimately have files: "gen_files (st_disk S) = log_files [?s]"
      using committed(6) log_files_append [of "[]" ?s] by (simp add: store_def)
    have "gen_at [?s] 0 S"
      using key committed(1,2) commitLocked_frame(1,3) [OF c] link files
      by (simp add: gen_at_def gen_chain_def store_def)
    then show ?thesis
      using commitLocked_frame(1,2) [OF c] by (intro exI [of _ ?s]) (simp add: s_def store_def state_sealed_simps)
  qed simp_all
qed

subsection \<open>Reachable stores\<close>

text \<open>The specification of the store: an append-only log of valid records and the position that memory
  has reached. A call appends records one at a time and moves on to them, unless the commit fails after
  the link; a restart moves to the last record.\<close>

inductive gen_log_step :: "byte list \<Rightarrow> gen_state list \<times> nat \<Rightarrow> gen_state list \<times> nat \<Rightarrow> bool" where
  append: "gen_chain key (hs @ [x]) \<Longrightarrow> Suc m = length hs \<Longrightarrow> gen_log_step key (hs, m) (hs @ [x], Suc m)"
| orphan: "gen_chain key (hs @ [x]) \<Longrightarrow> Suc m = length hs \<Longrightarrow> gen_log_step key (hs, m) (hs @ [x], m)"
| restart: "gen_log_step key (hs, m) (hs, length hs - 1)"

definition gen_any_step :: "gen_store \<Rightarrow> gen_store \<Rightarrow> bool" where
  "gen_any_step S T \<longleftrightarrow> (\<exists>now. gen_step now S T)"

definition gen_wf :: "gen_store \<Rightarrow> bool" where
  "gen_wf S \<longleftrightarrow> (\<exists>hs m. gen_at hs m S)"

lemma gen_work_log:
  assumes "gen_work now S T" and "gen_at hs m S"
  shows "\<exists>hs' m'. (gen_log_step (st_key S))\<^sup>*\<^sup>* (hs, m) (hs', m') \<and> gen_at hs' m' T \<and> st_key T = st_key S"
  using assms
proof induction
  case (idle now S)
  then show ?case by blast
next
  case (clock now S T)
  then show ?case by (auto simp: gen_at_def)
next
  case (commit now S T s io)
  then obtain hs' m' where steps: "(gen_log_step (st_key S))\<^sup>*\<^sup>* (hs, m) (hs', m')"
    and T: "gen_at hs' m' T" "st_key T = st_key S" by blast
  obtain res T' where c: "commitLocked io T s = (res, T')" by fastforce
  have typed: "validateState s \<Longrightarrow> state_typed s" using commit.hyps(2) by (simp add: gen_commit_ok_def)
  have key: "st_key T' = st_key S" using commitLocked_frame(1) [OF c] T(2) by simp
  have "\<exists>hs'' m''. (gen_log_step (st_key S))\<^sup>*\<^sup>* (hs', m') (hs'', m'') \<and> gen_at hs'' m'' T'"
  proof (rule commitLocked_at [OF T(1) typed c])
    assume "gen_at hs' m' T'"
    then show ?thesis by blast
  next
    let ?x = "state_sealed (st_key T) s"
    assume a: "gen_at (hs' @ [?x]) m' T'" "Suc m' = length hs'"
    then have "gen_log_step (st_key S) (hs', m') (hs' @ [?x], m')"
      using key by (intro gen_log_step.orphan) (simp_all add: gen_at_def)
    with a(1) show ?thesis by blast
  next
    let ?x = "state_sealed (st_key T) s"
    assume a: "gen_at (hs' @ [?x]) (Suc m') T'" "Suc m' = length hs'"
    then have "gen_log_step (st_key S) (hs', m') (hs' @ [?x], Suc m')"
      using key by (intro gen_log_step.append) (simp_all add: gen_at_def)
    with a(1) show ?thesis by blast
  qed
  with steps key c show ?case by (metis rtranclp_trans snd_conv)
qed

lemma gen_reopen_at:
  assumes "gen_at hs m S" and "gen_OpenStore io (st_key S) (st_disk S) now = Inr T"
  shows "gen_at hs (length hs - 1) T" and "st_key T = st_key S"
    and "st_drainStarted T = (if gs_Phase (last hs) = PhaseDraining then now else time_zero)"
proof -
  have "gen_chain (st_key S) hs" "wf_map (st_disk S)" "gen_files (st_disk S) = log_files hs"
    "32 \<le> length (st_key S)" "length (st_key S) \<le> 128"
    using assms(1) by (simp_all add: gen_at_def)
  from gen_OpenStore_log(1) [OF this assms(2)] show "gen_at hs (length hs - 1) T" and "st_key T = st_key S"
    and "st_drainStarted T = (if gs_Phase (last hs) = PhaseDraining then now else time_zero)" by blast+
qed

lemma gen_step_cases:
  assumes "gen_step now S T" and "gen_at hs m S"
  obtains (work) "gen_work now S T"
  | (reopen) io where "gen_OpenStore io (st_key S) (st_disk S) now = Inr T"
  using assms(1)
proof cases
  case acknowledge
  then show ?thesis using gen_Acknowledge_work [OF gen_atD(7) [OF assms(2)]] work by blast
next
  case advance
  then show ?thesis using gen_Advance_work [OF gen_atD(7) [OF assms(2)]] work by blast
qed (use gen_Publish_work gen_Abort_work work reopen in blast)+

lemma gen_step_log:
  assumes "gen_step now S T" and "gen_at hs m S"
  shows "\<exists>hs' m'. (gen_log_step (st_key S))\<^sup>*\<^sup>* (hs, m) (hs', m') \<and> gen_at hs' m' T \<and> st_key T = st_key S"
  using assms
proof (cases rule: gen_step_cases)
  case work
  then show ?thesis by (rule gen_work_log [OF _ assms(2)])
next
  case (reopen io)
  note T = gen_reopen_at [OF assms(2) reopen]
  have "gen_log_step (st_key S) (hs, m) (hs, length hs - 1)" by (rule gen_log_step.restart)
  with T show ?thesis by blast
qed

interpretation gl: go_system gen_init gen_any_step gen_wf
proof unfold_locales
  fix S T
  show "gen_wf S" if "gen_init S" using that gen_InitializeStore_at unfolding gen_init_def gen_wf_def by blast
  show "gen_wf T" if "gen_wf S" "gen_any_step S T"
    using that gen_step_log unfolding gen_any_step_def gen_wf_def by blast
qed

lemma validateTransition_active:
  assumes "validateTransition p n d" and "gs_Active n \<noteq> gs_Active p"
  shows "gs_Phase p = PhaseDraining \<and> gs_Phase n = PhaseCommitting \<and> gs_Pending p = Some (gs_Active n) \<and> gs_acks n = gs_acks p"
  using assms by (auto simp: validateTransition_def sameGeneration_eq split: if_splits option.splits)

lemma committing_matches: "validateState n \<Longrightarrow> gs_Phase n = PhaseCommitting \<Longrightarrow> list_all (\<lambda>a. ackMatches a (gs_Active n)) (gs_acks n)"
  using validateStateD(12) [of n] by (simp add: gen_phase_ok_def phase_defs)

lemma gen_work_active:
  assumes "gen_work now S T" and "gen_at hs m S"
  shows "(gs_Phase (st_state T) = PhaseDraining \<longrightarrow> st_state T = st_state S \<or> st_drainStarted T = now) \<and>
    (gs_Active (st_state T) = gs_Active (st_state S) \<or>
     gs_Phase (st_state S) = PhaseDraining \<and> gs_Pending (st_state S) = Some (gs_Active (st_state T)) \<and>
     list_all (\<lambda>a. ackMatches a (gs_Active (st_state T))) (gs_acks (st_state S)))"
  using assms
proof induction
  case (commit now S T s io)
  from gen_work_log [OF commit.hyps(1) commit.prems] obtain hs' m' where T: "gen_at hs' m' T" by blast
  obtain res T' where c: "commitLocked io T s = (res, T')" by fastforce
  note frame = commitLocked_frame(2) [OF c]
  have typed: "validateState s \<Longrightarrow> state_typed s" using commit.hyps(2) by (simp add: gen_commit_ok_def)
  have unchanged: ?case if "st_state T' = st_state T" using that commit.IH [OF commit.prems] frame c by simp
  show ?case
  proof (rule commitLocked_at [OF T typed c])
    assume "gen_at hs' m' T'"
    with gen_atD(4) T show ?thesis by (intro unchanged) metis
  next
    assume "gen_at (hs' @ [state_sealed (st_key T) s]) m' T'"
    with gen_atD(2,4) T show ?thesis by (intro unchanged) (metis nth_append)
  next
    assume a: "gen_at (hs' @ [state_sealed (st_key T) s]) (Suc m') T'" "Suc m' = length hs'"
      "validateTransition (st_state T) s (st_digest T)"
    then have T': "st_state T' = state_sealed (st_key T) s" using gen_atD(4) by (metis nth_append_length)
    show ?thesis
    proof (cases "gs_Active s = gs_Active (st_state T)")
      case True
      have "gs_Phase s = PhaseDraining \<Longrightarrow> st_drainStarted T' = now"
        using commit.hyps(2) frame by (auto simp: gen_commit_ok_def phase_defs)
      with True T' commit.IH [OF commit.prems] c show ?thesis by (simp add: state_sealed_simps)
    next
      case False
      note flip = validateTransition_active [OF a(3) False]
      have "DrainDuration \<le> time_sub now (st_drainStarted T)"
        using commit.hyps(2) False by (auto simp: gen_commit_ok_def)
      then have "st_drainStarted T \<noteq> now"
        by (auto simp: time_sub_def saturate64_def max_int64_def DrainDuration_def split: option.splits)
      with commit.IH [OF commit.prems] flip have "st_state T = st_state S" by blast
      with flip T' c committing_matches [OF gen_atD(6) [OF a(1)]] show ?thesis by (simp add: state_sealed_simps phase_defs)
    qed
  qed
qed auto

lemma gen_step_active:
  assumes "gen_step now S T" and "gen_at hs m S" and "gs_Active (st_state T) \<noteq> gs_Active (st_state S)"
  shows "gs_Phase (st_state S) = PhaseDraining \<and> gs_Pending (st_state S) = Some (gs_Active (st_state T)) \<and>
    list_all (\<lambda>a. ackMatches a (gs_Active (st_state T))) (gs_acks (st_state S))"
  using assms(1,2)
proof (cases rule: gen_step_cases)
  case work
  from gen_work_active [OF this assms(2)] assms(3) show ?thesis by blast
next
  case (reopen io)
  note T = gen_atD(2,4) [OF gen_reopen_at(1) [OF assms(2) reopen]] and S = gen_atD [OF assms(2)]
  have "st_state T \<noteq> st_state S" using assms(3) by auto
  then have m: "length hs = m + 2" using T(2) S(2,3,4) by (cases "length hs = Suc m") auto
  then have "gen_link (st_key S) hs (Suc m)" using assms(2) by (simp add: gen_at_def gen_chain_def)
  then have "validateTransition (hs ! m) (hs ! Suc m) (payload_digest (state_payload (hs ! m)))"
    by (simp add: gen_link_def)
  from validateTransition_active [OF this] T(2) S(4) m assms(3)
    committing_matches [OF gen_atD(6) [OF gen_reopen_at(1) [OF assms(2) reopen]]] show ?thesis by simp
qed

subsection \<open>The commit deadline\<close>

text \<open>A call whose clock is at or past the Unix second \<open>d\<close>.\<close>

definition gen_late_step :: "int \<Rightarrow> gen_store \<Rightarrow> gen_store \<Rightarrow> bool" where
  "gen_late_step d S T \<longleftrightarrow> (\<exists>now. d \<le> time_unix (time_utc now) \<and> gen_step now S T)"

text \<open>A store that is committing, not fully acknowledged, with nothing on disk after its record \<open>s\<close>.\<close>

definition gen_waiting :: "gen_state \<Rightarrow> gen_store \<Rightarrow> bool" where
  "gen_waiting s S \<longleftrightarrow> (\<exists>hs. gen_at hs (length hs - 1) S) \<and> st_state S = s"

lemma commitLocked_invalid: "\<not> validateState s \<Longrightarrow> commitLocked io S s = (Some GenInvalid, S)"
  by (simp add: commitLocked_def)

lemma gen_Acknowledge_late:
  assumes "gs_Phase (st_state S) = PhaseCommitting" and "gs_CommitDeadline (st_state S) \<le> time_unix (time_utc now)"
  shows "snd (gen_Acknowledge io io2 S r replica g stage now) = S"
proof -
  have prepared: "\<not> gen_ack_allowed (st_state S) replica g AckPrepared"
    using assms(1) by (simp add: gen_ack_allowed_def phase_defs)
  have late: "\<not> validateState ((nextLocked S now)\<lparr>gs_Acknowledgements := acks\<rparr>)" for acks
  proof
    assume "validateState ((nextLocked S now)\<lparr>gs_Acknowledgements := acks\<rparr>)"
    from validateStateD(12) [OF this] assms show False
      by (simp add: gen_phase_ok_def phase_defs) (simp add: nextLocked_def cloneState_def)
  qed
  show ?thesis
    using prepared late
    by (auto simp: gen_Acknowledge_def Let_def stage_defs commitLocked_invalid split: option.splits prod.splits)
qed

lemma gen_waiting_step:
  assumes "gen_waiting s S" and "gs_Phase s = PhaseCommitting" and "\<not> allAcknowledged s AckActive"
    and "gen_late_step (gs_CommitDeadline s) S T"
  shows "gen_waiting s T"
proof -
  from assms(1) obtain hs where at: "gen_at hs (length hs - 1) S" and s: "st_state S = s" by (auto simp: gen_waiting_def)
  from assms(4) obtain now where late: "gs_CommitDeadline s \<le> time_unix (time_utc now)" and step: "gen_step now S T"
    by (auto simp: gen_late_step_def)
  from step show ?thesis
  proof cases
    case publish
    then show ?thesis using assms(1,2) s by (simp add: gen_Publish_def phase_defs)
  next
    case abort
    then show ?thesis using assms(1,2) s by (simp add: gen_Abort_def phase_defs)
  next
    case acknowledge
    then show ?thesis using gen_Acknowledge_late [of S now] assms(1,2) s late by simp
  next
    case advance
    then show ?thesis using assms(1-3) s by (simp add: gen_Advance_def phase_defs)
  next
    case reopen
    note T = gen_reopen_at(1) [OF at reopen]
    then show ?thesis using gen_atD(4) [OF T] gen_atD(4) [OF at] s by (auto simp: gen_waiting_def)
  qed
qed

lemma gen_waiting_forever:
  assumes "(gen_late_step (gs_CommitDeadline s))\<^sup>*\<^sup>* S T" and "gen_waiting s S"
    and "gs_Phase s = PhaseCommitting" and "\<not> allAcknowledged s AckActive"
  shows "gen_waiting s T"
  using assms by (induction rule: rtranclp_induct) (blast intro: gen_waiting_step)+

text \<open>Without a file for the next revision the directory ends with the record in memory.\<close>

lemma gen_waitingI:
  assumes "gen_wf S" and "map_of (st_disk S) (stateFileName (gs_Revision (st_state S) + 1)) = None"
  shows "gen_waiting (st_state S) S"
proof -
  from assms(1) obtain hs m where at: "gen_at hs m S" by (auto simp: gen_wf_def)
  note D = gen_atD [OF at]
  have "Suc m = length hs"
  proof (rule ccontr)
    assume "Suc m \<noteq> length hs"
    then have "Suc m < length hs" using D(2) by simp
    from log_files_at [OF this D(5)] have "map_of (st_disk S) (stateFileName (word_of_nat (Suc (Suc m)))) \<noteq> None"
      using at by (simp add: gen_at_def gen_files_record [symmetric] del: of_nat_Suc)
    then show False using assms(2) D(8) by simp
  qed
  then show ?thesis using at by (metis diff_Suc_1 gen_waiting_def)
qed

end
