(* ===== verification/GenProgress.thy ===== *)
theory GenProgress
  imports GenLog "HOL-Library.Multiset"
begin

text \<open>
  Progress of the coordinator of \<^verbatim>\<open>internal/generation/state.go\<close>: when files can be written and the
  clock does not run backwards, every step of a handoff succeeds in time, so a published generation
  that all replicas acknowledge becomes the active one.
\<close>

section \<open>Lemmas\<close>

subsection \<open>Commits that succeed\<close>

text \<open>Memory is at the last record of the directory and no temporary file is left over.\<close>

definition gen_ready :: "gen_store \<Rightarrow> bool" where
  "gen_ready S \<longleftrightarrow> gen_waiting (st_state S) S \<and> (\<forall>name \<in> fst ` set (st_disk S). \<not> is_temp_name name)"

lemma gen_ready_at: "gen_ready S \<Longrightarrow> \<exists>hs. gen_at hs (length hs - 1) S"
  by (auto simp: gen_ready_def gen_waiting_def)

lemma gen_readyD:
  assumes "gen_ready S"
  shows "validateState (st_state S)" and "state_typed (st_state S)"
    and "st_digest S = payload_digest (state_payload (st_state S))"
proof -
  from gen_ready_at [OF assms] obtain hs where at: "gen_at hs (length hs - 1) S" by blast
  show "validateState (st_state S)" and "state_typed (st_state S)" by (rule gen_atD [OF at])+
  show "st_digest S = payload_digest (state_payload (st_state S))" using at by (simp add: gen_at_def)
qed

lemma gen_ready_record:
  assumes "gen_ready S" and "gs_Revision s = gs_Revision (st_state S) + 1" and "gs_Revision s \<noteq> 0"
  shows "map_of (st_disk S) (stateFileName (gs_Revision s)) = None"
proof -
  from gen_ready_at [OF assms(1)] obtain hs where at: "gen_at hs (length hs - 1) S" by blast
  note D = gen_atD [OF at]
  have rev: "gs_Revision s = word_of_nat (Suc (length hs))" using assms(2) D(2,8) by simp
  have "Suc (length hs) < 2 ^ 64"
  proof (rule ccontr)
    assume "\<not> Suc (length hs) < 2 ^ 64"
    then have "Suc (length hs) = 2 ^ 64" using D(5) by simp
    then have "gs_Revision s = word_of_nat (2 ^ 64)" using rev by (simp del: of_nat_Suc)
    then show False using assms(3) by simp
  qed
  from log_files_next [OF this] show ?thesis
    using at rev by (simp add: gen_at_def gen_files_record [symmetric] del: of_nat_Suc)
qed

text \<open>Names of files along the file operations of a commit.\<close>

lemma keys_update: "fst ` set (AList.update k v d) = insert k (fst ` set d)"
  using arg_cong [OF update_keys [of k v d], of set] by (auto split: if_splits)

lemma keys_delete: "fst ` set (AList.delete k d) = fst ` set d - {k}"
  using arg_cong [OF delete_keys [of k d], of set] by auto

lemma temp_names [simp]: "stateTempName r \<noteq> stateFileName q" "stateTempName r \<noteq> currentName" "currentTempName r \<noteq> currentName"
  by (metis file_name_kinds)+

lemma commitLocked_ready:
  assumes "gen_ready S" and "validateState s" and "state_typed s"
    and "validateTransition (st_state S) s (st_digest S)" and "7 \<le> io"
  shows "\<exists>T. commitLocked io S s = (None, T) \<and> gen_ready T \<and> st_state T = state_sealed (st_key S) s \<and>
    st_key T = st_key S \<and> st_drainStarted T = st_drainStarted S"
proof -
  obtain res T where c: "commitLocked io S s = (res, T)" by fastforce
  have temp: "\<forall>name \<in> fst ` set (st_disk S). \<not> is_temp_name name" using assms(1) by (simp add: gen_ready_def)
  have no_temp: "map_of (st_disk S) (stateTempName r) = None" for r
    using temp file_name_kinds(1) [of r] by (metis map_of_eq_None_iff)
  have "gs_Revision s = gs_Revision (st_state S) + 1" using assms(4) by (auto simp: validateTransition_def split: if_splits)
  then have no_rec: "map_of (st_disk S) (stateFileName (gs_Revision s)) = None"
    by (rule gen_ready_record [OF assms(1)]) (rule validateStateD(2) [OF assms(2)])
  have io: "io \<noteq> 0" "io \<noteq> 1" "io \<noteq> 2" "io \<noteq> 3" "io - 4 \<noteq> 0" "io - 4 \<noteq> 1" "io - 4 \<noteq> 2" using assms(5) by auto
  have res: "res = None" and disk: "\<forall>name \<in> fst ` set (st_disk T). \<not> is_temp_name name"
    using c [symmetric] io temp assms(2,4) no_temp no_rec
    by (auto simp: commitLocked_def writeCurrentLocked_def Let_def update_conv' keys_update keys_delete temp_names [symmetric])
  from gen_ready_at [OF assms(1)] obtain hs where at: "gen_at hs (length hs - 1) S" by blast
  show ?thesis
  proof (rule commitLocked_at [OF at assms(3) c])
    let ?x = "state_sealed (st_key S) s"
    assume a: "gen_at (hs @ [?x]) (Suc (length hs - 1)) T" "Suc (length hs - 1) = length hs"
    then have "gen_waiting (st_state T) T" by (auto simp: gen_waiting_def intro!: exI [of _ "hs @ [?x]"])
    moreover have "st_state T = ?x" using gen_atD(4) [OF a(1)] a(2) by simp
    ultimately show ?thesis using c res disk commitLocked_frame [OF c] by (simp add: gen_ready_def)
  qed (use res in simp_all)
qed

subsection \<open>The records that the operations commit\<close>

lemma nextLocked_fields [simp]:
  "gs_Schema (nextLocked S now) = gs_Schema (st_state S)" "gs_Revision (nextLocked S now) = gs_Revision (st_state S) + 1"
  "gs_PreviousRecordSHA256 (nextLocked S now) = st_digest S" "gs_UpdatedAt (nextLocked S now) = time_unix (time_utc now)"
  "gs_RecordHMACB64URL (nextLocked S now) = []"
  by (simp_all add: nextLocked_def cloneState_def)

text \<open>The store can commit at the instant \<open>now\<close>: the clock is in range and has not run backwards, and
  there is a next revision.\<close>

definition gen_can_commit :: "gen_store \<Rightarrow> go_time \<Rightarrow> bool" where
  "gen_can_commit S now \<longleftrightarrow> gen_ready S \<and> gen_validTime now \<and>
     gs_UpdatedAt (st_state S) \<le> time_unix (time_utc now) \<and> gs_Revision (st_state S) + 1 \<noteq> 0"

lemma gen_validSHA256_digest [simp]: "gen_validSHA256 (payload_digest x)"
  by (simp add: gen_validSHA256_iff payload_digest_def hex_encode_valid length_sha256)

lemma gen_ack_ok_later:
  assumes "gen_ack_ok s [] a" and "gs_replicas t = gs_replicas s" and "gs_UpdatedAt s \<le> gs_UpdatedAt t"
  shows "gen_ack_ok t [] a"
  using assms by (auto simp: gen_ack_ok_def)

lemma next_valid:
  assumes "gen_can_commit S now"
    and "gs_Schema s = gs_Schema (st_state S)" "gs_Revision s = gs_Revision (st_state S) + 1"
      "gs_PreviousRecordSHA256 s = st_digest S" "gs_UpdatedAt s = time_unix (time_utc now)" "gs_RecordHMACB64URL s = []"
      "gs_replicas s = gs_replicas (st_state S)"
    and "validGeneration (gs_Active s)" and "gen_phase_ok s"
    and "sorted (map ak_ReplicaID (gs_acks s))" and "distinct (map ak_ReplicaID (gs_acks s))"
    and "\<And>a. a \<in> set (gs_acks s) \<Longrightarrow> a \<notin> set (gs_acks (st_state S)) \<Longrightarrow> gen_ack_ok s [] a"
  shows "validateState s"
proof -
  have ready: "gen_ready S" and time: "gen_validTime now" "gs_UpdatedAt (st_state S) \<le> time_unix (time_utc now)"
    and rev: "gs_Revision (st_state S) + 1 \<noteq> 0" using assms(1) by (simp_all add: gen_can_commit_def)
  note D = validateStateD [OF gen_readyD(1) [OF ready]]
  have "gen_ack_ok s [] a" if "a \<in> set (gs_acks s)" for a
    using assms(12) [OF that] gen_ack_ok_later [OF D(10), of a s] assms(5,7) time(2) by (cases "a \<in> set (gs_acks (st_state S))") auto
  then have "gen_acks_loop s (gs_acks s) []" using assms(11) by (simp add: gen_acks_loop_iff)
  then show ?thesis
    using assms(2-10) D(1,5,8) rev time gen_readyD(3) [OF ready]
    by (simp add: validateState_def gen_hmac_field_ok_def gen_validTime_def Let_def)
qed

lemma next_transition:
  assumes "gen_can_commit S now"
    and "gs_Revision s = gs_Revision (st_state S) + 1" "gs_PreviousRecordSHA256 s = st_digest S"
      "gs_UpdatedAt s = time_unix (time_utc now)" "gs_replicas s = gs_replicas (st_state S)"
  shows "(gs_Revision s \<noteq> gs_Revision (st_state S) + 1 \<or> gs_PreviousRecordSHA256 s \<noteq> st_digest S \<or>
      gs_UpdatedAt s < gs_UpdatedAt (st_state S) \<or> gs_replicas (st_state S) \<noteq> gs_replicas s) = False"
  using assms by (simp add: gen_can_commit_def)

text \<open>What a committed store looks like.\<close>

definition gen_commits :: "gen_error option \<times> gen_store \<Rightarrow> gen_store \<Rightarrow> gen_state \<Rightarrow> bool" where
  "gen_commits result S s \<longleftrightarrow> fst result = None \<and> gen_ready (snd result) \<and> st_key (snd result) = st_key S \<and>
     st_state (snd result) = state_sealed (st_key S) s \<and> st_drainStarted (snd result) = st_drainStarted S"

lemma commitLocked_commits:
  assumes "gen_can_commit S now" and "validateState s" and "gen_commit_ok now S s"
    and "validateTransition (st_state S) s (st_digest S)" and "7 \<le> io"
  shows "gen_commits (commitLocked io S s) S s"
proof -
  have "state_typed s" using assms(2,3) by (simp add: gen_commit_ok_def)
  from commitLocked_ready [OF _ assms(2) this assms(4,5)] assms(1) show ?thesis
    by (auto simp: gen_commits_def gen_can_commit_def)
qed

lemma gen_commitsD:
  assumes "gen_commits (res, T) S s"
  shows "res = None" and "gen_ready T" and "st_key T = st_key S" and "st_state T = state_sealed (st_key S) s"
    and "st_drainStarted T = st_drainStarted S"
  using assms by (simp_all add: gen_commits_def)

lemma stable_commits:
  assumes "gen_can_commit S now" and "7 \<le> io"
    and "gs_Phase (st_state S) = PhasePreparing \<or> gs_Phase (st_state S) = PhaseCommitting \<and> allAcknowledged (st_state S) AckActive"
  shows "gen_commits (commitLocked io S (makeStable (nextLocked S now))) S (makeStable (nextLocked S now))"
proof (rule commitLocked_commits [OF assms(1) _ gen_commit_stable _ assms(2)])
  let ?n = "makeStable (nextLocked S now)"
  have D: "validGeneration (gs_Active (st_state S))"
    using assms(1) validateStateD(4) gen_readyD(1) by (auto simp: gen_can_commit_def)
  show "validateState ?n"
    by (rule next_valid [OF assms(1)]) (simp_all add: D makeStable_def gen_phase_ok_def)
  have "(gs_Revision ?n \<noteq> gs_Revision (st_state S) + 1 \<or> gs_PreviousRecordSHA256 ?n \<noteq> st_digest S \<or>
      gs_UpdatedAt ?n < gs_UpdatedAt (st_state S) \<or> gs_replicas (st_state S) \<noteq> gs_replicas ?n) = False"
    by (rule next_transition [OF assms(1)]) (simp_all add: makeStable_def)
  then show "validateTransition (st_state S) ?n (st_digest S)"
    using assms(3) unfolding validateTransition_def by (auto simp: phase_defs sameGeneration_eq)
qed

lemma publish_commits:
  assumes "gen_can_commit S now" and "7 \<le> io" and "gs_Phase (st_state S) = PhaseStable"
    and "validGeneration p" and "gn_Sequence p = gn_Sequence (gs_Active (st_state S)) + 1"
    and "gn_ID p \<noteq> gn_ID (gs_Active (st_state S))"
    and "30 * second \<le> pt" "pt \<le> 24 * hour" "30 * second \<le> ct" "ct \<le> 24 * hour"
  shows "\<exists>T. gen_Publish io S (gs_Revision (st_state S)) (gs_Active (st_state S)) p pt ct now = (None, T) \<and> gen_ready T \<and>
    gs_Phase (st_state T) = PhasePreparing \<and> gs_Pending (st_state T) = Some p \<and> gs_acks (st_state T) = [] \<and>
    gs_replicas (st_state T) = gs_replicas (st_state S) \<and> gs_UpdatedAt (st_state T) = time_unix (time_utc now) \<and>
    gs_PrepareDeadline (st_state T) = time_unix (time_add (time_utc now) pt) \<and>
    gs_CommitDeadline (st_state T) = ct sdiv second \<and> gs_Revision (st_state T) = gs_Revision (st_state S) + 1"
proof -
  let ?n = "(nextLocked S now)\<lparr>gs_Phase := PhasePreparing, gs_Pending := Some p, gs_Acknowledgements := Some [],
    gs_PrepareDeadline := time_unix (time_add (time_utc now) pt), gs_CommitDeadline := ct sdiv second\<rparr>"
  have time: "gen_validTime now" and ready: "gen_ready S" using assms(1) by (simp_all add: gen_can_commit_def)
  note D = validateStateD [OF gen_readyD(1) [OF ready]]
  have drain: "gs_DrainUntil (st_state S) = 0" using D(12) assms(3) by (simp add: gen_phase_ok_def)
  have eq: "gen_Publish io S (gs_Revision (st_state S)) (gs_Active (st_state S)) p pt ct now = commitLocked io S ?n"
    using assms(3-10) time by (simp add: gen_Publish_def sameGeneration_eq)
  have "(30 * second + wall now) div second \<le> (wall now + pt) div second" by (rule zdiv_mono1) (use assms(7) in simp_all)
  then have deadline: "time_unix (time_utc now) < time_unix (time_add (time_utc now) pt)"
    by (simp add: time_defs unix_of_wall_def)
  have ct: "30 \<le> ct sdiv second" "ct sdiv second \<le> 86400"
    using zdiv_mono1 [OF assms(9), of second] zdiv_mono1 [OF assms(10), of second] assms(9) by (simp_all add: sdiv_nonneg)
  have ok: "gen_phase_ok ?n"
    using assms(4-6) deadline ct drain by (simp add: gen_phase_ok_def phase_defs gen_validPending_def)
  have "gen_commits (commitLocked io S ?n) S ?n"
  proof (rule commitLocked_commits [OF assms(1) _ _ _ assms(2)])
    show valid: "validateState ?n" by (rule next_valid [OF assms(1)]) (use D(4) ok in simp_all)
    have "state_typed ?n"
      by (rule state_typedI [OF valid]) (use ct time_unix_bound [OF time, of pt] assms(8) in simp_all)
    then show "gen_commit_ok now S ?n" by (simp add: gen_commit_ok_def phase_defs)
    have "(gs_Revision ?n \<noteq> gs_Revision (st_state S) + 1 \<or> gs_PreviousRecordSHA256 ?n \<noteq> st_digest S \<or>
        gs_UpdatedAt ?n < gs_UpdatedAt (st_state S) \<or> gs_replicas (st_state S) \<noteq> gs_replicas ?n) = False"
      by (rule next_transition [OF assms(1)]) simp_all
    then show "validateTransition (st_state S) ?n (st_digest S)"
      unfolding validateTransition_def using assms(3,5) by (auto simp: sameGeneration_eq)
  qed
  moreover obtain res T where "commitLocked io S ?n = (res, T)" by fastforce
  ultimately show ?thesis using eq gen_commitsD [of res T S ?n] by (simp add: state_sealed_simps)
qed

subsection \<open>Acknowledgements\<close>

text \<open>\<^verbatim>\<open>ackProgresses\<close> counts the entries that are not among the prior ones.\<close>

lemma prior_lookup:
  assumes "distinct (map ak_ReplicaID prior)"
  shows "map_of (rev (map (\<lambda>x. (ak_ReplicaID x, x)) prior)) i = Some a \<longleftrightarrow> a \<in> set prior \<and> ak_ReplicaID a = i"
proof -
  have "distinct (map fst (rev (map (\<lambda>x. (ak_ReplicaID x, x)) prior)))"
    using assms by (simp add: rev_map [symmetric] comp_def)
  then show ?thesis by (auto simp: map_of_eq_Some_iff)
qed

lemma ack_changes_count:
  assumes "distinct (map ak_ReplicaID prior)"
    and "\<And>a. a \<in> set acks \<Longrightarrow> a \<notin> set prior \<Longrightarrow>
      (if ak_ReplicaID a \<in> ak_ReplicaID ` set prior
       then target = AckActive \<and> ak_Stage a = AckActive \<and> (\<forall>old \<in> set prior. ak_ReplicaID old = ak_ReplicaID a \<longrightarrow> ak_Stage old = AckPrepared)
       else target = AckPrepared \<and> ak_Stage a = AckPrepared)"
  shows "ack_changes prior target acks = Some (length (filter (\<lambda>a. a \<notin> set prior) acks))"
  using assms(2)
proof (induction acks)
  case Nil
  then show ?case by simp
next
  case (Cons a acks)
  have IH: "ack_changes prior target acks = Some (length (filter (\<lambda>a. a \<notin> set prior) acks))"
    by (rule Cons.IH, rule Cons.prems) simp_all
  show ?case
  proof (cases "a \<in> set prior")
    case True
    then have "map_of (rev (map (\<lambda>x. (ak_ReplicaID x, x)) prior)) (ak_ReplicaID a) = Some a"
      by (simp add: prior_lookup [OF assms(1)])
    with IH True show ?thesis by simp
  next
    case new: False
    note p = Cons.prems [OF list.set_intros(1) new]
    show ?thesis
    proof (cases "ak_ReplicaID a \<in> ak_ReplicaID ` set prior")
      case True
      then obtain old where old: "old \<in> set prior" "ak_ReplicaID old = ak_ReplicaID a" by auto
      then have "map_of (rev (map (\<lambda>x. (ak_ReplicaID x, x)) prior)) (ak_ReplicaID a) = Some old"
        by (simp add: prior_lookup [OF assms(1)])
      moreover from p [unfolded if_P [OF True]] old
      have "target = AckActive" "ak_Stage a = AckActive" "ak_Stage old = AckPrepared" by blast+
      ultimately show ?thesis unfolding ack_changes.simps IH by (simp add: stage_defs new)
    next
      case False
      then have "map_of (rev (map (\<lambda>x. (ak_ReplicaID x, x)) prior)) (ak_ReplicaID a) = None"
        by (auto simp: map_of_eq_None_iff)
      with IH new p [unfolded if_not_P [OF False]] show ?thesis by simp
    qed
  qed
qed

lemma all_acknowledged_iff:
  assumes "gen_validReplicas (gs_replicas s)" and "sorted (map rr_ID (gs_replicas s))"
    and "sorted (map ak_ReplicaID (gs_acks s))" and "distinct (map ak_ReplicaID (gs_acks s))"
    and "\<And>a. a \<in> set (gs_acks s) \<Longrightarrow> \<lparr>rr_ID = ak_ReplicaID a, rr_Role = ak_Role a\<rparr> \<in> set (gs_replicas s)"
  shows "allAcknowledged s stage \<longleftrightarrow>
    ak_ReplicaID ` set (gs_acks s) = rr_ID ` set (gs_replicas s) \<and> (\<forall>a \<in> set (gs_acks s). ak_Stage a = stage)"
proof -
  let ?P = "\<lambda>r a. ak_ReplicaID a = rr_ID r \<and> ak_Role a = rr_Role r \<and> ak_Stage a = stage"
  have l2: "allAcknowledged s stage \<longleftrightarrow> list_all2 ?P (gs_replicas s) (gs_acks s)"
    by (auto simp: allAcknowledged_def list_all2_iff list_all_iff split: prod.splits)
  have inj: "inj_on rr_ID (set (gs_replicas s))" using gen_validReplicasD(3) [OF assms(1)] by (simp add: distinct_map)
  have maps: "map ak_ReplicaID (gs_acks s) = map rr_ID (gs_replicas s)"
    if "ak_ReplicaID ` set (gs_acks s) = rr_ID ` set (gs_replicas s)"
    by (rule sorted_distinct_set_unique) (use assms(2-4) gen_validReplicasD(3) [OF assms(1)] that in simp_all)
  show ?thesis unfolding l2
  proof
    assume L: "list_all2 ?P (gs_replicas s) (gs_acks s)"
    then have "map ak_ReplicaID (gs_acks s) = map rr_ID (gs_replicas s)"
      by (induction rule: list_all2_induct) simp_all
    then have "ak_ReplicaID ` set (gs_acks s) = rr_ID ` set (gs_replicas s)" by (metis list.set_map)
    moreover have "\<forall>a \<in> set (gs_acks s). ak_Stage a = stage"
      using L by (induction rule: list_all2_induct) simp_all
    ultimately show "ak_ReplicaID ` set (gs_acks s) = rr_ID ` set (gs_replicas s) \<and> (\<forall>a \<in> set (gs_acks s). ak_Stage a = stage)" ..
  next
    assume R: "ak_ReplicaID ` set (gs_acks s) = rr_ID ` set (gs_replicas s) \<and> (\<forall>a \<in> set (gs_acks s). ak_Stage a = stage)"
    note ids = maps [OF conjunct1 [OF R]]
    have len: "length (gs_replicas s) = length (gs_acks s)" using arg_cong [OF ids, of length] by simp
    have "?P (gs_replicas s ! i) (gs_acks s ! i)" if i: "i < length (gs_acks s)" for i
    proof -
      have id: "ak_ReplicaID (gs_acks s ! i) = rr_ID (gs_replicas s ! i)"
        using arg_cong [OF ids, of "\<lambda>xs. xs ! i"] i len by simp
      have "\<lparr>rr_ID = ak_ReplicaID (gs_acks s ! i), rr_Role = ak_Role (gs_acks s ! i)\<rparr> = gs_replicas s ! i"
        by (rule inj_onD [OF inj]) (use assms(5) [OF nth_mem [OF i]] i len id in simp_all)
      then have "ak_Role (gs_acks s ! i) = rr_Role (gs_replicas s ! i)" by (metis replica_ref.select_convs(2))
      then show ?thesis using id R i by simp
    qed
    then show "list_all2 ?P (gs_replicas s) (gs_acks s)" using len by (simp add: list_all2_conv_all_nth)
  qed
qed

lemma ack_update_new:
  "i \<notin> ak_ReplicaID ` set acks \<Longrightarrow> ack_update acks i stage at = Some (acks, False)"
  by (induction acks) auto

lemma ack_update_change:
  assumes "distinct (map ak_ReplicaID acks)" and "a \<in> set acks" and "ak_Stage a \<noteq> stage"
  shows "ack_update acks (ak_ReplicaID a) stage at =
    Some (map (\<lambda>x. if x = a then x\<lparr>ak_Stage := stage, ak_AcknowledgedAt := at\<rparr> else x) acks, True)"
  using assms
proof (induction acks)
  case (Cons b acks)
  show ?case
  proof (cases "b = a")
    case True
    then have "a \<notin> set acks" using Cons.prems(1) by auto
    then have "map (\<lambda>x. if x = a then x\<lparr>ak_Stage := stage, ak_AcknowledgedAt := at\<rparr> else x) acks = acks"
      by (induction acks) auto
    then show ?thesis using True Cons.prems(3) by simp
  next
    case False
    then have "a \<in> set acks" using Cons.prems(2) by simp
    moreover from this have "ak_ReplicaID b \<noteq> ak_ReplicaID a" using Cons.prems(1) by auto
    ultimately show ?thesis using Cons False by simp
  qed
qed simp

definition ack_entry :: "replica_ref \<Rightarrow> generation \<Rightarrow> string \<Rightarrow> go_time \<Rightarrow> acknowledgement" where
  "ack_entry replica g stage now = \<lparr>ak_ReplicaID = rr_ID replica, ak_Role = rr_Role replica, ak_Stage = stage,
     ak_GenerationID = gn_ID g, ak_ReceiptSHA256 = gn_ReceiptSHA256 g, ak_AcknowledgedAt = time_unix (time_utc now)\<rparr>"

text \<open>A replica that has not answered acknowledges PREPARED before the deadline: it is recorded, and the
  last one starts the drain.\<close>

lemma prepared_commits:
  assumes "gen_can_commit S now" and "7 \<le> io" and "gs_Phase (st_state S) = PhasePreparing"
    and "gs_Pending (st_state S) = Some g" and "replica \<in> set (gs_replicas (st_state S))"
    and "rr_ID replica \<notin> ak_ReplicaID ` set (gs_acks (st_state S))"
    and "time_unix (time_utc now) < gs_PrepareDeadline (st_state S)"
  shows "\<exists>T. gen_Acknowledge io io2 S (gs_Revision (st_state S)) replica g AckPrepared now = (None, T) \<and> gen_ready T \<and>
    gs_Pending (st_state T) = Some g \<and> gs_replicas (st_state T) = gs_replicas (st_state S) \<and>
    gs_UpdatedAt (st_state T) = time_unix (time_utc now) \<and> gs_CommitDeadline (st_state T) = gs_CommitDeadline (st_state S) \<and>
    gs_Revision (st_state T) = gs_Revision (st_state S) + 1 \<and>
    ak_ReplicaID ` set (gs_acks (st_state T)) = insert (rr_ID replica) (ak_ReplicaID ` set (gs_acks (st_state S))) \<and>
    (\<forall>a \<in> set (gs_acks (st_state T)). ackMatches a g) \<and>
    (if ak_ReplicaID ` set (gs_acks (st_state T)) = rr_ID ` set (gs_replicas (st_state S))
     then gs_Phase (st_state T) = PhaseDraining \<and> st_drainStarted T = now \<and>
       gs_DrainUntil (st_state T) = time_unix (time_utc now) + 10
     else gs_Phase (st_state T) = PhasePreparing \<and> gs_PrepareDeadline (st_state T) = gs_PrepareDeadline (st_state S))"
proof -
  have time: "gen_validTime now" "gs_UpdatedAt (st_state S) \<le> time_unix (time_utc now)" and ready: "gen_ready S"
    using assms(1) by (simp_all add: gen_can_commit_def)
  note D = validateStateD [OF gen_readyD(1) [OF ready]] and typed = gen_readyD(2) [OF ready]
  from D(12) assms(3,4) have ph: "gen_validPending (st_state S)" "gs_DrainUntil (st_state S) = 0"
    "30 \<le> gs_CommitDeadline (st_state S)" "gs_CommitDeadline (st_state S) \<le> 86400"
    and old: "\<And>a. a \<in> set (gs_acks (st_state S)) \<Longrightarrow> ak_Stage a = AckPrepared \<and> ackMatches a g"
    by (auto simp: gen_phase_ok_def phase_defs list_all_iff)
  have g: "validGeneration g" using ph(1) assms(4) by (simp add: gen_validPending_def)
  let ?e = "ack_entry replica g AckPrepared now"
  define acks where "acks = sort_key ak_ReplicaID (gs_acks (st_state S) @ [?e])"
  define n1 where "n1 = (nextLocked S now)\<lparr>gs_Acknowledgements := Some acks\<rparr>"
  define drain where "drain = allAcknowledged n1 AckPrepared"
  define n2 where "n2 = (if drain then n1\<lparr>gs_Phase := PhaseDraining, gs_PrepareDeadline := 0,
    gs_DrainUntil := time_unix (time_add (time_utc now) DrainDuration)\<rparr> else n1)"
  define S1 where "S1 = (if drain then S\<lparr>st_drainStarted := now\<rparr> else S)"
  have S1: "st_state S1 = st_state S" "st_digest S1 = st_digest S" "st_key S1 = st_key S" "gen_can_commit S1 now"
    using assms(1) by (simp_all add: S1_def gen_can_commit_def gen_ready_def gen_waiting_def gen_at_def)
  have acks_set: "set acks = insert ?e (set (gs_acks (st_state S)))" by (simp add: acks_def)
  have acks_sorted: "sorted (map ak_ReplicaID acks)" by (simp add: acks_def)
  have "mset (map ak_ReplicaID acks) = mset (map ak_ReplicaID (gs_acks (st_state S) @ [?e]))"
    by (simp only: acks_def mset_map mset_sort)
  then have acks_distinct: "distinct (map ak_ReplicaID acks)"
    using D(11) assms(6) mset_eq_imp_distinct_iff by (fastforce simp: ack_entry_def)
  have entry: "ak_ReplicaID ?e = rr_ID replica" "ak_Stage ?e = AckPrepared" "ackMatches ?e g"
    "\<lparr>rr_ID = ak_ReplicaID ?e, rr_Role = ak_Role ?e\<rparr> = replica"
    by (simp_all add: ack_entry_def ackMatches_def)
  have n2: "gs_acks n2 = acks" "gs_replicas n2 = gs_replicas (st_state S)" "gs_Pending n2 = Some g"
    "gs_Active n2 = gs_Active (st_state S)" "gs_UpdatedAt n2 = time_unix (time_utc now)"
    "gs_CommitDeadline n2 = gs_CommitDeadline (st_state S)" "gs_Revision n2 = gs_Revision (st_state S) + 1"
    "gs_PreviousRecordSHA256 n2 = st_digest S" "gs_Schema n2 = gs_Schema (st_state S)" "gs_RecordHMACB64URL n2 = []"
    using assms(4) by (simp_all add: n2_def n1_def)
  have allowed: "containsReplica (gs_replicas (st_state S)) replica" "gen_ack_allowed (st_state S) replica g AckPrepared"
    using assms(3-5) by (auto simp: containsReplica_def list_ex_iff gen_ack_allowed_def sameGeneration_eq)
  have upd: "ack_update (gs_acks (nextLocked S now)) (rr_ID replica) AckPrepared (time_unix (time_utc now)) =
      Some (gs_acks (st_state S), False)"
    using ack_update_new [OF assms(6)] by simp
  have not_active: "(AckPrepared = AckActive) = False" by (simp add: stage_defs)
  have live: "(time_unix (time_utc now) > gs_PrepareDeadline (st_state S)) = False" using assms(7) by simp
  have eq: "gen_Acknowledge io io2 S (gs_Revision (st_state S)) replica g AckPrepared now = (case commitLocked io S1 n2 of
      (Some e, S2) \<Rightarrow> (Some e, S2) | (None, S2) \<Rightarrow> (None, S2))"
    unfolding gen_Acknowledge_def Let_def upd option.case prod.case live not_active simp_thms if_False S1_def n2_def drain_def n1_def acks_def ack_entry_def
    using allowed time(1) by simp
  have members: "\<lparr>rr_ID = ak_ReplicaID a, rr_Role = ak_Role a\<rparr> \<in> set (gs_replicas (st_state S))" if "a \<in> set acks" for a
    using that D(10) assms(5) entry(4) unfolding acks_set by (auto simp: gen_ack_ok_def containsReplica_def list_ex_iff)
  have stages: "ak_Stage a = AckPrepared \<and> ackMatches a g" if "a \<in> set acks" for a
    using that old entry(2,3) unfolding acks_set by auto
  have all: "drain \<longleftrightarrow> ak_ReplicaID ` set acks = rr_ID ` set (gs_replicas (st_state S))"
    unfolding drain_def
    by (subst all_acknowledged_iff) (use D(5,8) acks_sorted acks_distinct members stages in \<open>simp_all add: n1_def\<close>)
  have drain_until: "time_unix (time_add (time_utc now) DrainDuration) = time_unix (time_utc now) + 10"
    using unix_of_wall_add_seconds [of "wall now" 10] by (simp add: time_defs DrainDuration_def)
  have drained: "allAcknowledged n2 AckPrepared" if drain
  proof -
    have "allAcknowledged n1 AckPrepared" "gs_acks n2 = gs_acks n1" "gs_replicas n2 = gs_replicas n1"
      using that by (simp_all add: drain_def n2_def)
    then show ?thesis by (simp only: allAcknowledged_def)
  qed
  have range: "i64 (time_unix (time_utc now) + 10) = time_unix (time_utc now) + 10"
    using time(1) by (intro i64_id) (simp_all add: gen_validTime_def Let_def)
  have ok: "gen_phase_ok n2"
    using ph assms(3,4,7) stages drained drain_until range n2(1,3) unfolding gen_phase_ok_def
    by (auto simp: n2_def n1_def phase_defs gen_validPending_def list_all_iff)
  have "gen_commits (commitLocked io S1 n2) S1 n2"
  proof (rule commitLocked_commits [OF S1(4) _ _ _ assms(2)])
    show valid: "validateState n2"
    proof (rule next_valid [OF S1(4)])
      show "gen_ack_ok n2 [] a" if "a \<in> set (gs_acks n2)" "a \<notin> set (gs_acks (st_state S1))" for a
      proof -
        have "a = ?e" using that n2(1) acks_set S1(1) by auto
        then show ?thesis
          using n2(2,5) allowed(1) g time(1)
          by (cases replica) (simp add: gen_ack_ok_def ack_entry_def validGeneration_def gen_validTime_def Let_def)
      qed
    qed (use n2 S1(1,2) D(4) ok acks_sorted acks_distinct in simp_all)
    have "state_typed n2"
      by (rule state_typedI [OF valid]) (use typed ph n2(6) in \<open>simp_all add: n2_def n1_def state_typed_def in_int64_def\<close>)
    then show "gen_commit_ok now S1 n2"
      using S1(1) n2(4) assms(3) by (simp add: gen_commit_ok_def n2_def n1_def S1_def phase_defs)
    have progress: "ackProgresses (gs_acks (st_state S)) acks AckPrepared"
    proof -
      have "ack_changes (gs_acks (st_state S)) AckPrepared acks =
          Some (length (filter (\<lambda>a. a \<notin> set (gs_acks (st_state S))) acks))"
        by (rule ack_changes_count [OF D(11)]) (use acks_set entry(1,2) assms(6) in auto)
      moreover have "filter (\<lambda>a. a \<notin> set (gs_acks (st_state S))) (gs_acks (st_state S) @ [?e]) = [?e]"
        using assms(6) entry(1) by (simp add: filter_empty_conv) (metis image_eqI)
      then have "mset (filter (\<lambda>a. a \<notin> set (gs_acks (st_state S))) acks) = {#?e#}"
        unfolding acks_def mset_filter mset_sort by (metis mset_filter mset_single_iff_right)
      then have "length (filter (\<lambda>a. a \<notin> set (gs_acks (st_state S))) acks) = 1"
        by (metis size_mset size_single)
      ultimately show ?thesis by (simp add: ackProgresses_def acks_def)
    qed
    note first = next_transition [OF S1(4), of n2]
    show "validateTransition (st_state S1) n2 (st_digest S1)"
      unfolding validateTransition_def
      using first n2 S1(1,2) assms(3,4) progress by (simp add: sameGeneration_eq phase_defs) (simp add: n2_def n1_def phase_defs)
  qed
  moreover obtain res T where c: "commitLocked io S1 n2 = (res, T)" by fastforce
  ultimately have T: "res = None" "gen_ready T" "st_state T = state_sealed (st_key S) n2" "st_drainStarted T = st_drainStarted S1"
    using gen_commitsD [of res T S1 n2] S1(3) by simp_all
  have ids: "ak_ReplicaID ` set acks = insert (rr_ID replica) (ak_ReplicaID ` set (gs_acks (st_state S)))"
    unfolding acks_set by (simp add: entry(1))
  show ?thesis
  proof (intro exI conjI)
    show "gen_Acknowledge io io2 S (gs_Revision (st_state S)) replica g AckPrepared now = (None, T)" by (simp add: eq c T(1))
    show "if ak_ReplicaID ` set (gs_acks (st_state T)) = rr_ID ` set (gs_replicas (st_state S))
     then gs_Phase (st_state T) = PhaseDraining \<and> st_drainStarted T = now \<and>
       gs_DrainUntil (st_state T) = time_unix (time_utc now) + 10
     else gs_Phase (st_state T) = PhasePreparing \<and> gs_PrepareDeadline (st_state T) = gs_PrepareDeadline (st_state S)"
      using all drain_until assms(3) T(3,4) n2(1)
      by (cases drain) (simp_all add: state_sealed_simps, simp_all add: n2_def n1_def S1_def)
  qed (use T n2 ids stages in \<open>simp_all add: state_sealed_simps\<close>)
qed

text \<open>After the drain the pending generation is activated.\<close>

lemma advance_commits:
  assumes "gen_can_commit S now" and "7 \<le> io" and "gs_Phase (st_state S) = PhaseDraining"
    and "gs_Pending (st_state S) = Some g" and "gs_DrainUntil (st_state S) \<le> time_unix (time_utc now)"
    and "\<not> time_is_zero (st_drainStarted S)" and "DrainDuration \<le> time_sub now (st_drainStarted S)"
    and "gs_CommitDeadline (st_state S) \<le> 86400" and "\<forall>a \<in> set (gs_acks (st_state S)). ackMatches a g"
  shows "\<exists>T. gen_Advance io S now = (None, T) \<and> gen_ready T \<and>
    gs_Phase (st_state T) = PhaseCommitting \<and> gs_Active (st_state T) = g \<and> gs_Pending (st_state T) = Some g \<and>
    gs_acks (st_state T) = gs_acks (st_state S) \<and> gs_replicas (st_state T) = gs_replicas (st_state S) \<and>
    gs_UpdatedAt (st_state T) = time_unix (time_utc now) \<and> gs_Revision (st_state T) = gs_Revision (st_state S) + 1 \<and>
    gs_CommitDeadline (st_state T) = time_unix (time_utc now) + gs_CommitDeadline (st_state S)"
proof -
  have time: "gen_validTime now" and ready: "gen_ready S" using assms(1) by (simp_all add: gen_can_commit_def)
  note D = validateStateD [OF gen_readyD(1) [OF ready]] and typed = gen_readyD(2) [OF ready]
  from D(12) assms(3) have ph: "gen_validPending (st_state S)" "gs_PrepareDeadline (st_state S) = 0"
    "30 \<le> gs_CommitDeadline (st_state S)" "allAcknowledged (st_state S) AckPrepared"
    by (auto simp: gen_phase_ok_def phase_defs)
  have g: "validGeneration g" using ph(1) assms(4) by (simp add: gen_validPending_def)
  define n where "n = (nextLocked S now)\<lparr>gs_Phase := PhaseCommitting, gs_Active := the (gs_Pending (nextLocked S now)), gs_DrainUntil := 0,
    gs_CommitDeadline := time_unix (time_add (time_utc now) (i64 (gs_CommitDeadline (st_state S) * second)))\<rparr>"
  have eq: "gen_Advance io S now = commitLocked io S n"
    using time assms(3,5-7) by (simp add: gen_Advance_def phase_defs Let_def n_def)
  have "i64 (gs_CommitDeadline (st_state S) * second) = gs_CommitDeadline (st_state S) * second"
    by (rule i64_id) (use ph(3) assms(8) in simp_all)
  then have deadline: "gs_CommitDeadline n = time_unix (time_utc now) + gs_CommitDeadline (st_state S)"
    using unix_of_wall_add_seconds [of "wall now"] by (simp add: n_def time_defs)
  have n: "gs_acks n = gs_acks (st_state S)" "gs_replicas n = gs_replicas (st_state S)" "gs_Pending n = Some g"
    "gs_Active n = g" "gs_UpdatedAt n = time_unix (time_utc now)" "gs_Revision n = gs_Revision (st_state S) + 1"
    "gs_PreviousRecordSHA256 n = st_digest S" "gs_Schema n = gs_Schema (st_state S)" "gs_RecordHMACB64URL n = []"
    "gs_PrepareDeadline n = 0" "gs_DrainUntil n = 0" "gs_Phase n = PhaseCommitting"
    using assms(4) ph(2) by (simp_all add: n_def)
  have len: "length (gs_acks (st_state S)) = length (gs_replicas (st_state S))"
    using ph(4) by (simp add: allAcknowledged_def split: if_splits)
  have ok: "gen_phase_ok n"
    using n len deadline ph(3) assms(9) by (simp add: gen_phase_ok_def phase_defs sameGeneration_eq list_all_iff)
  have "gen_commits (commitLocked io S n) S n"
  proof (rule commitLocked_commits [OF assms(1) _ _ _ assms(2)])
    show valid: "validateState n"
      by (rule next_valid [OF assms(1)]) (use n D(9,11) g ok in simp_all)
    have "state_typed n"
      by (rule state_typedI [OF valid])
        (use n deadline time assms(8) in \<open>simp_all add: gen_validTime_def Let_def\<close>)
    then show "gen_commit_ok now S n"
      using n assms(3,7) by (simp add: gen_commit_ok_def)
    note first = next_transition [OF assms(1), of n]
    show "validateTransition (st_state S) n (st_digest S)"
      unfolding validateTransition_def
      using first n assms(3,4) by (simp add: sameGeneration_eq phase_defs)
  qed
  moreover obtain res T where c: "commitLocked io S n = (res, T)" by fastforce
  ultimately have T: "res = None" "gen_ready T" "st_state T = state_sealed (st_key S) n"
    using gen_commitsD [of res T S n] by simp_all
  with eq c n deadline show ?thesis by (simp add: state_sealed_simps)
qed

lemma ackStage_at:
  "distinct (map ak_ReplicaID acks) \<Longrightarrow> a \<in> set acks \<Longrightarrow> ackStage acks (ak_ReplicaID a) = ak_Stage a"
  by (induction acks) auto

lemma ack_member:
  assumes "validateState s" and "a \<in> set (gs_acks s)"
  shows "\<lparr>rr_ID = ak_ReplicaID a, rr_Role = ak_Role a\<rparr> \<in> set (gs_replicas s)"
  using validateStateD(10) [OF assms] by (auto simp: gen_ack_ok_def containsReplica_def list_ex_iff)

lemma full_ack_ids:
  assumes "validateState s" and "length (gs_acks s) = length (gs_replicas s)"
  shows "ak_ReplicaID ` set (gs_acks s) = rr_ID ` set (gs_replicas s)"
proof (rule card_subset_eq)
  have "rr_ID \<lparr>rr_ID = ak_ReplicaID a, rr_Role = ak_Role a\<rparr> \<in> rr_ID ` set (gs_replicas s)" if "a \<in> set (gs_acks s)" for a
    using ack_member [OF assms(1) that] by (rule imageI)
  then show "ak_ReplicaID ` set (gs_acks s) \<subseteq> rr_ID ` set (gs_replicas s)" by auto
  have "card (set (map ak_ReplicaID (gs_acks s))) = length (gs_acks s)"
    using distinct_card [OF validateStateD(11) [OF assms(1)]] by simp
  moreover have "card (set (map rr_ID (gs_replicas s))) = length (gs_replicas s)"
    using distinct_card [OF gen_validReplicasD(3) [OF validateStateD(5) [OF assms(1)]]] by simp
  ultimately show "card (ak_ReplicaID ` set (gs_acks s)) = card (rr_ID ` set (gs_replicas s))" using assms(2) by simp
qed simp

text \<open>Before the commit deadline a replica that is PREPARED acknowledges ACTIVE; the last one makes the
  state stable.\<close>

lemma active_commits:
  assumes "gen_can_commit S now" and "7 \<le> io" and "7 \<le> io2" and "gs_Phase (st_state S) = PhaseCommitting"
    and "gs_Active (st_state S) = g" and "a \<in> set (gs_acks (st_state S))" and "ak_Stage a = AckPrepared"
    and "time_unix (time_utc now) < gs_CommitDeadline (st_state S)" and "gs_Revision (st_state S) + 2 \<noteq> 0"
  shows "\<exists>T. gen_Acknowledge io io2 S (gs_Revision (st_state S)) \<lparr>rr_ID = ak_ReplicaID a, rr_Role = ak_Role a\<rparr> g AckActive now = (None, T) \<and>
    gen_ready T \<and> gs_Active (st_state T) = g \<and> gs_replicas (st_state T) = gs_replicas (st_state S) \<and>
    gs_UpdatedAt (st_state T) = time_unix (time_utc now) \<and>
    (if \<forall>b \<in> set (gs_acks (st_state S)). b \<noteq> a \<longrightarrow> ak_Stage b = AckActive
     then gs_Phase (st_state T) = PhaseStable \<and> gs_Revision (st_state T) = gs_Revision (st_state S) + 2
     else gs_Phase (st_state T) = PhaseCommitting \<and> gs_CommitDeadline (st_state T) = gs_CommitDeadline (st_state S) \<and>
       gs_Revision (st_state T) = gs_Revision (st_state S) + 1 \<and>
       gs_acks (st_state T) = map (\<lambda>x. if x = a then x\<lparr>ak_Stage := AckActive, ak_AcknowledgedAt := time_unix (time_utc now)\<rparr> else x)
         (gs_acks (st_state S)))"
proof -
  have time: "gen_validTime now" and ready: "gen_ready S" using assms(1) by (simp_all add: gen_can_commit_def)
  note D = validateStateD [OF gen_readyD(1) [OF ready]] and typed = gen_readyD(2) [OF ready]
  from D(12) assms(4,5) have ph: "gs_Pending (st_state S) = Some g" "gs_PrepareDeadline (st_state S) = 0"
    "gs_DrainUntil (st_state S) = 0" "length (gs_acks (st_state S)) = length (gs_replicas (st_state S))"
    and match: "\<And>x. x \<in> set (gs_acks (st_state S)) \<Longrightarrow> ackMatches x g"
    by (auto simp: gen_phase_ok_def phase_defs sameGeneration_eq list_all_iff split: option.splits)
  let ?r = "\<lparr>rr_ID = ak_ReplicaID a, rr_Role = ak_Role a\<rparr>"
  define f where "f = (\<lambda>x :: acknowledgement. if x = a then x\<lparr>ak_Stage := AckActive, ak_AcknowledgedAt := time_unix (time_utc now)\<rparr> else x)"
  have f: "ak_ReplicaID (f x) = ak_ReplicaID x" "ak_Role (f x) = ak_Role x" "ackMatches (f x) g = ackMatches x g" for x
    by (simp_all add: f_def ackMatches_def)
  define acks where "acks = map f (gs_acks (st_state S))"
  have ids: "map ak_ReplicaID acks = map ak_ReplicaID (gs_acks (st_state S))" by (simp add: acks_def f)
  define n where "n = (nextLocked S now)\<lparr>gs_Acknowledgements := Some acks\<rparr>"
  have n: "gs_acks n = acks" "gs_replicas n = gs_replicas (st_state S)" "gs_Pending n = Some g"
    "gs_Active n = g" "gs_UpdatedAt n = time_unix (time_utc now)" "gs_Revision n = gs_Revision (st_state S) + 1"
    "gs_PreviousRecordSHA256 n = st_digest S" "gs_Schema n = gs_Schema (st_state S)" "gs_RecordHMACB64URL n = []"
    "gs_PrepareDeadline n = 0" "gs_DrainUntil n = 0" "gs_Phase n = PhaseCommitting"
    "gs_CommitDeadline n = gs_CommitDeadline (st_state S)"
    using assms(4,5) ph by (simp_all add: n_def)
  have sorted: "sort_key ak_ReplicaID acks = acks" by (rule sort_key_id_if_sorted) (use ids D(9) in simp)
  have r: "?r \<in> set (gs_replicas (st_state S))" by (rule ack_member [OF gen_readyD(1) [OF ready] assms(6)])
  have allowed: "containsReplica (gs_replicas (st_state S)) ?r" "gen_ack_allowed (st_state S) ?r g AckActive"
    using r assms(4,5,7) ph(1) ackStage_at [OF D(11) assms(6)]
    by (auto simp: containsReplica_def list_ex_iff gen_ack_allowed_def sameGeneration_eq stage_defs)
  have "ak_Stage a \<noteq> AckActive" using assms(7) by (simp add: stage_defs)
  from ack_update_change [OF D(11) assms(6) this, folded f_def]
  have upd: "ack_update (gs_acks (nextLocked S now)) (rr_ID ?r) AckActive (time_unix (time_utc now)) = Some (acks, True)"
    by (simp add: acks_def f_def)
  have not_prepared: "(AckActive = AckPrepared) = False" by (simp add: stage_defs)
  have eq: "gen_Acknowledge io io2 S (gs_Revision (st_state S)) ?r g AckActive now = (case commitLocked io S n of
      (Some e, S2) \<Rightarrow> (Some e, S2)
    | (None, S2) \<Rightarrow> if allAcknowledged (st_state S2) AckActive
        then commitLocked io2 S2 (makeStable (nextLocked S2 now)) else (None, S2))"
    unfolding gen_Acknowledge_def Let_def upd option.case prod.case not_prepared if_True sorted simp_thms if_False n_def
    using allowed time(1) by simp
  have ok: "gen_phase_ok n"
    using n ph(4) match assms(8) by (simp add: gen_phase_ok_def phase_defs sameGeneration_eq list_all_iff acks_def f)
  have gcommit: "gen_commits (commitLocked io S n) S n" and valid: "validateState n"
  proof -
    show valid: "validateState n"
    proof (rule next_valid [OF assms(1)])
      show "gen_ack_ok n [] x" if "x \<in> set (gs_acks n)" "x \<notin> set (gs_acks (st_state S))" for x
      proof -
        have "x = f a" using that unfolding n(1) acks_def by (auto simp: f_def split: if_splits)
        then show ?thesis
          using D(10) [OF assms(6)] n(2,5) time by (simp add: gen_ack_ok_def f_def gen_validTime_def Let_def)
      qed
    qed (use n D(4,9,11) ids ok assms(5) in simp_all)
    show "gen_commits (commitLocked io S n) S n"
    proof (rule commitLocked_commits [OF assms(1) valid _ _ assms(2)])
      have "state_typed n"
        by (rule state_typedI [OF valid]) (use n typed in \<open>simp_all add: state_typed_def in_int64_def\<close>)
      then show "gen_commit_ok now S n" using n assms(5) by (simp add: gen_commit_ok_def phase_defs)
      have "ack_changes (gs_acks (st_state S)) AckActive acks =
          Some (length (filter (\<lambda>a. a \<notin> set (gs_acks (st_state S))) acks))"
      proof (rule ack_changes_count [OF D(11)])
        fix x
        assume x: "x \<in> set acks" "x \<notin> set (gs_acks (st_state S))"
        then have xa: "x = f a" by (auto simp: acks_def f_def split: if_splits)
        have "old = a" if "old \<in> set (gs_acks (st_state S))" "ak_ReplicaID old = ak_ReplicaID a" for old
          using that assms(6) D(11) by (auto simp: distinct_map dest: inj_onD)
        then show "if ak_ReplicaID x \<in> ak_ReplicaID ` set (gs_acks (st_state S))
          then AckActive = AckActive \<and> ak_Stage x = AckActive \<and>
            (\<forall>old \<in> set (gs_acks (st_state S)). ak_ReplicaID old = ak_ReplicaID x \<longrightarrow> ak_Stage old = AckPrepared)
          else AckActive = AckPrepared \<and> ak_Stage x = AckPrepared"
          using xa assms(6,7) by (auto simp: f)  (simp_all add: f_def)
      qed
      moreover have "length (filter (\<lambda>a. a \<notin> set (gs_acks (st_state S))) acks) = 1"
      proof -
        have "f x \<notin> set (gs_acks (st_state S)) \<longleftrightarrow> x = a" if "x \<in> set (gs_acks (st_state S))" for x
        proof (cases "x = a")
          case True
          have "f a \<noteq> y" if "y \<in> set (gs_acks (st_state S))" for y
          proof
            assume "f a = y"
            then have "y = a" using that assms(6) D(11) f(1) [of a] by (auto simp: distinct_map dest: inj_onD)
            with \<open>f a = y\<close> have "ak_Stage (f a) = ak_Stage a" by simp
            then show False using assms(7) by (simp add: f_def stage_defs)
          qed
          with True show ?thesis by blast
        qed (use that in \<open>simp add: f_def\<close>)
        then have "filter (\<lambda>x. f x \<notin> set (gs_acks (st_state S))) (gs_acks (st_state S)) = filter (\<lambda>x. x = a) (gs_acks (st_state S))"
          by (rule filter_cong [OF refl])
        moreover have "card (set (filter (\<lambda>x. x = a) (gs_acks (st_state S)))) = 1"
          using assms(6) by (simp add: Collect_conv_if conj_commute)
        moreover have "distinct (filter (\<lambda>x. x = a) (gs_acks (st_state S)))" using D(11) by (simp add: distinct_map)
        ultimately show ?thesis using distinct_card [of "filter (\<lambda>x. x = a) (gs_acks (st_state S))"]
          by (simp add: acks_def filter_map comp_def)
      qed
      ultimately have "ackProgresses (gs_acks (st_state S)) acks AckActive" by (simp add: ackProgresses_def acks_def)
      moreover note first = next_transition [OF assms(1), of n]
      ultimately show "validateTransition (st_state S) n (st_digest S)"
        unfolding validateTransition_def
        using n assms(4,5) ph(1) by (simp add: sameGeneration_eq phase_defs)
    qed
  qed
  obtain res T where c: "commitLocked io S n = (res, T)" by fastforce
  note T = gen_commitsD [OF gcommit [unfolded c]]
  have members: "x \<in> set acks \<Longrightarrow> \<lparr>rr_ID = ak_ReplicaID x, rr_Role = ak_Role x\<rparr> \<in> set (gs_replicas n)" for x
    using ack_member [OF valid] n(1) by simp
  have "length (gs_acks n) = length (gs_replicas n)" using ph(4) n(1,2) by (simp add: acks_def)
  from full_ack_ids [OF valid this] have "allAcknowledged n AckActive \<longleftrightarrow> (\<forall>x \<in> set acks. ak_Stage x = AckActive)"
    by (subst all_acknowledged_iff) (use validateStateD [OF valid] n(1) members in simp_all)
  also have "\<dots> \<longleftrightarrow> (\<forall>b \<in> set (gs_acks (st_state S)). b \<noteq> a \<longrightarrow> ak_Stage b = AckActive)"
    by (auto simp: acks_def f_def split: if_splits)
  finally have all: "allAcknowledged (st_state T) AckActive \<longleftrightarrow> (\<forall>b \<in> set (gs_acks (st_state S)). b \<noteq> a \<longrightarrow> ak_Stage b = AckActive)"
    unfolding T(4) by (simp only: allAcknowledged_def state_sealed_simps)
  show ?thesis
  proof (cases "allAcknowledged (st_state T) AckActive")
    case True
    have can: "gen_can_commit T now"
      using T(2,4) n assms(9) time by (simp add: gen_can_commit_def state_sealed_simps add.assoc)
    have "gs_Phase (st_state T) = PhaseCommitting" using T(4) n by (simp add: state_sealed_simps)
    with stable_commits [OF can assms(3)] True
    have sc: "gen_commits (commitLocked io2 T (makeStable (nextLocked T now))) T (makeStable (nextLocked T now))" by blast
    obtain res' U where c': "commitLocked io2 T (makeStable (nextLocked T now)) = (res', U)" by fastforce
    note U = gen_commitsD [OF sc [unfolded c']]
    show ?thesis
      using eq c c' True all T(1,4) U n by (simp add: state_sealed_simps makeStable_def add.assoc)
  next
    case False
    then show ?thesis
      using eq c all T n by (auto simp: state_sealed_simps acks_def f_def)
  qed
qed

subsection \<open>A whole handoff\<close>

text \<open>Replicas acknowledge one after another, each with the revision it has read.\<close>

fun gen_acknowledge_all ::
  "gen_store \<Rightarrow> generation \<Rightarrow> string \<Rightarrow> (replica_ref \<times> go_time) list \<Rightarrow> gen_error option \<times> gen_store" where
  "gen_acknowledge_all S g stage [] = (None, S)"
| "gen_acknowledge_all S g stage ((r, now) # calls) =
     (case gen_Acknowledge 7 7 S (gs_Revision (st_state S)) r g stage now of
        (Some e, T) \<Rightarrow> (Some e, T)
      | (None, T) \<Rightarrow> gen_acknowledge_all T g stage calls)"

text \<open>The calls are of different replicas, at valid times that do not run backwards from \<open>start\<close> and are
  before the deadline.\<close>

definition gen_calls_ok :: "int \<Rightarrow> int \<Rightarrow> (replica_ref \<times> go_time) list \<Rightarrow> bool" where
  "gen_calls_ok start deadline calls \<longleftrightarrow> distinct (map fst calls) \<and>
     sorted (start # map (\<lambda>(r, now). time_unix (time_utc now)) calls) \<and>
     (\<forall>(r, now) \<in> set calls. gen_validTime now \<and> time_unix (time_utc now) < deadline)"

lemma unat_next:
  assumes "unat (r :: 64 word) + k < 2 ^ 64"
  shows "unat (r + word_of_nat k) = unat r + k" and "0 < k \<Longrightarrow> r + word_of_nat k \<noteq> 0"
proof -
  have "unat (word_of_nat k :: 64 word) = k" using assms by (simp add: unsigned_of_nat take_bit_eq_mod)
  then show u: "unat (r + word_of_nat k) = unat r + k" using assms by (simp add: unat_word_ariths)
  show "r + word_of_nat k \<noteq> 0" if "0 < k"
  proof
    assume "r + word_of_nat k = 0"
    then have "unat (r + word_of_nat k) = 0" by simp
    with u that show False by simp
  qed
qed

lemma replica_id_inj:
  assumes "validateState s" and "r \<in> set (gs_replicas s)" and "q \<in> set (gs_replicas s)" and "rr_ID r = rr_ID q"
  shows "r = q"
  using gen_validReplicasD(3) [OF validateStateD(5) [OF assms(1)]] assms(2-4) by (auto simp: distinct_map dest: inj_onD)

lemma prepared_run:
  assumes "gen_ready S" and "gs_Phase (st_state S) = PhasePreparing" and "gs_Pending (st_state S) = Some g"
    and "gen_calls_ok (gs_UpdatedAt (st_state S)) (gs_PrepareDeadline (st_state S)) calls" and "calls \<noteq> []"
    and "fst ` set calls = {r \<in> set (gs_replicas (st_state S)). rr_ID r \<notin> ak_ReplicaID ` set (gs_acks (st_state S))}"
    and "unat (gs_Revision (st_state S)) + length calls < 2 ^ 64"
  shows "\<exists>T. gen_acknowledge_all S g AckPrepared calls = (None, T) \<and> gen_ready T \<and> gs_Phase (st_state T) = PhaseDraining \<and>
    gs_Pending (st_state T) = Some g \<and> gs_replicas (st_state T) = gs_replicas (st_state S) \<and>
    (\<forall>a \<in> set (gs_acks (st_state T)). ackMatches a g) \<and> st_drainStarted T = snd (last calls) \<and>
    gs_UpdatedAt (st_state T) = time_unix (time_utc (snd (last calls))) \<and>
    gs_DrainUntil (st_state T) = time_unix (time_utc (snd (last calls))) + 10 \<and>
    gs_CommitDeadline (st_state T) = gs_CommitDeadline (st_state S) \<and>
    unat (gs_Revision (st_state T)) = unat (gs_Revision (st_state S)) + length calls"
  using assms
proof (induction calls arbitrary: S)
  case (Cons c calls)
  obtain r now where c: "c = (r, now)" by fastforce
  note prems = Cons.prems [unfolded c] and IH = Cons.IH
  have now: "gen_validTime now" "time_unix (time_utc now) < gs_PrepareDeadline (st_state S)"
    "gs_UpdatedAt (st_state S) \<le> time_unix (time_utc now)"
    using prems(4) by (simp_all add: gen_calls_ok_def)
  have rev: "gs_Revision (st_state S) + 1 \<noteq> 0" using unat_next(2) [of "gs_Revision (st_state S)" 1] prems(7) by simp
  have can: "gen_can_commit S now" using prems(1) now rev by (simp add: gen_can_commit_def)
  have r: "r \<in> set (gs_replicas (st_state S))" "rr_ID r \<notin> ak_ReplicaID ` set (gs_acks (st_state S))"
    using prems(6) by auto
  from prepared_commits [OF can _ prems(2,3) r now(2), of 7 7]
  obtain T where ack: "gen_Acknowledge 7 7 S (gs_Revision (st_state S)) r g AckPrepared now = (None, T)" and
    T: "gen_ready T" "gs_Pending (st_state T) = Some g" "gs_replicas (st_state T) = gs_replicas (st_state S)"
    "gs_UpdatedAt (st_state T) = time_unix (time_utc now)" "gs_CommitDeadline (st_state T) = gs_CommitDeadline (st_state S)"
    "gs_Revision (st_state T) = gs_Revision (st_state S) + 1"
    "ak_ReplicaID ` set (gs_acks (st_state T)) = insert (rr_ID r) (ak_ReplicaID ` set (gs_acks (st_state S)))"
    "\<forall>a \<in> set (gs_acks (st_state T)). ackMatches a g"
    and phase: "if ak_ReplicaID ` set (gs_acks (st_state T)) = rr_ID ` set (gs_replicas (st_state S))
     then gs_Phase (st_state T) = PhaseDraining \<and> st_drainStarted T = now \<and>
       gs_DrainUntil (st_state T) = time_unix (time_utc now) + 10
     else gs_Phase (st_state T) = PhasePreparing \<and> gs_PrepareDeadline (st_state T) = gs_PrepareDeadline (st_state S)"
    by auto
  have unat: "unat (gs_Revision (st_state T)) = unat (gs_Revision (st_state S)) + 1"
    using unat_next(1) [of "gs_Revision (st_state S)" 1] prems(7) T(6) by simp
  have rest: "fst ` set calls = {q \<in> set (gs_replicas (st_state T)). rr_ID q \<notin> ak_ReplicaID ` set (gs_acks (st_state T))}"
  proof -
    have "fst ` set calls = fst ` set (c # calls) - {r}" using prems(4) c by (auto simp: gen_calls_ok_def image_iff)
    also have "\<dots> = {q \<in> set (gs_replicas (st_state T)). rr_ID q \<notin> ak_ReplicaID ` set (gs_acks (st_state T))}"
      unfolding Cons.prems(6) T(3,7) using replica_id_inj [OF gen_readyD(1) [OF prems(1)] _ r(1)] by auto
    finally show ?thesis .
  qed
  have ids: "ak_ReplicaID ` set (gs_acks (st_state T)) \<subseteq> rr_ID ` set (gs_replicas (st_state T))"
  proof
    fix i
    assume "i \<in> ak_ReplicaID ` set (gs_acks (st_state T))"
    then obtain a where "a \<in> set (gs_acks (st_state T))" "i = ak_ReplicaID a" by blast
    with ack_member [OF gen_readyD(1) [OF T(1)], of a] show "i \<in> rr_ID ` set (gs_replicas (st_state T))"
      by (metis imageI replica_ref.select_convs(1))
  qed
  show ?case
  proof (cases calls)
    case Nil
    then have "ak_ReplicaID ` set (gs_acks (st_state T)) = rr_ID ` set (gs_replicas (st_state S))"
      using rest ids T(3) by auto
    with phase T ack Nil c unat show ?thesis by simp
  next
    case (Cons d more)
    then have "fst d \<in> {q \<in> set (gs_replicas (st_state T)). rr_ID q \<notin> ak_ReplicaID ` set (gs_acks (st_state T))}"
      using rest by auto
    then have "ak_ReplicaID ` set (gs_acks (st_state T)) \<noteq> rr_ID ` set (gs_replicas (st_state S))" using T(3) by auto
    with phase have p: "gs_Phase (st_state T) = PhasePreparing" "gs_PrepareDeadline (st_state T) = gs_PrepareDeadline (st_state S)"
      by simp_all
    have calls: "gen_calls_ok (gs_UpdatedAt (st_state T)) (gs_PrepareDeadline (st_state T)) calls"
      using prems(4) p(2) T(4) by (simp add: gen_calls_ok_def)
    have ne: "calls \<noteq> []" using Cons by simp
    from IH [OF T(1) p(1) T(2) calls ne rest] prems(7) unat ack c T(3,5) ne show ?thesis by auto
  qed
qed simp

lemma ackStage_map:
  assumes "distinct (map ak_ReplicaID acks)" and "a \<in> set acks"
  shows "ackStage (map (\<lambda>x. if x = a then x\<lparr>ak_Stage := stage, ak_AcknowledgedAt := at\<rparr> else x) acks) i =
    (if i = ak_ReplicaID a then stage else ackStage acks i)"
  using assms
proof (induction acks)
  case (Cons b acks)
  show ?case
  proof (cases "b = a")
    case True
    then have "a \<notin> set acks" using Cons.prems(1) by auto
    then have "map (\<lambda>x. if x = a then x\<lparr>ak_Stage := stage, ak_AcknowledgedAt := at\<rparr> else x) acks = acks"
      by (induction acks) auto
    then show ?thesis using True by auto
  next
    case False
    then have "a \<in> set acks" using Cons.prems(2) by simp
    moreover from this have "ak_ReplicaID b \<noteq> ak_ReplicaID a" using Cons.prems(1) by auto
    ultimately show ?thesis using Cons False by auto
  qed
qed simp

lemma committing_ack:
  assumes "validateState s" and "gs_Phase s = PhaseCommitting" and "r \<in> set (gs_replicas s)"
  obtains a where "a \<in> set (gs_acks s)" and "\<lparr>rr_ID = ak_ReplicaID a, rr_Role = ak_Role a\<rparr> = r"
    and "ackStage (gs_acks s) (rr_ID r) = ak_Stage a"
proof -
  have "length (gs_acks s) = length (gs_replicas s)"
    using validateStateD(12) [OF assms(1)] assms(2) by (simp add: gen_phase_ok_def phase_defs)
  from full_ack_ids [OF assms(1) this] assms(3) obtain a where a: "a \<in> set (gs_acks s)" "ak_ReplicaID a = rr_ID r"
    by (metis imageE imageI)
  have "\<lparr>rr_ID = ak_ReplicaID a, rr_Role = ak_Role a\<rparr> = r"
    by (rule replica_id_inj [OF assms(1) ack_member [OF assms(1) a(1)] assms(3)]) (simp add: a(2))
  with a ackStage_at [OF validateStateD(11) [OF assms(1)] a(1)] show thesis using that by metis
qed

lemma active_run:
  assumes "gen_ready S" and "gs_Phase (st_state S) = PhaseCommitting" and "gs_Active (st_state S) = g"
    and "gen_calls_ok (gs_UpdatedAt (st_state S)) (gs_CommitDeadline (st_state S)) calls" and "calls \<noteq> []"
    and "fst ` set calls = {r \<in> set (gs_replicas (st_state S)). ackStage (gs_acks (st_state S)) (rr_ID r) = AckPrepared}"
    and "unat (gs_Revision (st_state S)) + length calls + 1 < 2 ^ 64"
  shows "\<exists>T. gen_acknowledge_all S g AckActive calls = (None, T) \<and> gen_ready T \<and> gs_Phase (st_state T) = PhaseStable \<and>
    gs_Active (st_state T) = g"
  using assms
proof (induction calls arbitrary: S)
  case (Cons c calls)
  obtain r now where c: "c = (r, now)" by fastforce
  note prems = Cons.prems [unfolded c] and IH = Cons.IH
  note valid = gen_readyD(1) [OF prems(1)]
  note D = validateStateD [OF valid]
  have now: "gen_validTime now" "time_unix (time_utc now) < gs_CommitDeadline (st_state S)"
    "gs_UpdatedAt (st_state S) \<le> time_unix (time_utc now)"
    using prems(4) by (simp_all add: gen_calls_ok_def)
  have rev: "gs_Revision (st_state S) + 1 \<noteq> 0" "gs_Revision (st_state S) + 2 \<noteq> 0"
    using unat_next(2) [of "gs_Revision (st_state S)" 1] unat_next(2) [of "gs_Revision (st_state S)" 2] prems(7) by simp_all
  have can: "gen_can_commit S now" using prems(1) now rev by (simp add: gen_can_commit_def)
  have r: "r \<in> set (gs_replicas (st_state S))" "ackStage (gs_acks (st_state S)) (rr_ID r) = AckPrepared"
    using prems(6) by auto
  from committing_ack [OF valid prems(2) r(1)] r(2) obtain a where a: "a \<in> set (gs_acks (st_state S))"
    "\<lparr>rr_ID = ak_ReplicaID a, rr_Role = ak_Role a\<rparr> = r" "ak_Stage a = AckPrepared" by metis
  have id: "ak_ReplicaID a = rr_ID r" using a(2) by (metis replica_ref.select_convs(1))
  let ?all = "\<forall>b \<in> set (gs_acks (st_state S)). b \<noteq> a \<longrightarrow> ak_Stage b = AckActive"
  let ?acks = "map (\<lambda>x. if x = a then x\<lparr>ak_Stage := AckActive, ak_AcknowledgedAt := time_unix (time_utc now)\<rparr> else x) (gs_acks (st_state S))"
  from active_commits [OF can _ _ prems(2,3) a(1,3) now(2) rev(2), of 7 7, unfolded a(2)]
  obtain T where ack: "gen_Acknowledge 7 7 S (gs_Revision (st_state S)) r g AckActive now = (None, T)" and
    T: "gen_ready T" "gs_Active (st_state T) = g" "gs_replicas (st_state T) = gs_replicas (st_state S)"
    "gs_UpdatedAt (st_state T) = time_unix (time_utc now)"
    and phase: "if ?all then gs_Phase (st_state T) = PhaseStable \<and> gs_Revision (st_state T) = gs_Revision (st_state S) + 2
     else gs_Phase (st_state T) = PhaseCommitting \<and> gs_CommitDeadline (st_state T) = gs_CommitDeadline (st_state S) \<and>
       gs_Revision (st_state T) = gs_Revision (st_state S) + 1 \<and> gs_acks (st_state T) = ?acks"
    by auto
  have all_iff: "?all \<longleftrightarrow> calls = []"
  proof
    assume all: ?all
    show "calls = []"
    proof (rule ccontr)
      assume "calls \<noteq> []"
      then obtain q t more where q: "calls = (q, t) # more" by (cases calls) auto
      then have "q \<noteq> r" "q \<in> set (gs_replicas (st_state S))" "ackStage (gs_acks (st_state S)) (rr_ID q) = AckPrepared"
        using prems(4,6) by (auto simp: gen_calls_ok_def)
      with committing_ack [OF valid prems(2), of q] obtain b where b: "b \<in> set (gs_acks (st_state S))"
        "\<lparr>rr_ID = ak_ReplicaID b, rr_Role = ak_Role b\<rparr> = q" "ak_Stage b = AckPrepared" by metis
      then have "b \<noteq> a" using a(2) \<open>q \<noteq> r\<close> by auto
      with all b(1,3) show False by (auto simp: stage_defs)
    qed
  next
    assume nil: "calls = []"
    show ?all
    proof (intro ballI impI)
      fix b
      assume b: "b \<in> set (gs_acks (st_state S))" "b \<noteq> a"
      show "ak_Stage b = AckActive"
      proof (rule ccontr)
        assume "ak_Stage b \<noteq> AckActive"
        then have "ak_Stage b = AckPrepared" using D(10) [OF b(1)] by (auto simp: gen_ack_ok_def)
        then have "\<lparr>rr_ID = ak_ReplicaID b, rr_Role = ak_Role b\<rparr> \<in>
            {r \<in> set (gs_replicas (st_state S)). ackStage (gs_acks (st_state S)) (rr_ID r) = AckPrepared}"
          using ack_member [OF valid b(1)] ackStage_at [OF D(11) b(1)] by simp
        then have "\<lparr>rr_ID = ak_ReplicaID b, rr_Role = ak_Role b\<rparr> = r"
          unfolding prems(6) [symmetric] nil by simp
        then have "ak_ReplicaID b = ak_ReplicaID a" using id by (metis replica_ref.select_convs(1))
        then show False using b a(1) D(11) by (auto simp: distinct_map dest: inj_onD)
      qed
    qed
  qed
  show ?case
  proof (cases "calls = []")
    case True
    with phase all_iff T ack c show ?thesis by simp
  next
    case ne: False
    then have p: "gs_Phase (st_state T) = PhaseCommitting" "gs_CommitDeadline (st_state T) = gs_CommitDeadline (st_state S)"
      "gs_Revision (st_state T) = gs_Revision (st_state S) + 1" "gs_acks (st_state T) = ?acks"
      using phase all_iff by auto
    have unat: "unat (gs_Revision (st_state T)) = unat (gs_Revision (st_state S)) + 1"
      using unat_next(1) [of "gs_Revision (st_state S)" 1] prems(7) p(3) by simp
    have calls: "gen_calls_ok (gs_UpdatedAt (st_state T)) (gs_CommitDeadline (st_state T)) calls"
      using prems(4) p(2) T(4) by (simp add: gen_calls_ok_def)
    have "fst ` set calls = fst ` set (c # calls) - {r}" using prems(4) c by (auto simp: gen_calls_ok_def image_iff)
    also have "\<dots> = {q \<in> set (gs_replicas (st_state T)). ackStage (gs_acks (st_state T)) (rr_ID q) = AckPrepared}"
      unfolding Cons.prems(6) T(3) p(4) ackStage_map [OF D(11) a(1)] id
      using replica_id_inj [OF valid _ r(1)] by (auto simp: stage_defs)
    finally have rest: "fst ` set calls = {q \<in> set (gs_replicas (st_state T)). ackStage (gs_acks (st_state T)) (rr_ID q) = AckPrepared}" .
    have "unat (gs_Revision (st_state T)) + length calls + 1 < 2 ^ 64" using prems(7) unat by simp
    from IH [OF T(1) p(1) T(2) calls ne rest this] ack c show ?thesis by simp
  qed
qed simp

subsection \<open>A new store\<close>

lemma gen_replicas_loop_iff:
  "gen_replicas_loop vs seen cp fo \<longleftrightarrow>
   (\<forall>v \<in> set vs. ValidIdentifier (rr_ID v) 64 \<and> (rr_Role v = ''controlplane'' \<or> rr_Role v = ''firmwareorigin'')) \<and>
   distinct (map rr_ID vs) \<and> rr_ID ` set vs \<inter> set seen = {} \<and>
   (0 < cp \<or> (\<exists>v \<in> set vs. rr_Role v = ''controlplane'')) \<and> (0 < fo \<or> (\<exists>v \<in> set vs. rr_Role v = ''firmwareorigin''))"
  by (induction vs arbitrary: seen cp fo) auto

lemma gen_validReplicas_sort: "gen_validReplicas rs \<Longrightarrow> gen_validReplicas (sortReplicas rs)"
proof -
  have "mset (map rr_ID (sortReplicas rs)) = mset (map rr_ID rs)" by (simp only: sortReplicas_def mset_map mset_sort)
  then have "distinct (map rr_ID (sortReplicas rs)) \<longleftrightarrow> distinct (map rr_ID rs)" by (rule mset_eq_imp_distinct_iff)
  then show "gen_validReplicas rs \<Longrightarrow> gen_validReplicas (sortReplicas rs)"
    by (auto simp: gen_validReplicas_def gen_replicas_loop_iff sortReplicas_def split: if_splits)
qed

lemma gen_InitializeStore_ok:
  assumes "32 \<le> length key" and "length key \<le> 128" and "validGeneration initial" and "gen_validReplicas replicas"
    and "gen_validTime now" and "7 \<le> io"
  shows "\<exists>S. gen_InitializeStore io key initial replicas now = Inr S \<and> gen_init S \<and> gen_ready S \<and>
    gs_Phase (st_state S) = PhaseStable \<and> gs_Active (st_state S) = initial \<and>
    gs_replicas (st_state S) = sortReplicas replicas \<and> gs_Revision (st_state S) = 1 \<and>
    gs_UpdatedAt (st_state S) = time_unix (time_utc now)"
proof -
  define store where "store = \<lparr>st_key = key, st_state = state_zero, st_digest = [], st_drainStarted = time_zero, st_disk = []\<rparr>"
  define s where "s = state_zero\<lparr>gs_Schema := 1, gs_Revision := 1, gs_PreviousRecordSHA256 := zeroDigest,
    gs_Phase := PhaseStable, gs_Active := initial, gs_RequiredReplicas := Some (sortReplicas replicas),
    gs_Acknowledgements := Some [], gs_UpdatedAt := time_unix (time_utc now)\<rparr>"
  have zero: "gen_validSHA256 zeroDigest" by code_simp
  have valid: "validateState s"
    using assms(3,5) gen_validReplicas_sort [OF assms(4)] zero
    by (simp add: validateState_def s_def state_zero_def gen_hmac_field_ok_def gen_phase_ok_def gen_validTime_def Let_def)
      (simp add: sortReplicas_def)
  obtain res S where c: "commitLocked io store s = (res, S)" by fastforce
  have io: "io \<noteq> 0" "io \<noteq> 1" "io \<noteq> 2" "io \<noteq> 3" "io - 4 \<noteq> 0" "io - 4 \<noteq> 1" "io - 4 \<noteq> 2" using assms(6) by auto
  have res: "res = None" and temp: "\<forall>name \<in> fst ` set (st_disk S). \<not> is_temp_name name"
    using c [symmetric] io valid
    by (auto simp: commitLocked_def writeCurrentLocked_def Let_def store_def state_zero_def update_conv' keys_update keys_delete
        temp_names [symmetric])
  have eq: "gen_InitializeStore io key initial replicas now = Inr S"
    using c res assms(1-5) by (simp add: gen_InitializeStore_def Let_def store_def s_def)
  from gen_InitializeStore_at [OF eq] obtain x where "gen_at [x] 0 S" by blast
  then have "gen_waiting (st_state S) S" by (auto simp: gen_waiting_def intro!: exI [of _ "[x]"])
  moreover have "st_state S = state_sealed key s" using commitLocked_ok(1) [of io store s S] c res by (simp add: store_def)
  ultimately show ?thesis
    using eq temp by (intro exI [of _ S]) (simp add: gen_ready_def state_sealed_simps gen_init_def s_def, blast)
qed

end
