(* ===== verification/Generation.thy ===== *)
theory Generation
  imports GenProgress
begin

text \<open>
  The properties of the generation coordinator's store (\<^verbatim>\<open>internal/generation/state.go\<close>): it refines an
  append-only log, survives a crash at every file operation, activates a generation only after every
  replica is prepared and the drain is over, and completes a handoff whose replicas answer in time. After
  the commit deadline, however, no call leaves COMMITTING.
\<close>

section \<open>An example\<close>

text \<open>A coordinator with one replica of each role, on which the properties are instantiated.\<close>

definition ex_key :: "byte list" where "ex_key = replicate 32 7"
definition ex_gen1 :: generation where "ex_gen1 = \<lparr>gn_ID = ''gen-1'', gn_Sequence = 1, gn_ReceiptSHA256 = replicate 64 (CHR ''a'')\<rparr>"
definition ex_gen2 :: generation where "ex_gen2 = \<lparr>gn_ID = ''gen-2'', gn_Sequence = 2, gn_ReceiptSHA256 = replicate 64 (CHR ''b'')\<rparr>"
definition ex_cp :: replica_ref where "ex_cp = \<lparr>rr_ID = ''cp-1'', rr_Role = ''controlplane''\<rparr>"
definition ex_fo :: replica_ref where "ex_fo = \<lparr>rr_ID = ''fo-1'', rr_Role = ''firmwareorigin''\<rparr>"

definition ex_time :: "int \<Rightarrow> go_time" where
  "ex_time k = \<lparr>wall = (62135596800 + 1700000000 + k) * second, mono = Some (k * second)\<rparr>"

section \<open>Lemmas\<close>

lemma gen_steps_wf: "gen_init S \<Longrightarrow> gen_any_step\<^sup>*\<^sup>* S T \<Longrightarrow> gen_wf T"
  by (rule gl.reachable_inv)

lemma acknowledge_all_steps: "gen_acknowledge_all S g stage calls = (e, T) \<Longrightarrow> gen_any_step\<^sup>*\<^sup>* S T"
proof (induction calls arbitrary: S)
  case (Cons c calls)
  obtain r now where c: "c = (r, now)" by fastforce
  let ?a = "gen_Acknowledge 7 7 S (gs_Revision (st_state S)) r g stage now"
  have step: "gen_any_step S (snd ?a)" by (auto simp: gen_any_step_def intro: gen_step.acknowledge)
  obtain e' U where a: "?a = (e', U)" by fastforce
  show ?case
  proof (cases e')
    case None
    with Cons.prems a c have "gen_acknowledge_all U g stage calls = (e, T)" by simp
    from Cons.IH [OF this] step a show ?thesis by simp
  next
    case (Some x)
    with Cons.prems a c step show ?thesis by auto
  qed
qed auto

lemma gen_readyI:
  assumes "gen_init S0" and "gen_any_step\<^sup>*\<^sup>* S0 S"
    and "map_of (st_disk S) (stateFileName (gs_Revision (st_state S) + 1)) = None"
    and "\<forall>name \<in> fst ` set (st_disk S). \<not> is_temp_name name"
  shows "gen_ready S"
  using gen_waitingI [OF gen_steps_wf [OF assms(1,2)] assms(3)] assms(4) by (simp add: gen_ready_def)

lemma last_call:
  assumes "gen_calls_ok start deadline calls" and "calls \<noteq> []"
  shows "gen_validTime (snd (last calls))" and "\<not> time_is_zero (snd (last calls))"
    and "start \<le> time_unix (time_utc (snd (last calls)))" and "time_unix (time_utc (snd (last calls))) < deadline"
proof -
  have "last calls \<in> set calls" using assms(2) by simp
  then have "(fst (last calls), snd (last calls)) \<in> set calls" by simp
  with assms(1) show v: "gen_validTime (snd (last calls))" and "start \<le> time_unix (time_utc (snd (last calls)))"
    and "time_unix (time_utc (snd (last calls))) < deadline"
    by (fastforce simp: gen_calls_ok_def)+
  from v show "\<not> time_is_zero (snd (last calls))"
    by (auto simp: gen_validTime_def Let_def time_defs unix_of_wall_def)
qed

lemma allAcknowledged_stage:
  assumes "allAcknowledged s stage" and "a \<in> set (gs_acks s)"
  shows "ak_Stage a = stage"
proof -
  have "list_all2 (\<lambda>r a. ak_Stage a = stage) (gs_replicas s) (gs_acks s)"
    using assms(1) by (auto simp: allAcknowledged_def list_all2_iff list_all_iff split: if_splits prod.splits)
  then have "\<forall>a \<in> set (gs_acks s). ak_Stage a = stage" by (induction rule: list_all2_induct) simp_all
  with assms(2) show ?thesis by blast
qed

text \<open>The first half of a handoff.\<close>

lemma handoff_to_commit:
  assumes "gen_ready S" and "gs_Phase (st_state S) = PhaseStable" and "unat (gs_Revision (st_state S)) + 200 < 2 ^ 64"
    and "validGeneration p" and "gn_Sequence p = gn_Sequence (gs_Active (st_state S)) + 1"
    and "gn_ID p \<noteq> gn_ID (gs_Active (st_state S))"
    and "30 * second \<le> pt" "pt \<le> 24 * hour" "30 * second \<le> ct" "ct \<le> 24 * hour"
    and "gen_validTime t" and "gs_UpdatedAt (st_state S) \<le> time_unix (time_utc t)"
    and "gen_calls_ok (time_unix (time_utc t)) (time_unix (time_add (time_utc t) pt)) calls"
    and "fst ` set calls = set (gs_replicas (st_state S))"
    and "gen_validTime u" and "time_unix (time_utc (snd (last calls))) + 10 \<le> time_unix (time_utc u)"
    and "DrainDuration \<le> time_sub u (snd (last calls))"
  shows "\<exists>S1 S2 S3. gen_Publish 7 S (gs_Revision (st_state S)) (gs_Active (st_state S)) p pt ct t = (None, S1) \<and>
    gen_acknowledge_all S1 p AckPrepared calls = (None, S2) \<and> gs_Active (st_state S2) \<noteq> p \<and>
    gen_Advance 7 S2 u = (None, S3) \<and> gen_ready S3 \<and>
    gs_Phase (st_state S3) = PhaseCommitting \<and> gs_Active (st_state S3) = p \<and>
    gs_replicas (st_state S3) = gs_replicas (st_state S) \<and>
    (\<forall>r \<in> set (gs_replicas (st_state S)). ackStage (gs_acks (st_state S3)) (rr_ID r) = AckPrepared) \<and>
    gs_UpdatedAt (st_state S3) = time_unix (time_utc u) \<and>
    gs_CommitDeadline (st_state S3) = time_unix (time_utc u) + ct sdiv second \<and>
    unat (gs_Revision (st_state S3)) + 100 < 2 ^ 64"
proof -
  note replicas = gen_validReplicasD(1,2) [OF validateStateD(5) [OF gen_readyD(1) [OF assms(1)]]]
  have len: "length calls \<le> 64" "calls \<noteq> []"
  proof -
    have d: "distinct (map fst calls)" using assms(13) by (simp add: gen_calls_ok_def)
    have "length calls = card (set (map fst calls))" using distinct_card [OF d] by simp
    also have "\<dots> \<le> length (gs_replicas (st_state S))" using assms(14) card_length by simp
    finally show "length calls \<le> 64" using replicas(2) by simp
    show "calls \<noteq> []" using assms(14) replicas(1) by auto
  qed
  have "gs_Revision (st_state S) + 1 \<noteq> 0" using unat_next(2) [of "gs_Revision (st_state S)" 1] assms(3) by simp
  then have can: "gen_can_commit S t" using assms(1,11,12) by (simp add: gen_can_commit_def)
  from publish_commits [OF can _ assms(2,4-10), of 7] obtain S1 where
    pub: "gen_Publish 7 S (gs_Revision (st_state S)) (gs_Active (st_state S)) p pt ct t = (None, S1)" and
    S1: "gen_ready S1" "gs_Phase (st_state S1) = PhasePreparing" "gs_Pending (st_state S1) = Some p" "gs_acks (st_state S1) = []"
    "gs_replicas (st_state S1) = gs_replicas (st_state S)" "gs_UpdatedAt (st_state S1) = time_unix (time_utc t)"
    "gs_PrepareDeadline (st_state S1) = time_unix (time_add (time_utc t) pt)"
    "gs_CommitDeadline (st_state S1) = ct sdiv second" "gs_Revision (st_state S1) = gs_Revision (st_state S) + 1"
    by auto
  have rev1: "unat (gs_Revision (st_state S1)) = unat (gs_Revision (st_state S)) + 1"
    using unat_next(1) [of "gs_Revision (st_state S)" 1] assms(3) S1(9) by simp
  from prepared_run [OF S1(1-3), of calls] assms(3,13,14) len S1(4-7) rev1 obtain S2 where
    run: "gen_acknowledge_all S1 p AckPrepared calls = (None, S2)" and
    S2: "gen_ready S2" "gs_Phase (st_state S2) = PhaseDraining" "gs_Pending (st_state S2) = Some p"
    "gs_replicas (st_state S2) = gs_replicas (st_state S)" "\<forall>a \<in> set (gs_acks (st_state S2)). ackMatches a p"
    "st_drainStarted S2 = snd (last calls)" "gs_UpdatedAt (st_state S2) = time_unix (time_utc (snd (last calls)))"
    "gs_DrainUntil (st_state S2) = time_unix (time_utc (snd (last calls))) + 10"
    "gs_CommitDeadline (st_state S2) = ct sdiv second"
    "unat (gs_Revision (st_state S2)) = unat (gs_Revision (st_state S)) + 1 + length calls"
    using S1(8) by auto
  have rev2: "gs_Revision (st_state S2) + 1 \<noteq> 0" "unat (gs_Revision (st_state S2) + 1) = unat (gs_Revision (st_state S2)) + 1"
    using unat_next [of "gs_Revision (st_state S2)" 1] assms(3) S2(10) len(1) by simp_all
  have can2: "gen_can_commit S2 u" using S2(1,7) assms(15,16) rev2 by (simp add: gen_can_commit_def)
  have ct: "ct sdiv second \<le> 86400" using zdiv_mono1 [OF assms(10), of second] assms(9) by (simp add: sdiv_nonneg)
  from advance_commits [OF can2 _ S2(2,3), of 7] last_call(2) [OF assms(13) len(2)] S2 ct assms(16,17) obtain S3 where
    adv: "gen_Advance 7 S2 u = (None, S3)" and
    S3: "gen_ready S3" "gs_Phase (st_state S3) = PhaseCommitting" "gs_Active (st_state S3) = p"
    "gs_acks (st_state S3) = gs_acks (st_state S2)" "gs_replicas (st_state S3) = gs_replicas (st_state S)"
    "gs_UpdatedAt (st_state S3) = time_unix (time_utc u)" "gs_Revision (st_state S3) = gs_Revision (st_state S2) + 1"
    "gs_CommitDeadline (st_state S3) = time_unix (time_utc u) + ct sdiv second"
    by auto
  have "ackStage (gs_acks (st_state S3)) (rr_ID r) = AckPrepared" if "r \<in> set (gs_replicas (st_state S))" for r
  proof -
    from committing_ack [OF gen_readyD(1) [OF S3(1)] S3(2), of r] that S3(5) obtain a where
      a: "a \<in> set (gs_acks (st_state S3))" "ackStage (gs_acks (st_state S3)) (rr_ID r) = ak_Stage a" by metis
    have "allAcknowledged (st_state S2) AckPrepared"
      using validateStateD(12) [OF gen_readyD(1) [OF S2(1)]] S2(2) by (simp add: gen_phase_ok_def phase_defs)
    from allAcknowledged_stage [OF this, of a] a S3(4) show ?thesis by simp
  qed
  moreover have "gs_Active (st_state S2) \<noteq> p"
    using validateStateD(12) [OF gen_readyD(1) [OF S2(1)]] S2(2,3) by (auto simp: gen_phase_ok_def phase_defs gen_validPending_def)
  ultimately show ?thesis using pub run adv S3 rev2 S2(10) len(1) assms(3) by (intro exI [of _ S1] exI [of _ S2] exI [of _ S3]) simp
qed

lemma ex_facts:
  "32 \<le> length ex_key" "length ex_key \<le> 128" "validGeneration ex_gen1" "validGeneration ex_gen2"
  "gen_validReplicas [ex_fo, ex_cp]" "sortReplicas [ex_fo, ex_cp] = [ex_cp, ex_fo]"
  "gn_Sequence ex_gen2 = gn_Sequence ex_gen1 + 1" "gn_ID ex_gen2 \<noteq> gn_ID ex_gen1"
  "gen_validTime (ex_time 0)" "gen_validTime (ex_time 1)" "gen_validTime (ex_time 2)" "gen_validTime (ex_time 20)"
  "gen_validTime (ex_time 21)" "gen_validTime (ex_time 22)"
  by code_simp+

lemma ex_unix: "time_unix (time_utc (ex_time k)) = 1700000000 + k"
  by (simp add: ex_time_def time_defs unix_of_wall_def)

lemma ex_sub: "time_sub (ex_time 20) (ex_time 2) = 18 * second"
  by code_simp

lemma ex_calls:
  "gen_calls_ok 1700000001 (time_unix (time_add (time_utc (ex_time 1)) (60 * second))) [(ex_cp, ex_time 1), (ex_fo, ex_time 2)]"
  "gen_calls_ok 1700000020 1700000080 [(ex_fo, ex_time 21), (ex_cp, ex_time 22)]"
  by code_simp+

lemma ex_store:
  "\<exists>S. gen_InitializeStore 7 ex_key ex_gen1 [ex_fo, ex_cp] (ex_time 0) = Inr S \<and> gen_init S \<and> gen_ready S \<and>
    gs_Phase (st_state S) = PhaseStable \<and> gs_Active (st_state S) = ex_gen1 \<and> gs_replicas (st_state S) = [ex_cp, ex_fo] \<and>
    gs_Revision (st_state S) = 1 \<and> gs_UpdatedAt (st_state S) = 1700000000"
  using gen_InitializeStore_ok [OF ex_facts(1-3,5,9), of 7] by (simp add: ex_facts ex_unix)

text \<open>The example reaches COMMITTING at second 20.\<close>

lemma ex_committing:
  "\<exists>S0 S2 S. gen_init S0 \<and> gen_any_step\<^sup>*\<^sup>* S0 S2 \<and> gen_Advance 7 S2 (ex_time 20) = (None, S) \<and>
    gs_Active (st_state S2) \<noteq> gs_Active (st_state S) \<and> gen_any_step\<^sup>*\<^sup>* S0 S \<and> gen_ready S \<and> gs_Phase (st_state S) = PhaseCommitting \<and>
    gs_Active (st_state S) = ex_gen2 \<and> \<not> allAcknowledged (st_state S) AckActive \<and> gs_CommitDeadline (st_state S) = 1700000080 \<and>
    gs_Revision (st_state S) + 1 \<noteq> 0"
proof -
  from ex_store obtain S where S: "gen_init S" "gen_ready S" "gs_Phase (st_state S) = PhaseStable" "gs_Active (st_state S) = ex_gen1"
    "gs_replicas (st_state S) = [ex_cp, ex_fo]" "gs_Revision (st_state S) = 1" "gs_UpdatedAt (st_state S) = 1700000000" by blast
  have "\<exists>S1 S2 S3. gen_Publish 7 S (gs_Revision (st_state S)) (gs_Active (st_state S)) ex_gen2 (60 * second) (60 * second) (ex_time 1) = (None, S1) \<and>
    gen_acknowledge_all S1 ex_gen2 AckPrepared [(ex_cp, ex_time 1), (ex_fo, ex_time 2)] = (None, S2) \<and>
    gs_Active (st_state S2) \<noteq> ex_gen2 \<and> gen_Advance 7 S2 (ex_time 20) = (None, S3) \<and> gen_ready S3 \<and>
    gs_Phase (st_state S3) = PhaseCommitting \<and> gs_Active (st_state S3) = ex_gen2 \<and>
    gs_replicas (st_state S3) = gs_replicas (st_state S) \<and>
    (\<forall>r \<in> set (gs_replicas (st_state S)). ackStage (gs_acks (st_state S3)) (rr_ID r) = AckPrepared) \<and>
    gs_UpdatedAt (st_state S3) = time_unix (time_utc (ex_time 20)) \<and>
    gs_CommitDeadline (st_state S3) = time_unix (time_utc (ex_time 20)) + (60 * second) sdiv second \<and>
    unat (gs_Revision (st_state S3)) + 100 < 2 ^ 64"
    by (rule handoff_to_commit [OF S(2,3)])
      (use ex_facts ex_calls ex_sub S in \<open>simp_all add: ex_unix DrainDuration_def\<close>)
  then obtain S1 S2 S3 where run: "gen_Publish 7 S (gs_Revision (st_state S)) (gs_Active (st_state S)) ex_gen2 (60 * second) (60 * second) (ex_time 1) = (None, S1)"
    "gen_acknowledge_all S1 ex_gen2 AckPrepared [(ex_cp, ex_time 1), (ex_fo, ex_time 2)] = (None, S2)"
    "gen_Advance 7 S2 (ex_time 20) = (None, S3)" "gs_Active (st_state S2) \<noteq> ex_gen2" and S3: "gen_ready S3" "gs_Phase (st_state S3) = PhaseCommitting"
    "gs_Active (st_state S3) = ex_gen2" "gs_replicas (st_state S3) = [ex_cp, ex_fo]"
    "ackStage (gs_acks (st_state S3)) (rr_ID ex_cp) = AckPrepared"
    "gs_CommitDeadline (st_state S3) = 1700000080" "unat (gs_Revision (st_state S3)) + 100 < 2 ^ 64"
    using S(5) by (auto simp: ex_unix sdiv_nonneg)
  have one: "gen_any_step S S1" using run(1) gen_step.publish [of "ex_time 1" S 7] unfolding gen_any_step_def by (metis snd_conv)
  have two: "gen_any_step\<^sup>*\<^sup>* S S2" by (rule converse_rtranclp_into_rtranclp [OF one acknowledge_all_steps [OF run(2)]])
  have "gen_any_step S2 S3" using run(3) gen_step.advance [of "ex_time 20" S2 7] unfolding gen_any_step_def by (metis snd_conv)
  with two have steps: "gen_any_step\<^sup>*\<^sup>* S S3" by (rule rtranclp.rtrancl_into_rtrancl)
  have "\<not> allAcknowledged (st_state S3) AckActive"
  proof
    assume all: "allAcknowledged (st_state S3) AckActive"
    obtain a where a: "a \<in> set (gs_acks (st_state S3))" "ak_Stage a = AckPrepared"
      using committing_ack [OF gen_readyD(1) [OF S3(1)] S3(2), of ex_cp] S3(4,5) by (metis list.set_intros(1))
    from allAcknowledged_stage [OF all a(1)] a(2) show False by (simp add: stage_defs)
  qed
  moreover have "gs_Revision (st_state S3) + 1 \<noteq> 0"
    using unat_next(2) [of "gs_Revision (st_state S3)" 1] S3(7) by simp
  ultimately show ?thesis
    using S(1) two run(3,4) steps S3(1-3,6) by (intro exI [of _ S] exI [of _ S2] exI [of _ S3]) simp
qed

section \<open>Properties\<close>

text \<open>C13. The store refines an append-only log: in every reachable store the directory is a log of valid,
  authenticated, linked records and memory stands at its last or last but one record; and every call,
  whether it succeeds or fails at any file operation, and every restart, only appends records to the
  log, one valid transition at a time, or moves memory forward to its end.\<close>

theorem gen_store_refines_log:
  assumes "gen_init S0" and "gen_any_step\<^sup>*\<^sup>* S0 S" and "gen_step now S T"
  shows "\<exists>hs m hs' m'. gen_at hs m S \<and> gen_at hs' m' T \<and> (gen_log_step (st_key S))\<^sup>*\<^sup>* (hs, m) (hs', m')"
proof -
  from gen_steps_wf [OF assms(1,2)] obtain hs m where at: "gen_at hs m S" by (auto simp: gen_wf_def)
  from gen_step_log [OF assms(3) at] at show ?thesis by blast
qed

theorem gen_store_refines_log_witness:
  "\<exists>S. gen_init S \<and> (\<exists>hs m hs' m'. gen_at hs m S \<and> gen_at hs' m' (snd (gen_Advance 7 S (ex_time 1))) \<and>
    (gen_log_step (st_key S))\<^sup>*\<^sup>* (hs, m) (hs', m'))"
proof -
  from ex_store obtain S where S: "gen_init S" by blast
  from gen_store_refines_log [OF S rtranclp.rtrancl_refl gen_step.advance [of "ex_time 1" S 7]] S show ?thesis by blast
qed

text \<open>C14. Crash recovery: whatever calls were made on the store, and at whatever file operation the last
  one failed, \<^verbatim>\<open>OpenStore\<close> on the directory left behind succeeds when it can write, and its state is the
  last acknowledged one or a valid successor whose record was already linked; nothing acknowledged is lost.\<close>

theorem gen_crash_recovery:
  assumes "gen_init S0" and "gen_any_step\<^sup>*\<^sup>* S0 S" and "3 \<le> io"
  shows "\<exists>R. gen_OpenStore io (st_key S) (st_disk S) now = Inr R \<and>
    (st_state R = st_state S \<and> st_digest R = st_digest S \<or> validateTransition (st_state S) (st_state R) (st_digest S))"
proof -
  from gen_steps_wf [OF assms(1,2)] obtain hs m where at: "gen_at hs m S" by (auto simp: gen_wf_def)
  note D = gen_atD [OF at]
  have "\<exists>R. gen_OpenStore io (st_key S) (st_disk S) now = Inr R"
    by (rule gen_OpenStore_log(2) [OF _ _ _ _ _ assms(3)]) (use at in \<open>simp_all add: gen_at_def\<close>)
  then obtain R where R: "gen_OpenStore io (st_key S) (st_disk S) now = Inr R" ..
  note at' = gen_reopen_at(1) [OF at R]
  show ?thesis
  proof (cases "length hs = Suc m")
    case True
    then have "st_state R = st_state S \<and> st_digest R = st_digest S" using at at' by (simp add: gen_at_def)
    with R show ?thesis by blast
  next
    case False
    then have len: "length hs = Suc (Suc m)" using D(2,3) by simp
    then have "gen_link (st_key S) hs (Suc m)" using at by (simp add: gen_at_def gen_chain_def)
    then have "validateTransition (st_state S) (st_state R) (st_digest S)"
      using at at' len by (simp add: gen_link_def gen_at_def)
    with R show ?thesis by blast
  qed
qed

theorem gen_crash_recovery_witness:
  "\<exists>S. gen_init S \<and> (\<exists>R. gen_OpenStore 3 (st_key (snd (gen_Publish 2 S 1 ex_gen1 ex_gen2 (60 * second) (60 * second) (ex_time 1))))
      (st_disk (snd (gen_Publish 2 S 1 ex_gen1 ex_gen2 (60 * second) (60 * second) (ex_time 1)))) (ex_time 5) = Inr R)"
proof -
  from ex_store obtain S where S: "gen_init S" by blast
  have "gen_any_step\<^sup>*\<^sup>* S (snd (gen_Publish 2 S 1 ex_gen1 ex_gen2 (60 * second) (60 * second) (ex_time 1)))"
    by (rule r_into_rtranclp) (auto simp: gen_any_step_def intro: gen_step.publish)
  from gen_crash_recovery [OF S this, of 3 "ex_time 5"] S show ?thesis by auto
qed

text \<open>C12. Activation is safe: a call or restart that changes the active generation does so from DRAINING,
  to the pending generation, whose sequence number is the next one and for which every required replica has an
  acknowledgement as PREPARED that names this generation by its ID and the digest of its receipt.\<close>

theorem gen_activation_safe:
  assumes "gen_init S0" and "gen_any_step\<^sup>*\<^sup>* S0 S" and "gen_step now S T"
    and "gs_Active (st_state T) \<noteq> gs_Active (st_state S)"
  shows "gs_Phase (st_state S) = PhaseDraining \<and> gs_Pending (st_state S) = Some (gs_Active (st_state T)) \<and>
    gn_Sequence (gs_Active (st_state T)) = gn_Sequence (gs_Active (st_state S)) + 1 \<and>
    (\<forall>r \<in> set (gs_replicas (st_state S)). \<exists>a \<in> set (gs_acks (st_state S)).
       ak_ReplicaID a = rr_ID r \<and> ak_Role a = rr_Role r \<and> ak_Stage a = AckPrepared \<and>
       ak_GenerationID a = gn_ID (gs_Active (st_state T)) \<and> ak_ReceiptSHA256 a = gn_ReceiptSHA256 (gs_Active (st_state T)))"
proof -
  from gen_steps_wf [OF assms(1,2)] obtain hs m where at: "gen_at hs m S" by (auto simp: gen_wf_def)
  note flip = gen_step_active [OF assms(3) at assms(4)] and D = validateStateD(12) [OF gen_atD(6) [OF at]]
  from D flip have ok: "gen_validPending (st_state S)" "allAcknowledged (st_state S) AckPrepared"
    by (simp_all add: gen_phase_ok_def phase_defs)
  from ok(2) have "list_all2 (\<lambda>r a. ak_ReplicaID a = rr_ID r \<and> ak_Role a = rr_Role r \<and> ak_Stage a = AckPrepared)
      (gs_replicas (st_state S)) (gs_acks (st_state S))"
    by (auto simp: allAcknowledged_def list_all2_iff list_all_iff split: if_splits prod.splits)
  then have "\<forall>r \<in> set (gs_replicas (st_state S)). \<exists>a \<in> set (gs_acks (st_state S)).
      ak_ReplicaID a = rr_ID r \<and> ak_Role a = rr_Role r \<and> ak_Stage a = AckPrepared"
    by (induction rule: list_all2_induct) auto
  moreover have "\<forall>a \<in> set (gs_acks (st_state S)). ak_GenerationID a = gn_ID (gs_Active (st_state T)) \<and>
      ak_ReceiptSHA256 a = gn_ReceiptSHA256 (gs_Active (st_state T))"
    using flip by (simp add: list_all_iff ackMatches_def)
  ultimately show ?thesis using flip ok(1) by (simp add: gen_validPending_def)
qed

theorem gen_activation_safe_witness:
  "\<exists>S T. gen_Advance 7 S (ex_time 20) = (None, T) \<and> gs_Active (st_state T) \<noteq> gs_Active (st_state S) \<and>
    gs_Phase (st_state S) = PhaseDraining \<and> gs_Pending (st_state S) = Some (gs_Active (st_state T))"
proof -
  from ex_committing obtain S0 S T where S: "gen_init S0" "gen_any_step\<^sup>*\<^sup>* S0 S" "gen_Advance 7 S (ex_time 20) = (None, T)"
    "gs_Active (st_state T) \<noteq> gs_Active (st_state S)" by metis
  have "gen_step (ex_time 20) S T" using gen_step.advance [of "ex_time 20" S 7] S(3) by simp
  from gen_activation_safe [OF S(1,2) this S(4)] S(3,4) show ?thesis by blast
qed

text \<open>C16. Past the commit deadline the handoff is stuck: once the clock has reached the commit deadline of
  a COMMITTING state that some replica has not acknowledged, no sequence of calls and restarts changes
  the state ever again. In particular a late ACTIVE acknowledgement is refused, although the record of the
  deadline is only a convergence SLA by its comment and the missing replicas are meant to be restored.\<close>

theorem gen_commit_deadline_stuck:
  assumes "gen_init S0" and "gen_any_step\<^sup>*\<^sup>* S0 S" and "gs_Phase (st_state S) = PhaseCommitting"
    and "\<not> allAcknowledged (st_state S) AckActive"
    and "map_of (st_disk S) (stateFileName (gs_Revision (st_state S) + 1)) = None"
    and "(gen_late_step (gs_CommitDeadline (st_state S)))\<^sup>*\<^sup>* S T"
  shows "st_state T = st_state S"
proof -
  have "gen_waiting (st_state S) S" by (rule gen_waitingI [OF gen_steps_wf [OF assms(1,2)] assms(5)])
  from gen_waiting_forever [OF assms(6) this assms(3,4)] show ?thesis by (simp add: gen_waiting_def)
qed

theorem gen_commit_deadline_stuck_witness:
  "\<exists>S0 S. gen_init S0 \<and> gen_any_step\<^sup>*\<^sup>* S0 S \<and> gs_Phase (st_state S) = PhaseCommitting \<and>
    st_state (snd (gen_Acknowledge 7 7 S (gs_Revision (st_state S)) ex_cp ex_gen2 AckActive (ex_time 80))) = st_state S"
proof -
  from ex_committing obtain S0 S where S: "gen_init S0" "gen_any_step\<^sup>*\<^sup>* S0 S" "gen_ready S" "gs_Phase (st_state S) = PhaseCommitting"
    "\<not> allAcknowledged (st_state S) AckActive" "gs_CommitDeadline (st_state S) = 1700000080" "gs_Revision (st_state S) + 1 \<noteq> 0"
    by metis
  have absent: "map_of (st_disk S) (stateFileName (gs_Revision (st_state S) + 1)) = None"
    using gen_ready_record [OF S(3), of "nextLocked S (ex_time 80)"] S(7) by simp
  have "gen_late_step (gs_CommitDeadline (st_state S)) S
      (snd (gen_Acknowledge 7 7 S (gs_Revision (st_state S)) ex_cp ex_gen2 AckActive (ex_time 80)))"
    using S(6) unfolding gen_late_step_def by (intro exI [of _ "ex_time 80"]) (simp add: ex_unix gen_step.acknowledge)
  from gen_commit_deadline_stuck [OF S(1,2,4,5) absent r_into_rtranclp [of "gen_late_step _", OF this]] S(1,2,4)
  show ?thesis by blast
qed

text \<open>C15. A handoff converges: when a stable store publishes a valid next generation, every required
  replica (in any order) acknowledges PREPARED before the prepare deadline, the coordinator advances after
  the drain, and every replica (in any order) acknowledges ACTIVE before the commit deadline, with a clock
  that does not run backwards and a directory that can be written, then every one of these calls
  succeeds and the store is stable with the new generation active.\<close>

theorem gen_handoff_converges:
  assumes "gen_init S0" and "gen_any_step\<^sup>*\<^sup>* S0 S"
    and "map_of (st_disk S) (stateFileName (gs_Revision (st_state S) + 1)) = None"
    and "\<forall>name \<in> fst ` set (st_disk S). \<not> is_temp_name name"
    and "gs_Phase (st_state S) = PhaseStable" and "unat (gs_Revision (st_state S)) + 200 < 2 ^ 64"
    and "validGeneration p" and "gn_Sequence p = gn_Sequence (gs_Active (st_state S)) + 1"
    and "gn_ID p \<noteq> gn_ID (gs_Active (st_state S))"
    and "30 * second \<le> pt" "pt \<le> 24 * hour" "30 * second \<le> ct" "ct \<le> 24 * hour"
    and "gen_validTime t" and "gs_UpdatedAt (st_state S) \<le> time_unix (time_utc t)"
    and "gen_calls_ok (time_unix (time_utc t)) (time_unix (time_add (time_utc t) pt)) calls"
    and "fst ` set calls = set (gs_replicas (st_state S))"
    and "gen_validTime u" and "time_unix (time_utc (snd (last calls))) + 10 \<le> time_unix (time_utc u)"
    and "DrainDuration \<le> time_sub u (snd (last calls))"
    and "gen_calls_ok (time_unix (time_utc u)) (time_unix (time_utc u) + ct sdiv second) calls'"
    and "fst ` set calls' = set (gs_replicas (st_state S))"
  shows "\<exists>S1 S2 S3 S4. gen_Publish 7 S (gs_Revision (st_state S)) (gs_Active (st_state S)) p pt ct t = (None, S1) \<and>
    gen_acknowledge_all S1 p AckPrepared calls = (None, S2) \<and> gen_Advance 7 S2 u = (None, S3) \<and>
    gen_acknowledge_all S3 p AckActive calls' = (None, S4) \<and>
    gs_Phase (st_state S4) = PhaseStable \<and> gs_Active (st_state S4) = p"
proof -
  note ready = gen_readyI [OF assms(1-4)]
  from handoff_to_commit [OF ready assms(5-20)] obtain S1 S2 S3 where
    run: "gen_Publish 7 S (gs_Revision (st_state S)) (gs_Active (st_state S)) p pt ct t = (None, S1)"
    "gen_acknowledge_all S1 p AckPrepared calls = (None, S2)" "gen_Advance 7 S2 u = (None, S3)" and
    S3: "gen_ready S3" "gs_Phase (st_state S3) = PhaseCommitting" "gs_Active (st_state S3) = p"
    "gs_replicas (st_state S3) = gs_replicas (st_state S)"
    "\<forall>r \<in> set (gs_replicas (st_state S)). ackStage (gs_acks (st_state S3)) (rr_ID r) = AckPrepared"
    "gs_UpdatedAt (st_state S3) = time_unix (time_utc u)"
    "gs_CommitDeadline (st_state S3) = time_unix (time_utc u) + ct sdiv second"
    "unat (gs_Revision (st_state S3)) + 100 < 2 ^ 64"
    by blast
  note replicas = gen_validReplicasD(1,2) [OF validateStateD(5) [OF gen_readyD(1) [OF ready]]]
  have d: "distinct (map fst calls')" using assms(21) by (simp add: gen_calls_ok_def)
  have "length calls' = card (set (map fst calls'))" using distinct_card [OF d] by simp
  also have "\<dots> \<le> length (gs_replicas (st_state S))" using assms(22) card_length by simp
  finally have len: "length calls' \<le> 64" using replicas(2) by simp
  have ne: "calls' \<noteq> []" using assms(22) replicas(1) by auto
  have "fst ` set calls' = {r \<in> set (gs_replicas (st_state S3)). ackStage (gs_acks (st_state S3)) (rr_ID r) = AckPrepared}"
    using assms(22) S3(4,5) by auto
  from active_run [OF S3(1-3) _ ne this] assms(21) S3(6-8) len obtain S4 where
    "gen_acknowledge_all S3 p AckActive calls' = (None, S4)" "gs_Phase (st_state S4) = PhaseStable" "gs_Active (st_state S4) = p"
    by auto
  with run show ?thesis by blast
qed

theorem gen_handoff_converges_witness:
  "\<exists>S S1 S2 S3 S4. gen_InitializeStore 7 ex_key ex_gen1 [ex_fo, ex_cp] (ex_time 0) = Inr S \<and>
    gen_Publish 7 S 1 ex_gen1 ex_gen2 (60 * second) (60 * second) (ex_time 1) = (None, S1) \<and>
    gen_acknowledge_all S1 ex_gen2 AckPrepared [(ex_cp, ex_time 1), (ex_fo, ex_time 2)] = (None, S2) \<and>
    gen_Advance 7 S2 (ex_time 20) = (None, S3) \<and>
    gen_acknowledge_all S3 ex_gen2 AckActive [(ex_fo, ex_time 21), (ex_cp, ex_time 22)] = (None, S4) \<and>
    gs_Phase (st_state S4) = PhaseStable \<and> gs_Active (st_state S4) = ex_gen2"
proof -
  from ex_store obtain S where S: "gen_InitializeStore 7 ex_key ex_gen1 [ex_fo, ex_cp] (ex_time 0) = Inr S" "gen_init S" "gen_ready S"
    "gs_Phase (st_state S) = PhaseStable" "gs_Active (st_state S) = ex_gen1"
    "gs_replicas (st_state S) = [ex_cp, ex_fo]" "gs_Revision (st_state S) = 1" "gs_UpdatedAt (st_state S) = 1700000000" by blast
  have absent: "map_of (st_disk S) (stateFileName (gs_Revision (st_state S) + 1)) = None"
    using gen_ready_record [OF S(3), of "nextLocked S (ex_time 1)"] S(7) by simp
  have temp: "\<forall>name \<in> fst ` set (st_disk S). \<not> is_temp_name name" using S(3) by (simp add: gen_ready_def)
  have "\<exists>S1 S2 S3 S4. gen_Publish 7 S (gs_Revision (st_state S)) (gs_Active (st_state S)) ex_gen2 (60 * second) (60 * second) (ex_time 1) = (None, S1) \<and>
    gen_acknowledge_all S1 ex_gen2 AckPrepared [(ex_cp, ex_time 1), (ex_fo, ex_time 2)] = (None, S2) \<and>
    gen_Advance 7 S2 (ex_time 20) = (None, S3) \<and>
    gen_acknowledge_all S3 ex_gen2 AckActive [(ex_fo, ex_time 21), (ex_cp, ex_time 22)] = (None, S4) \<and>
    gs_Phase (st_state S4) = PhaseStable \<and> gs_Active (st_state S4) = ex_gen2"
    by (rule gen_handoff_converges [OF S(2) rtranclp.rtrancl_refl absent temp S(4)])
      (use ex_facts ex_calls ex_sub S(5-8) in \<open>simp_all add: ex_unix DrainDuration_def sdiv_nonneg insert_commute\<close>)
  with S(1,5,7) show ?thesis by simp
qed

text \<open>C17. The canonical record encoding is a bijection with its decoder: for a valid state the sealed payload
  fits the size limit, and it is the one and only byte string that decodes, under the same key, to that
  sealed state; every other payload decodes to something else or not at all.\<close>

theorem gen_record_roundtrip:
  assumes "validateState s" and "state_typed s"
  shows "length (state_payload (state_sealed key s)) \<le> maximumStateBytes \<and>
    (decodeCanonicalState payload key = Some (state_sealed key s) \<longleftrightarrow> payload = state_payload (state_sealed key s))"
  using decode_sealed [OF assms, of key] decode_canonical(1) [of payload key] sealed_size(2) [OF assms, of key] by blast

theorem gen_record_roundtrip_witness:
  "\<exists>s. gs_Active s = ex_gen1 \<and> validateState s \<and>
    decodeCanonicalState (state_payload (state_sealed ex_key s)) ex_key = Some (state_sealed ex_key s)"
proof -
  from ex_store obtain S where S: "gen_ready S" "gs_Active (st_state S) = ex_gen1" by blast
  from gen_record_roundtrip [OF gen_readyD(1,2) [OF S(1)], of ex_key "state_payload (state_sealed ex_key (st_state S))"]
    S gen_readyD(1) [OF S(1)] show ?thesis by blast
qed

end
