(* ===== verification/GenGuard.thy ===== *)
theory GenGuard
  imports Generation
begin

text \<open>
  \<^verbatim>\<open>internal/generation/guard.go\<close>: the gate with which a replica decides whether it may serve its
  generation, and the fence that the gate and the coordinator's drain build together. A replica acts on
  a snapshot of the coordinator for at most \<^verbatim>\<open>StateLeaseDuration\<close> from the moment its request started;
  the coordinator drains twice as long before it activates another generation. The view that travels
  between them is \<^verbatim>\<open>StateView\<close> of \<^verbatim>\<open>api.go\<close>.

  In the fence the processes have their own monotonic clocks, which differ by constant offsets, and
  arbitrary wall clocks; responses may be delayed, reordered and delivered more than once, but a
  replica only accepts what the coordinator served after the request started, which is what the
  authenticated request nonce and response of the API are for. The coordinator's handlers read the clock before they
  take the lock of the store; a call therefore takes effect up to \<open>fence_lag\<close> after the reading it uses, and that is
  the difference between the drain and the lease: with a longer wait for the lock the fence would not hold.
\<close>

section \<open>Definitions\<close>

subsection \<open>Views\<close>

record state_view =
  sv_Schema :: int
  sv_Revision :: "64 word"
  sv_RecordSHA256 :: string
  sv_Phase :: string
  sv_Active :: generation
  sv_Pending :: "generation option"
  sv_RequiredReplicas :: "replica_ref slice"
  sv_Acknowledgements :: "acknowledgement slice"
  sv_PrepareDeadline :: int
  sv_DrainUntil :: int
  sv_CommitDeadline :: int
  sv_UpdatedAt :: int

definition view_zero :: state_view where
  "view_zero = \<lparr>sv_Schema = 0, sv_Revision = 0, sv_RecordSHA256 = [], sv_Phase = [], sv_Active = generation_zero,
     sv_Pending = None, sv_RequiredReplicas = None, sv_Acknowledgements = None, sv_PrepareDeadline = 0,
     sv_DrainUntil = 0, sv_CommitDeadline = 0, sv_UpdatedAt = 0\<rparr>"

definition stateView :: "gen_state \<Rightarrow> string \<Rightarrow> state_view" where
  "stateView s digest = \<lparr>sv_Schema = gs_Schema s, sv_Revision = gs_Revision s, sv_RecordSHA256 = digest,
     sv_Phase = gs_Phase s, sv_Active = gs_Active s, sv_Pending = gs_Pending s,
     sv_RequiredReplicas = slice_clone (gs_RequiredReplicas s),
     sv_Acknowledgements = slice_clone (gs_Acknowledgements s),
     sv_PrepareDeadline = gs_PrepareDeadline s, sv_DrainUntil = gs_DrainUntil s,
     sv_CommitDeadline = gs_CommitDeadline s, sv_UpdatedAt = gs_UpdatedAt s\<rparr>"

subsection \<open>The guard\<close>

record gen_principal =
  pr_ID :: string
  pr_Role :: string
  pr_Key :: "byte list"

record replica_guard =
  rg_principal :: gen_principal
  rg_local :: generation
  rg_replica :: replica_ref
  rg_view :: state_view
  rg_validUntil :: go_time

definition NewReplicaGuard :: "gen_principal \<Rightarrow> generation \<Rightarrow> replica_guard option" where
  "NewReplicaGuard who own =
     (if \<not> validGeneration own \<or> (pr_Role who \<noteq> ''controlplane'' \<and> pr_Role who \<noteq> ''firmwareorigin'')
      then None
      else Some \<lparr>rg_principal = who, rg_local = own,
        rg_replica = \<lparr>rr_ID = pr_ID who, rr_Role = pr_Role who\<rparr>,
        rg_view = view_zero, rg_validUntil = time_zero\<rparr>)"

definition guard_stageFor :: "replica_guard \<Rightarrow> state_view \<Rightarrow> string" where
  "guard_stageFor guard view =
     (let acks = slice_list (sv_Acknowledgements view) in
      if \<not> containsReplica (slice_list (sv_RequiredReplicas view)) (rg_replica guard) then []
      else if sv_Phase view = PhasePreparing \<and>
        (case sv_Pending view of None \<Rightarrow> False | Some p \<Rightarrow> sameGeneration p (rg_local guard)) \<and>
        ackStage acks (rr_ID (rg_replica guard)) = [] then AckPrepared
      else if sv_Phase view = PhaseCommitting \<and> sameGeneration (sv_Active view) (rg_local guard) \<and>
        ackStage acks (rr_ID (rg_replica guard)) = AckPrepared then AckActive
      else [])"

definition guard_accept :: "replica_guard \<Rightarrow> state_view \<Rightarrow> go_time \<Rightarrow> replica_guard" where
  "guard_accept guard view requestStarted =
     (if sv_Revision (rg_view guard) > sv_Revision view then guard
      else guard\<lparr>rg_view := view, rg_validUntil := time_add requestStarted StateLeaseDuration\<rparr>)"

definition guard_AllowOTA :: "replica_guard \<Rightarrow> go_time \<Rightarrow> bool" where
  "guard_AllowOTA guard now =
     (if \<not> time_before now (rg_validUntil guard) \<or> \<not> sameGeneration (sv_Active (rg_view guard)) (rg_local guard) then False
      else sv_Phase (rg_view guard) = PhaseStable \<or> sv_Phase (rg_view guard) = PhasePreparing \<or>
        sv_Phase (rg_view guard) = PhaseCommitting)"

subsection \<open>Refresh\<close>

text \<open>\<^verbatim>\<open>Refresh\<close> talks to the coordinator. Its requests are recorded, and the answers are given in the order
  of the requests, each with the time at which its request starts; a request without an answer fails.\<close>

datatype client_error = ClientConflict | ClientFailed
datatype client_request = ReqState | ReqAck "64 word" generation string

type_synonym client_answers = "(go_time \<times> (client_error + state_view)) list"

fun guard_ack_loop :: "nat \<Rightarrow> client_answers \<Rightarrow> replica_guard \<Rightarrow> state_view \<Rightarrow> client_error option \<times> replica_guard \<times> client_request list" where
  "guard_ack_loop 0 answers guard view = (None, guard, [])"
| "guard_ack_loop (Suc attempts) answers guard view =
     (let stage = guard_stageFor guard view; req = ReqAck (sv_Revision view) (rg_local guard) stage in
      if stage = [] then (None, guard, [])
      else case answers of
        [] \<Rightarrow> (Some ClientFailed, guard, [req])
      | (started, Inr view') # rest \<Rightarrow>
          (case guard_ack_loop attempts rest (guard_accept guard view' started) view' of
             (e, g, rs) \<Rightarrow> (e, g, req # rs))
      | (started, Inl ClientFailed) # rest \<Rightarrow> (Some ClientFailed, guard, [req])
      | (started, Inl ClientConflict) # rest \<Rightarrow>
          (case rest of
             [] \<Rightarrow> (Some ClientFailed, guard, [req, ReqState])
           | (started', Inl e) # rest' \<Rightarrow> (Some e, guard, [req, ReqState])
           | (started', Inr view') # rest' \<Rightarrow>
               (case guard_ack_loop attempts rest' (guard_accept guard view' started') view' of
                  (e, g, rs) \<Rightarrow> (e, g, req # ReqState # rs))))"

definition guard_Refresh :: "client_answers \<Rightarrow> replica_guard \<Rightarrow> client_error option \<times> replica_guard \<times> client_request list" where
  "guard_Refresh answers guard =
     (case answers of
        [] \<Rightarrow> (Some ClientFailed, guard, [ReqState])
      | (started, Inl e) # rest \<Rightarrow> (Some e, guard, [ReqState])
      | (started, Inr view) # rest \<Rightarrow>
          (case guard_ack_loop 2 rest (guard_accept guard view started) view of
             (e, g, rs) \<Rightarrow> (e, g, ReqState # rs)))"

subsection \<open>The fence\<close>

text \<open>The coordinator and its replicas in real time (nanoseconds). \<open>fe_offset\<close> is what the coordinator's
  monotonic clock shows at time zero, and every guard comes with the same number for its own process;
  \<open>fe_served\<close> is every response that was ever sent, with the time it was made.\<close>

record fence =
  fe_now :: int
  fe_offset :: int
  fe_store :: gen_store
  fe_served :: "(int \<times> state_view) list"
  fe_guards :: "(int \<times> replica_guard) list"

definition reads_clock :: "int \<Rightarrow> int \<Rightarrow> go_time \<Rightarrow> bool" where
  "reads_clock now offset t \<longleftrightarrow> mono t = Some (now + offset)"

text \<open>How long a call may wait for the lock of the store after it has read the clock.\<close>

definition fence_lag :: duration where "fence_lag = DrainDuration - StateLeaseDuration"

inductive fence_step :: "fence \<Rightarrow> fence \<Rightarrow> bool" where
  tick: "0 \<le> d \<Longrightarrow> fence_step F (F\<lparr>fe_now := fe_now F + d\<rparr>)"
| call: "0 \<le> lag \<Longrightarrow> lag \<le> fence_lag \<Longrightarrow> reads_clock (fe_now F - lag) (fe_offset F) t \<Longrightarrow> gen_step t (fe_store F) S \<Longrightarrow>
    fence_step F (F\<lparr>fe_store := S\<rparr>)"
| restart: "0 \<le> lag \<Longrightarrow> lag \<le> fence_lag \<Longrightarrow> reads_clock (fe_now F - lag) offset t \<Longrightarrow>
    gen_OpenStore io (st_key (fe_store F)) (st_disk (fe_store F)) t = Inr S \<Longrightarrow>
    fence_step F (F\<lparr>fe_store := S, fe_offset := offset\<rparr>)"
| serve: "gen_Snapshot (fe_store F) = (s, digest) \<Longrightarrow>
    fence_step F (F\<lparr>fe_served := (fe_now F, stateView s digest) # fe_served F\<rparr>)"
| join: "NewReplicaGuard who own = Some g \<Longrightarrow> fence_step F (F\<lparr>fe_guards := fe_guards F @ [(offset, g)]\<rparr>)"
| deliver: "i < length (fe_guards F) \<Longrightarrow> fe_guards F ! i = (offset, g) \<Longrightarrow> (served, view) \<in> set (fe_served F) \<Longrightarrow>
    start \<le> served \<Longrightarrow> reads_clock start offset t \<Longrightarrow>
    fence_step F (F\<lparr>fe_guards := (fe_guards F)[i := (offset, guard_accept g view t)]\<rparr>)"

definition fence_init :: "fence \<Rightarrow> bool" where
  "fence_init F \<longleftrightarrow> gen_init (fe_store F) \<and> fe_served F = [] \<and> fe_guards F = []"

section \<open>Lemmas\<close>

subsection \<open>Refresh only accepts\<close>

definition guard_accepts :: "(go_time \<times> state_view) list \<Rightarrow> replica_guard \<Rightarrow> replica_guard" where
  "guard_accepts views guard = fold (\<lambda>(t, v) g. guard_accept g v t) views guard"

lemma guard_accepts_simps [simp]:
  "guard_accepts [] g = g" "guard_accepts ((t, v) # vs) g = guard_accepts vs (guard_accept g v t)"
  by (simp_all add: guard_accepts_def)

lemma guard_ack_loop_accepts:
  "guard_ack_loop n answers g view = (e, g', rs) \<Longrightarrow>
   \<exists>views. g' = guard_accepts views g \<and> (\<forall>(t, v) \<in> set views. (t, Inr v) \<in> set answers) \<and>
     length rs \<le> 2 * n \<and> set rs \<subseteq> {ReqState} \<union> {ReqAck r (rg_local g) stage |r stage. stage = AckPrepared \<or> stage = AckActive}"
proof (induction n answers g view arbitrary: e g' rs rule: guard_ack_loop.induct)
  case (1 answers guard view)
  then show ?case by (auto intro: exI [of _ "[]"])
next
  case (2 attempts answers guard view)
  define stage where "stage = guard_stageFor guard view"
  have own: "rg_local (guard_accept guard v t) = rg_local guard" for v t by (simp add: guard_accept_def)
  have stages: "stage = [] \<or> stage = AckPrepared \<or> stage = AckActive"
    by (simp add: stage_def guard_stageFor_def Let_def)
  note def = "2.prems" [unfolded guard_ack_loop.simps Let_def, folded stage_def]
  show ?case
  proof (cases "stage = []")
    case True
    with def show ?thesis by (auto intro: exI [of _ "[]"])
  next
    case False
    note ne = this
    show ?thesis
    proof (cases answers)
      case Nil
      with def ne stages show ?thesis by (auto intro: exI [of _ "[]"])
    next
      case (Cons a rest)
      obtain t r where a: "a = (t, r)" by fastforce
      show ?thesis
      proof (cases r)
        case (Inr v)
        obtain e1 g1 rs1 where step: "guard_ack_loop attempts rest (guard_accept guard v t) v = (e1, g1, rs1)" by (metis prod_cases3)
        with def ne Cons a Inr have eq: "g' = g1" "rs = ReqAck (sv_Revision view) (rg_local guard) stage # rs1" by auto
        from "2.IH"(2) [OF refl refl ne [unfolded stage_def] Cons a [symmetric] Inr step] obtain vs where
          "g1 = guard_accepts vs (guard_accept guard v t)" "\<forall>(t, v) \<in> set vs. (t, Inr v) \<in> set rest" "length rs1 \<le> 2 * attempts"
          "set rs1 \<subseteq> {ReqState} \<union> {ReqAck r (rg_local guard) stage |r stage. stage = AckPrepared \<or> stage = AckActive}"
          unfolding own by blast
        then show ?thesis using eq Cons a Inr ne stages by (intro exI [of _ "(t, v) # vs"]) auto
      next
        case (Inl err)
        show ?thesis
        proof (cases err)
          case ClientFailed
          with def ne Cons a Inl stages show ?thesis by (auto intro: exI [of _ "[]"])
        next
          case ClientConflict
          show ?thesis
          proof (cases rest)
            case Nil
            with def ne Cons a Inl ClientConflict stages show ?thesis by (auto intro: exI [of _ "[]"])
          next
            case (Cons b rest')
            obtain t' r' where b: "b = (t', r')" by fastforce
            note ans = \<open>answers = a # rest\<close> a Inl ClientConflict Cons b
            show ?thesis
            proof (cases r')
              case (Inl e')
              with def ne ans stages show ?thesis by (auto intro: exI [of _ "[]"])
            next
              case (Inr v)
              obtain e1 g1 rs1 where step: "guard_ack_loop attempts rest' (guard_accept guard v t') v = (e1, g1, rs1)" by (metis prod_cases3)
              with def ne ans Inr have eq: "g' = g1" "rs = ReqAck (sv_Revision view) (rg_local guard) stage # ReqState # rs1" by auto
              from "2.IH"(1) [OF refl refl ne [unfolded stage_def] ans(1) ans(2) [symmetric] ans(3-5) ans(6) [symmetric] Inr step] obtain vs where
                "g1 = guard_accepts vs (guard_accept guard v t')" "\<forall>(t, v) \<in> set vs. (t, Inr v) \<in> set rest'" "length rs1 \<le> 2 * attempts"
                "set rs1 \<subseteq> {ReqState} \<union> {ReqAck r (rg_local guard) stage |r stage. stage = AckPrepared \<or> stage = AckActive}"
                unfolding own by blast
              then show ?thesis using eq ans Inr ne stages by (intro exI [of _ "(t', v) # vs"]) auto
            qed
          qed
        qed
      qed
    qed
  qed
qed

subsection \<open>The invariant of the fence\<close>

text \<open>The served views on which a replica may act: all but the DRAINING ones.\<close>

definition fence_live :: "(int \<times> state_view) list \<Rightarrow> (int \<times> state_view) set" where
  "fence_live served = {(s, v) \<in> set served. sv_Phase v \<noteq> PhaseDraining}"

definition fence_store_inv :: "int \<Rightarrow> int \<Rightarrow> (int \<times> state_view) list \<Rightarrow> gen_state list \<Rightarrow> nat \<Rightarrow> gen_store \<Rightarrow> bool" where
  "fence_store_inv now offset served hs m S \<longleftrightarrow> gen_at hs m S \<and>
     (\<forall>(s, v) \<in> fence_live served. s \<le> now \<and> (sv_Active v \<noteq> gs_Active (st_state S) \<longrightarrow> s + StateLeaseDuration \<le> now)) \<and>
     (gs_Phase (st_state S) = PhaseDraining \<longrightarrow> (\<exists>d. mono (st_drainStarted S) = Some (d + offset) \<and> d \<le> now \<and>
        (\<forall>(s, v) \<in> fence_live served. s \<le> d + fence_lag))) \<and>
     (length hs = m + 2 \<longrightarrow> gs_Active (hs ! Suc m) \<noteq> gs_Active (st_state S) \<longrightarrow>
        (\<forall>(s, v) \<in> fence_live served. s + StateLeaseDuration \<le> now))"

lemma fence_store_invD:
  assumes "fence_store_inv now offset served hs m S"
  shows "gen_at hs m S"
    and "(s, v) \<in> fence_live served \<Longrightarrow> s \<le> now"
    and "(s, v) \<in> fence_live served \<Longrightarrow> sv_Active v \<noteq> gs_Active (st_state S) \<Longrightarrow> s + StateLeaseDuration \<le> now"
    and "gs_Phase (st_state S) = PhaseDraining \<Longrightarrow> \<exists>d. mono (st_drainStarted S) = Some (d + offset) \<and> d \<le> now \<and>
        (\<forall>(s, v) \<in> fence_live served. s \<le> d + fence_lag)"
    and "length hs = m + 2 \<Longrightarrow> gs_Active (hs ! Suc m) \<noteq> gs_Active (st_state S) \<Longrightarrow> (s, v) \<in> fence_live served \<Longrightarrow>
        s + StateLeaseDuration \<le> now"
  using assms unfolding fence_store_inv_def by blast+

lemma fence_flip:
  assumes "fence_store_inv now offset served hs m S" and "reads_clock (now - lag) offset t"
    and "gs_Phase (st_state S) = PhaseDraining" and "DrainDuration \<le> time_sub t (st_drainStarted S)"
    and "(s, v) \<in> fence_live served" and "0 \<le> lag"
  shows "s + StateLeaseDuration \<le> now"
proof -
  from fence_store_invD(4) [OF assms(1,3)] obtain d where d: "mono (st_drainStarted S) = Some (d + offset)" "s \<le> d + fence_lag"
    using assms(5) by blast
  have "DrainDuration \<le> now - lag - d"
    using assms(2,4) d(1) by (simp add: reads_clock_def time_sub_def saturate64_def max_int64_def DrainDuration_def)
  with d(2) assms(6) show ?thesis by (simp add: fence_lag_def)
qed

lemma fence_work:
  assumes "gen_work t S T" and "reads_clock (now - lag) offset t" and "fence_store_inv now offset served hs m S"
    and "0 \<le> lag" and "lag \<le> fence_lag"
  shows "\<exists>hs' m'. fence_store_inv now offset served hs' m' T"
  using assms
proof induction
  case (idle t S)
  then show ?case by blast
next
  case (clock t S T)
  then obtain hs' m' where inv: "fence_store_inv now offset served hs' m' T" by blast
  have "\<exists>d. mono t = Some (d + offset) \<and> d \<le> now \<and> (\<forall>(s, v) \<in> fence_live served. s \<le> d + fence_lag)"
    using clock.prems(1,3,4) fence_store_invD(2) [OF inv] by (intro exI [of _ "now - lag"]) (force simp: reads_clock_def)
  then have "fence_store_inv now offset served hs' m' (T\<lparr>st_drainStarted := t\<rparr>)"
    using inv unfolding fence_store_inv_def by (auto simp: gen_at_def)
  then show ?case by blast
next
  case (commit t S T s io)
  then obtain hs' m' where inv: "fence_store_inv now offset served hs' m' T" by blast
  note D = fence_store_invD [OF inv]
  obtain res T' where c: "commitLocked io T s = (res, T')" by fastforce
  note drain = commitLocked_frame(2) [OF c] and st = gen_atD [OF D(1)]
  have typed: "validateState s \<Longrightarrow> state_typed s" using commit.hyps(2) by (simp add: gen_commit_ok_def)
  let ?x = "state_sealed (st_key T) s"
  have flip: "a + StateLeaseDuration \<le> now" if "gs_Active s \<noteq> gs_Active (st_state T)" "(a, v) \<in> fence_live served" for a v
    using fence_flip [OF inv commit.prems(1)] commit.prems(3) that commit.hyps(2) by (auto simp: gen_commit_ok_def)
  have "\<exists>hs m. fence_store_inv now offset served hs m T'"
  proof (rule commitLocked_at [OF D(1) typed c])
    assume at: "gen_at hs' m' T'"
    then have "st_state T' = st_state T" using gen_atD(4) st(4) by simp
    with inv at drain show ?thesis unfolding fence_store_inv_def by auto
  next
    assume at: "gen_at (hs' @ [?x]) m' T'" and m: "Suc m' = length hs'"
    then have same: "st_state T' = st_state T" using gen_atD(4) [OF at] st(2,4) by (simp add: nth_append)
    have "fence_store_inv now offset served (hs' @ [?x]) m' T'"
      using inv at drain same flip m unfolding fence_store_inv_def by (auto simp: state_sealed_simps)
    then show ?thesis by blast
  next
    assume at: "gen_at (hs' @ [?x]) (Suc m') T'" and m: "Suc m' = length hs'"
      and tr: "validateTransition (st_state T) s (st_digest T)"
    have new: "st_state T' = ?x" using gen_atD(4) [OF at] m by simp
    have "mono (st_drainStarted T') = Some (now - lag + offset)" if "gs_Phase s = PhaseDraining"
      using commit.hyps(2) commit.prems(1) drain that by (auto simp: gen_commit_ok_def reads_clock_def phase_defs)
    then have "gs_Phase (st_state T') = PhaseDraining \<longrightarrow> (\<exists>d. mono (st_drainStarted T') = Some (d + offset) \<and> d \<le> now \<and>
        (\<forall>(s, v) \<in> fence_live served. s \<le> d + fence_lag))"
      using D(2) new commit.prems(3,4) by (force simp: state_sealed_simps intro!: exI [of _ "now - lag"])
    moreover have "s \<le> now \<and> (sv_Active v \<noteq> gs_Active (st_state T') \<longrightarrow> s + StateLeaseDuration \<le> now)"
      if "(s, v) \<in> fence_live served" for s v
      using D(2,3) [OF that] flip [OF _ that] new by (cases "gs_Active (st_state T') = gs_Active (st_state T)") (auto simp: state_sealed_simps)
    ultimately have "fence_store_inv now offset served (hs' @ [?x]) (Suc m') T'"
      using at m unfolding fence_store_inv_def by auto
    then show ?thesis by blast
  qed
  with c show ?case by simp
qed

lemma fence_reopen:
  assumes "fence_store_inv now offset served hs m S" and "reads_clock (now - lag) offset' t"
    and "gen_OpenStore io (st_key S) (st_disk S) t = Inr T" and "0 \<le> lag" and "lag \<le> fence_lag"
  shows "fence_store_inv now offset' served hs (length hs - 1) T"
proof -
  note D = fence_store_invD [OF assms(1)]
  note R = gen_reopen_at [OF D(1) assms(3)]
  note st = gen_atD [OF D(1)] and st' = gen_atD [OF R(1)]
  have last: "st_state T = last hs" using st'(2,4) by (metis last_conv_nth length_0_conv not_less0)
  have live: "s \<le> now \<and> (sv_Active v \<noteq> gs_Active (st_state T) \<longrightarrow> s + StateLeaseDuration \<le> now)"
    if "(s, v) \<in> fence_live served" for s v
  proof (cases "length hs = Suc m")
    case True
    then have "st_state T = st_state S" using st(4) st'(4) by simp
    with D(2,3) [OF that] show ?thesis by simp
  next
    case False
    then have len: "length hs = m + 2" using st(2,3) by simp
    then have "st_state T = hs ! Suc m" using st'(4) by simp
    with D(2,3) [OF that] D(5) [OF len _ that] show ?thesis by (cases "gs_Active (st_state T) = gs_Active (st_state S)") auto
  qed
  have "gs_Phase (st_state T) = PhaseDraining \<longrightarrow> (\<exists>d. mono (st_drainStarted T) = Some (d + offset') \<and> d \<le> now \<and>
      (\<forall>(s, v) \<in> fence_live served. s \<le> d + fence_lag))"
    using R(3) last assms(2,4,5) D(2) by (force simp: reads_clock_def intro!: exI [of _ "now - lag"])
  then show ?thesis using R(1) live st'(2) unfolding fence_store_inv_def by auto
qed

text \<open>What a guard holds was served, after the request it is leased from.\<close>

definition fence_guard_inv :: "(int \<times> state_view) list \<Rightarrow> int \<times> replica_guard \<Rightarrow> bool" where
  "fence_guard_inv served og \<longleftrightarrow> sv_Phase (rg_view (snd og)) = [] \<or>
     (\<exists>s start. (s, rg_view (snd og)) \<in> set served \<and> start \<le> s \<and>
        mono (rg_validUntil (snd og)) = Some (start + fst og + StateLeaseDuration))"

definition fence_inv :: "fence \<Rightarrow> bool" where
  "fence_inv F \<longleftrightarrow> (\<exists>hs m. fence_store_inv (fe_now F) (fe_offset F) (fe_served F) hs m (fe_store F)) \<and>
     (\<forall>og \<in> set (fe_guards F). fence_guard_inv (fe_served F) og)"

lemma fence_init_inv:
  assumes "fence_init F"
  shows "fence_inv F"
proof -
  from assms obtain io key initial replicas t where init: "gen_InitializeStore io key initial replicas t = Inr (fe_store F)"
    and empty: "fe_served F = []" "fe_guards F = []" by (auto simp: fence_init_def gen_init_def)
  from gen_InitializeStore_at [OF init] obtain x where at: "gen_at [x] 0 (fe_store F)" by blast
  have "gen_link (st_key (fe_store F)) [x] 0" by (rule gen_atD(1) [OF at])
  then have "gs_Phase (st_state (fe_store F)) \<noteq> PhaseDraining"
    using gen_atD(4) [OF at] by (simp add: gen_link_def phase_defs)
  with at empty have "fence_store_inv (fe_now F) (fe_offset F) (fe_served F) [x] 0 (fe_store F)"
    by (simp add: fence_store_inv_def fence_live_def)
  with empty show ?thesis by (auto simp: fence_inv_def)
qed

lemma fence_guard_inv_more: "fence_guard_inv served og \<Longrightarrow> set served \<subseteq> set served' \<Longrightarrow> fence_guard_inv served' og"
  by (auto simp: fence_guard_inv_def)

lemma fence_accept_inv:
  assumes "fence_guard_inv served (offset, g)" and "(s, view) \<in> set served" and "start \<le> s" and "reads_clock start offset t"
  shows "fence_guard_inv served (offset, guard_accept g view t)"
proof (cases "sv_Revision (rg_view g) > sv_Revision view")
  case True
  with assms(1) show ?thesis by (simp add: guard_accept_def)
next
  case False
  show ?thesis
    unfolding fence_guard_inv_def
    by (rule disjI2, rule exI [of _ s], rule exI [of _ start])
      (use False assms(2-4) in \<open>simp add: guard_accept_def time_add_def reads_clock_def\<close>)
qed

lemma fence_step_inv:
  assumes "fence_inv F" and "fence_step F G"
  shows "fence_inv G"
proof -
  from assms(1) obtain hs m where inv: "fence_store_inv (fe_now F) (fe_offset F) (fe_served F) hs m (fe_store F)"
    and guards: "\<And>og. og \<in> set (fe_guards F) \<Longrightarrow> fence_guard_inv (fe_served F) og" by (auto simp: fence_inv_def)
  note D = fence_store_invD [OF inv]
  from assms(2) show ?thesis
  proof cases
    case (tick d)
    have "fence_store_inv (fe_now F + d) (fe_offset F) (fe_served F) hs m (fe_store F)"
      using inv tick(2) unfolding fence_store_inv_def by fastforce
    with tick guards show ?thesis by (auto simp: fence_inv_def)
  next
    case (call lag t S)
    have "\<exists>hs m. fence_store_inv (fe_now F) (fe_offset F) (fe_served F) hs m S"
      using call(5) D(1)
    proof (cases rule: gen_step_cases)
      case work
      then show ?thesis by (rule fence_work [OF _ call(4) inv call(2,3)])
    next
      case (reopen io)
      then show ?thesis using fence_reopen [OF inv call(4) _ call(2,3)] by blast
    qed
    with call guards show ?thesis by (simp add: fence_inv_def)
  next
    case (restart lag offset t io S)
    from fence_reopen [OF inv restart(4,5,2,3)] restart(1) guards show ?thesis by (auto simp: fence_inv_def)
  next
    case (serve s digest)
    let ?v = "stateView s digest"
    have view: "sv_Phase ?v = gs_Phase (st_state (fe_store F))" "sv_Active ?v = gs_Active (st_state (fe_store F))"
      using serve(2) by (auto simp: gen_Snapshot_def cloneState_def stateView_def)
    have live: "fence_live ((fe_now F, ?v) # fe_served F) =
        (if gs_Phase (st_state (fe_store F)) = PhaseDraining then fence_live (fe_served F)
         else insert (fe_now F, ?v) (fence_live (fe_served F)))"
      by (auto simp: fence_live_def view)
    have orphan: "gs_Phase (st_state (fe_store F)) = PhaseDraining"
      if "length hs = m + 2" "gs_Active (hs ! Suc m) \<noteq> gs_Active (st_state (fe_store F))"
    proof -
      have "gen_link (st_key (fe_store F)) hs (Suc m)" using D(1) that(1) by (simp add: gen_at_def gen_chain_def)
      then have "validateTransition (hs ! m) (hs ! Suc m) (payload_digest (state_payload (hs ! m)))" by (simp add: gen_link_def)
      from validateTransition_active [OF this] that(2) gen_atD(4) [OF D(1)] show ?thesis by simp
    qed
    have "fence_store_inv (fe_now F) (fe_offset F) ((fe_now F, ?v) # fe_served F) hs m (fe_store F)"
      using inv view orphan unfolding fence_store_inv_def live by auto
    moreover have "fence_guard_inv ((fe_now F, ?v) # fe_served F) og" if "og \<in> set (fe_guards F)" for og
      by (rule fence_guard_inv_more [OF guards [OF that]]) auto
    ultimately show ?thesis using serve(1) by (auto simp: fence_inv_def)
  next
    case (join who own g offset)
    have "fence_guard_inv (fe_served F) (offset, g)"
      using join(2) by (auto simp: NewReplicaGuard_def fence_guard_inv_def view_zero_def split: if_splits)
    with join inv guards show ?thesis by (auto simp: fence_inv_def)
  next
    case (deliver i offset g served view start t)
    have "fence_guard_inv (fe_served F) (offset, g)" using guards nth_mem [OF deliver(2)] deliver(3) by simp
    from fence_accept_inv [OF this deliver(4-6)] guards inv deliver(1) show ?thesis
      by (auto simp: fence_inv_def dest!: set_update_subset_insert [THEN subsetD])
  qed
qed

interpretation fe: go_system fence_init fence_step fence_inv
  by unfold_locales (auto intro: fence_init_inv fence_step_inv)

lemma fence_allowed:
  assumes "fence_inv F" and "(offset, g) \<in> set (fe_guards F)" and "reads_clock (fe_now F) offset t" and "guard_AllowOTA g t"
  shows "rg_local g = gs_Active (st_state (fe_store F))"
proof -
  have allow: "time_before t (rg_validUntil g)" "sv_Active (rg_view g) = rg_local g"
    "sv_Phase (rg_view g) \<noteq> PhaseDraining" "sv_Phase (rg_view g) \<noteq> []"
    using assms(4) by (auto simp: guard_AllowOTA_def sameGeneration_eq phase_defs split: if_splits)
  have "fence_guard_inv (fe_served F) (offset, g)" using assms(1,2) by (auto simp: fence_inv_def)
  then obtain s start where s: "(s, rg_view g) \<in> set (fe_served F)" "start \<le> s"
    "mono (rg_validUntil g) = Some (start + offset + StateLeaseDuration)" using allow(4) by (auto simp: fence_guard_inv_def)
  have "fe_now F < s + StateLeaseDuration"
    using allow(1) assms(3) s(2,3) by (simp add: time_before_def reads_clock_def)
  moreover have "(s, rg_view g) \<in> fence_live (fe_served F)" using s(1) allow(3) by (simp add: fence_live_def)
  moreover obtain hs m where "fence_store_inv (fe_now F) (fe_offset F) (fe_served F) hs m (fe_store F)"
    using assms(1) by (auto simp: fence_inv_def)
  ultimately show ?thesis using fence_store_invD(3) allow(2) by fastforce
qed

section \<open>Properties\<close>

text \<open>C1. The generation fence: in every run of the coordinator and any number of replicas, with failing
  commits, crashes and restarts of the coordinator, independent monotonic clocks, arbitrary wall clocks and
  delayed, reordered or repeated responses, in which every call of the coordinator takes effect within
  \<open>fence_lag\<close> (5 seconds) of its reading of the clock, two replicas that allow OTA at the same instant serve
  the same generation, and it is the one the coordinator has active at that instant.\<close>

theorem fence_single_generation:
  assumes "fence_init F0" and "fence_step\<^sup>*\<^sup>* F0 F"
    and "(offset, g) \<in> set (fe_guards F)" and "reads_clock (fe_now F) offset t" and "guard_AllowOTA g t"
    and "(offset', g') \<in> set (fe_guards F)" and "reads_clock (fe_now F) offset' t'" and "guard_AllowOTA g' t'"
  shows "rg_local g = rg_local g' \<and> rg_local g = gs_Active (st_state (fe_store F))"
  using fence_allowed [OF fe.reachable_inv [OF assms(1,2)] assms(3-5)]
    fence_allowed [OF fe.reachable_inv [OF assms(1,2)] assms(6-8)] by simp

text \<open>A coordinator with one replica that has just read the state.\<close>

theorem fence_single_generation_witness:
  "\<exists>(F :: fence) g t. (0, g) \<in> set (fe_guards F) \<and> reads_clock (fe_now F) 0 t \<and> guard_AllowOTA g t \<and>
    rg_local g = ex_gen1 \<and> rg_local g = gs_Active (st_state (fe_store F))"
proof -
  from ex_store obtain S where S: "gen_init S" "gs_Phase (st_state S) = PhaseStable" "gs_Active (st_state S) = ex_gen1" by blast
  obtain s digest where snap: "gen_Snapshot S = (s, digest)" by fastforce
  have view: "sv_Phase (stateView s digest) = PhaseStable" "sv_Active (stateView s digest) = ex_gen1"
    using snap S by (auto simp: gen_Snapshot_def cloneState_def stateView_def)
  let ?who = "\<lparr>pr_ID = ''cp-1'', pr_Role = ''controlplane'', pr_Key = ex_key\<rparr>"
  obtain g0 where g0: "NewReplicaGuard ?who ex_gen1 = Some g0" and new: "rg_local g0 = ex_gen1" "rg_view g0 = view_zero"
    using ex_facts(3) by (simp add: NewReplicaGuard_def)
  define F0 where "F0 = \<lparr>fe_now = 0, fe_offset = 0, fe_store = S, fe_served = [], fe_guards = []\<rparr>"
  define F1 where "F1 = F0\<lparr>fe_served := [(0, stateView s digest)]\<rparr>"
  define F2 where "F2 = F1\<lparr>fe_guards := [(0, g0)]\<rparr>"
  define g where "g = guard_accept g0 (stateView s digest) (ex_time 0)"
  define F3 where "F3 = F2\<lparr>fe_guards := [(0, g)]\<rparr>"
  have s1: "fence_step F0 F1" using fence_step.serve [of F0 s digest] snap by (simp add: F0_def F1_def)
  have s2: "fence_step F1 F2" using fence_step.join [OF g0, of F1 0] by (simp add: F0_def F1_def F2_def)
  have s3: "fence_step F2 F3"
    using fence_step.deliver [of 0 F2 0 g0 0 "stateView s digest" 0 "ex_time 0"]
    by (simp add: F0_def F1_def F2_def F3_def g_def reads_clock_def ex_time_def)
  have "fence_step\<^sup>*\<^sup>* F0 F3"
    by (rule converse_rtranclp_into_rtranclp, rule s1, rule converse_rtranclp_into_rtranclp, rule s2, rule r_into_rtranclp, rule s3)
  moreover have "fence_init F0" using S(1) by (simp add: fence_init_def F0_def)
  moreover have mem: "(0, g) \<in> set (fe_guards F3)" and clock: "reads_clock (fe_now F3) 0 (ex_time 0)"
    by (simp_all add: F0_def F1_def F2_def F3_def reads_clock_def ex_time_def)
  moreover have allow: "guard_AllowOTA g (ex_time 0)"
    using view new by (simp add: guard_AllowOTA_def g_def guard_accept_def view_zero_def sameGeneration_eq time_before_def
        time_add_def ex_time_def StateLeaseDuration_def)
  ultimately have "rg_local g = gs_Active (st_state (fe_store F3))"
    using fence_single_generation [of F0 F3 0 g "ex_time 0" 0 g "ex_time 0"] by blast
  moreover have "rg_local g = ex_gen1" using new by (simp add: g_def guard_accept_def)
  ultimately show ?thesis using mem clock allow by blast
qed

text \<open>C18. \<^verbatim>\<open>Refresh\<close> is bounded and only ever accepts what it was answered: it makes at most five requests, each a
  state read or an acknowledgement of the guard's own generation, and leaves the guard as a sequence
  of \<^verbatim>\<open>accept\<close> calls on views that were answered, each leased from the start of its own request.\<close>

theorem guard_Refresh_accepts:
  "case guard_Refresh answers g of (e, g', rs) \<Rightarrow>
     length rs \<le> 5 \<and> set rs \<subseteq> {ReqState} \<union> {ReqAck r (rg_local g) stage |r stage. stage \<in> {AckPrepared, AckActive}} \<and>
     rg_local g' = rg_local g \<and>
     (\<exists>views. g' = guard_accepts views g \<and> set (map (\<lambda>(t, v). (t, Inr v)) views) \<subseteq> set answers)"
proof -
  have own: "rg_local (guard_accepts views h) = rg_local h" for views h
    by (induction views arbitrary: h) (auto simp: guard_accept_def split: prod.splits)
  show ?thesis
  proof (cases answers)
    case Nil
    then show ?thesis by (auto simp: guard_Refresh_def intro: exI [of _ "[]"])
  next
    case (Cons a rest)
    obtain t r where a: "a = (t, r)" by fastforce
    show ?thesis
    proof (cases r)
      case (Inl e)
      then show ?thesis using Cons a by (auto simp: guard_Refresh_def intro: exI [of _ "[]"])
    next
      case (Inr v)
      obtain e g' rs where loop: "guard_ack_loop 2 rest (guard_accept g v t) v = (e, g', rs)" by (metis prod_cases3)
      have one: "rg_local (guard_accept g v t) = rg_local g" by (simp add: guard_accept_def)
      from guard_ack_loop_accepts [OF loop, unfolded one] obtain vs where vs: "g' = guard_accepts vs (guard_accept g v t)"
        "\<forall>(t, v) \<in> set vs. (t, Inr v) \<in> set rest" "length rs \<le> 4"
        "set rs \<subseteq> {ReqState} \<union> {ReqAck r (rg_local g) stage |r stage. stage = AckPrepared \<or> stage = AckActive}"
        by auto
      have "\<exists>views. g' = guard_accepts views g \<and> set (map (\<lambda>(t, v). (t, Inr v)) views) \<subseteq> set answers"
        using vs(1,2) Cons a Inr by (intro exI [of _ "(t, v) # vs"]) auto
      moreover have "rg_local g' = rg_local g" using vs(1) own by (simp add: guard_accept_def)
      ultimately show ?thesis using vs(3,4) Cons a Inr loop by (auto simp: guard_Refresh_def)
    qed
  qed
qed

end
