(* ===== verification/GenApi.thy ===== *)
theory GenApi
  imports GenGuard
begin

text \<open>
  \<^verbatim>\<open>internal/generation/api.go\<close>, \<^verbatim>\<open>client.go\<close> and \<^verbatim>\<open>registry.go\<close>: the authenticated HTTP interface of the generation coordinator.
  A request is the part of \<^verbatim>\<open>http.Request\<close> the handlers read; the body is its bytes and whether reading them fails. Each
  reading of the clock is an argument, as is the file operation at which the store fails. The name, order and
  values of the four request headers and of the response signature are those of the source. Health and metrics
  endpoints, the ticker of \<^verbatim>\<open>Run\<close> and the transport of the client are left out. A handler is one function: that other
  requests may run between its \<^verbatim>\<open>authorize\<close>, which locks the nonces, and its call of the store, which locks the store,
  only means that the call meets a later store.
\<close>

section \<open>Definitions\<close>

subsection \<open>Principals\<close>

record replica_identity =
  ri_ReplicaID :: string
  ri_Role :: string
  ri_HMACKeyB64 :: string

record registry_document =
  rd_Version :: int
  rd_Replicas :: "replica_identity slice"

record replica_registry =
  rp_identities :: "(string, gen_principal) gomap"
  rp_references :: "replica_ref list"

definition identity_zero :: replica_identity where
  "identity_zero = \<lparr>ri_ReplicaID = [], ri_Role = [], ri_HMACKeyB64 = []\<rparr>"

definition identity_json :: "replica_identity \<Rightarrow> json" where
  "identity_json i = JObj [(''replica_id'', JStr (ri_ReplicaID i)), (''role'', JStr (ri_Role i)), (''hmac_key_b64'', JStr (ri_HMACKeyB64 i))]"

definition registry_json :: "registry_document \<Rightarrow> json" where
  "registry_json d = JObj [(''version'', JNum (json_int (rd_Version d))), (''replicas'', json_slice identity_json (rd_Replicas d))]"

definition identity_fields :: "replica_identity json_fields" where
  "identity_fields =
     [(''replica_id'', \<lambda>j i. map_option (\<lambda>v. i\<lparr>ri_ReplicaID := v\<rparr>) (json_to_string j (ri_ReplicaID i))),
      (''role'', \<lambda>j i. map_option (\<lambda>v. i\<lparr>ri_Role := v\<rparr>) (json_to_string j (ri_Role i))),
      (''hmac_key_b64'', \<lambda>j i. map_option (\<lambda>v. i\<lparr>ri_HMACKeyB64 := v\<rparr>) (json_to_string j (ri_HMACKeyB64 i)))]"

definition registry_fields :: "registry_document json_fields" where
  "registry_fields =
     [(''version'', \<lambda>j d. map_option (\<lambda>v. d\<lparr>rd_Version := v\<rparr>) (json_to_int64 j (rd_Version d))),
      (''replicas'', \<lambda>j d. map_option (\<lambda>v. d\<lparr>rd_Replicas := v\<rparr>)
         (json_to_slice (json_struct True identity_fields) identity_zero j (rd_Replicas d)))]"

definition decodeCanonicalKey :: "string \<Rightarrow> byte list option" where
  "decodeCanonicalKey value =
     (case b64_decode value of
        None \<Rightarrow> None
      | Some key \<Rightarrow> if length key < 32 \<or> length key > 128 \<or> b64_encode key \<noteq> value then None else Some key)"

text \<open>The loop over the entries; \<open>seen\<close> are the keys so far and \<open>prior\<close> the previous ID.\<close>

fun registry_entries :: "replica_identity list \<Rightarrow> byte list list \<Rightarrow> string \<Rightarrow> replica_registry \<Rightarrow> replica_registry option" where
  "registry_entries [] seen prior R = Some R"
| "registry_entries (e # es) seen prior R =
     (if \<not> ValidIdentifier (ri_ReplicaID e) 64 \<or> (ri_Role e \<noteq> ''controlplane'' \<and> ri_Role e \<noteq> ''firmwareorigin'') then None
      else if ri_ReplicaID e \<le> prior then None
      else if map_of (rp_identities R) (ri_ReplicaID e) \<noteq> None then None
      else case decodeCanonicalKey (ri_HMACKeyB64 e) of
        None \<Rightarrow> None
      | Some key \<Rightarrow>
          if list_ex (\<lambda>p. p = key) seen then None
          else registry_entries es (seen @ [key]) (ri_ReplicaID e)
            \<lparr>rp_identities = AList.update (ri_ReplicaID e)
                 \<lparr>pr_ID = ri_ReplicaID e, pr_Role = ri_Role e, pr_Key = key\<rparr> (rp_identities R),
             rp_references = rp_references R @ [\<lparr>rr_ID = ri_ReplicaID e, rr_Role = ri_Role e\<rparr>]\<rparr>)"

text \<open>The bytes of the file are the argument; what is left out is the check of its mode.\<close>

definition LoadReplicaRegistry :: "string \<Rightarrow> replica_registry option" where
  "LoadReplicaRegistry payload =
     (if length payload > maximumStateBytes then None
      else case json_parse payload of
        None \<Rightarrow> None
      | Some j \<Rightarrow>
          (case json_struct True registry_fields j \<lparr>rd_Version = 0, rd_Replicas = None\<rparr> of
             None \<Rightarrow> None
           | Some document \<Rightarrow>
               if json_print (registry_json document) @ [CHR 0x0A] \<noteq> payload \<or> rd_Version document \<noteq> 1 \<or>
                  length (slice_list (rd_Replicas document)) < 2 \<or> length (slice_list (rd_Replicas document)) > 64
               then None
               else (case registry_entries (slice_list (rd_Replicas document)) [] [] \<lparr>rp_identities = [], rp_references = []\<rparr> of
                       None \<Rightarrow> None
                     | Some R \<Rightarrow>
                         let R' = R\<lparr>rp_references := sortReplicas (rp_references R)\<rparr> in
                         if \<not> gen_validReplicas (rp_references R') then None else Some R')))"

definition registry_Principal :: "replica_registry \<Rightarrow> string \<Rightarrow> gen_principal option" where
  "registry_Principal R i = map_of (rp_identities R) i"

definition registry_DistinctFrom :: "replica_registry \<Rightarrow> byte list list \<Rightarrow> bool" where
  "registry_DistinctFrom R keys = (\<not> list_ex (\<lambda>(i, p). list_ex (\<lambda>key. pr_Key p = key) keys) (rp_identities R))"

subsection \<open>The server\<close>

definition HeaderPrincipal :: string where "HeaderPrincipal = ''X-Xiaozhi-Generation-Principal''"
definition HeaderTimestamp :: string where "HeaderTimestamp = ''X-Xiaozhi-Generation-Timestamp''"
definition HeaderNonce :: string where "HeaderNonce = ''X-Xiaozhi-Generation-Nonce''"
definition HeaderSignature :: string where "HeaderSignature = ''X-Xiaozhi-Generation-Signature''"
definition pathState :: string where "pathState = ''/v1/generations/state''"
definition pathPublish :: string where "pathPublish = ''/v1/generations/publish''"
definition pathAbort :: string where "pathAbort = ''/v1/generations/abort''"
definition pathAck :: string where "pathAck = ''/v1/generations/ack''"
definition maximumAPIBytes :: nat where "maximumAPIBytes = 16 * 1024"

record publish_request =
  pq_ExpectedRevision :: "64 word"
  pq_ExpectedActive :: generation
  pq_Pending :: generation

record abort_request =
  bq_ExpectedRevision :: "64 word"
  bq_Pending :: generation

record ack_request =
  aq_ExpectedRevision :: "64 word"
  aq_Generation :: generation
  aq_Stage :: string

record coordinator_metrics =
  mt_stateReads :: "64 word"
  mt_publications :: "64 word"
  mt_aborts :: "64 word"
  mt_preparedAcks :: "64 word"
  mt_activeAcks :: "64 word"
  mt_conflicts :: "64 word"
  mt_authRejected :: "64 word"

record api_server =
  as_Store :: gen_store
  as_Publisher :: gen_principal
  as_Replicas :: replica_registry
  as_PrepareTimeout :: duration
  as_CommitTimeout :: duration
  as_MaxClockSkew :: duration
  as_nonces :: "(string, (string, wall_time) gomap) gomap"
  as_stats :: coordinator_metrics

definition keysEqual :: "byte list \<Rightarrow> byte list \<Rightarrow> bool" where
  "keysEqual l r \<longleftrightarrow> length l = length r \<and> l = r"

definition NewServer ::
  "gen_store \<Rightarrow> gen_principal \<Rightarrow> replica_registry \<Rightarrow> duration \<Rightarrow> duration \<Rightarrow> duration \<Rightarrow> api_server option" where
  "NewServer store publisher replicas prepareTimeout commitTimeout maxClockSkew =
     (if \<not> ValidIdentifier (pr_ID publisher) 64 \<or> pr_Role publisher \<noteq> ''publisher'' \<or> length (pr_Key publisher) < 32 \<or>
         length (pr_Key publisher) > 128 \<or> registry_Principal replicas (pr_ID publisher) \<noteq> None \<or>
         \<not> gen_RequiredReplicasMatch store (rp_references replicas) \<or>
         \<not> registry_DistinctFrom replicas [pr_Key publisher, st_key store] \<or> keysEqual (pr_Key publisher) (st_key store) \<or>
         prepareTimeout < 30 * second \<or> prepareTimeout > 24 * hour \<or> commitTimeout < 30 * second \<or> commitTimeout > 24 * hour \<or>
         maxClockSkew < 5 * second \<or> maxClockSkew > 5 * minute
      then None
      else Some \<lparr>as_Store = store, as_Publisher = publisher, as_Replicas = replicas, as_PrepareTimeout = prepareTimeout,
        as_CommitTimeout = commitTimeout, as_MaxClockSkew = maxClockSkew, as_nonces = [],
        as_stats = \<lparr>mt_stateReads = 0, mt_publications = 0, mt_aborts = 0, mt_preparedAcks = 0, mt_activeAcks = 0,
          mt_conflicts = 0, mt_authRejected = 0\<rparr>\<rparr>)"

record api_request =
  rq_Method :: string
  rq_URL :: "(string \<times> string) option" \<comment> \<open>path and raw query\<close>
  rq_ContentLength :: int
  rq_TransferEncoding :: "string list"
  rq_Header :: "(string, string list) gomap"
  rq_Body :: "(string \<times> bool) option" \<comment> \<open>bytes, and whether reading fails\<close>

text \<open>The patterns \<^verbatim>\<open>NewServer\<close> registers with the standard mux: the method and the path; a \<^verbatim>\<open>GET\<close> pattern also
  matches \<^verbatim>\<open>HEAD\<close>.\<close>

definition routed :: "string \<Rightarrow> string \<Rightarrow> api_request \<Rightarrow> bool" where
  "routed method path request \<longleftrightarrow> (rq_Method request = method \<or> method = ''GET'' \<and> rq_Method request = ''HEAD'') \<and>
     (case rq_URL request of None \<Rightarrow> False | Some (p, rawQuery) \<Rightarrow> p = path)"

record api_response =
  ar_Status :: int
  ar_Signature :: string
  ar_Body :: string

definition header_values :: "api_request \<Rightarrow> string \<Rightarrow> string list" where
  "header_values request name = (case map_of (rq_Header request) name of None \<Rightarrow> [] | Some vs \<Rightarrow> vs)"

definition singleAPIHeader :: "api_request \<Rightarrow> string \<Rightarrow> string option" where
  "singleAPIHeader request name =
     (case header_values request name of [v] \<Rightarrow> if v = [] then None else Some v | _ \<Rightarrow> None)"

definition readAPIRequest :: "api_request \<Rightarrow> string option" where
  "readAPIRequest request =
     (case rq_Body request of
        None \<Rightarrow> None
      | Some (bytes, fails) \<Rightarrow>
          if rq_ContentLength request \<le> 0 \<or> rq_ContentLength request > int maximumAPIBytes \<or>
             (case header_values request ''Content-Type'' of [] \<Rightarrow> [] | v # _ \<Rightarrow> v) \<noteq> ''application/json''
          then None
          else
            let payload = take (maximumAPIBytes + 1) bytes in
            if (fails \<and> length bytes \<le> maximumAPIBytes) \<or> payload = [] \<or> length payload > maximumAPIBytes \<or>
               int (length payload) \<noteq> rq_ContentLength request
            then None else Some payload)"

definition absDuration :: "duration \<Rightarrow> duration" where
  "absDuration value = (if value < 0 then i64 (- value) else value)"

text \<open>\<^verbatim>\<open>strconv.ParseInt(text, 10, 64)\<close> and \<^verbatim>\<open>time.Unix(seconds, 0)\<close>.\<close>

definition parse_int64 :: "string \<Rightarrow> int option" where
  "parse_int64 text =
     (let (sign, digits) = (case text of [] \<Rightarrow> (1, []) | c # cs \<Rightarrow>
            if c = CHR ''-'' then (- 1, cs) else if c = CHR ''+'' then (1, cs) else (1, text)) in
      if digits = [] \<or> \<not> list_all is_digit digits then None
      else let v = sign * int (digits_value digits) in if in_int64 v then Some v else None)"

definition time_Unix :: "int \<Rightarrow> go_time" where
  "time_Unix seconds = \<lparr>wall = i64 (seconds + 62135596800) * second, mono = None\<rparr>"

definition canonicalAPIRequest :: "string \<Rightarrow> string \<Rightarrow> string \<Rightarrow> string \<Rightarrow> string \<Rightarrow> string \<Rightarrow> string" where
  "canonicalAPIRequest who method path timestamp nonce bodySHA256 =
     ''xiaozhi-generation-api-v1'' @ CHR 0x0A #
     ''principal='' @ who @ CHR 0x0A #
     ''method='' @ method @ CHR 0x0A #
     ''path='' @ path @ CHR 0x0A #
     ''timestamp='' @ timestamp @ CHR 0x0A #
     ''nonce='' @ nonce @ CHR 0x0A #
     ''body_sha256='' @ bodySHA256 @ [CHR 0x0A]"

definition canonicalAPIResponse :: "string \<Rightarrow> string \<Rightarrow> int \<Rightarrow> string \<Rightarrow> string" where
  "canonicalAPIResponse who nonce status bodySHA256 =
     ''xiaozhi-generation-response-v1'' @ CHR 0x0A #
     ''principal='' @ who @ CHR 0x0A #
     ''request_nonce='' @ nonce @ CHR 0x0A #
     ''status='' @ json_int status @ CHR 0x0A #
     ''body_sha256='' @ bodySHA256 @ [CHR 0x0A]"

definition server_principal :: "api_server \<Rightarrow> string \<Rightarrow> gen_principal option" where
  "server_principal server i =
     (if i = pr_ID (as_Publisher server) then Some (as_Publisher server) else registry_Principal (as_Replicas server) i)"

definition reserveNonce :: "api_server \<Rightarrow> string \<Rightarrow> string \<Rightarrow> wall_time \<Rightarrow> bool \<times> api_server" where
  "reserveNonce server who nonce now =
     (let values = (case map_of (as_nonces server) who of None \<Rightarrow> [] | Some vs \<Rightarrow> vs);
          live = filter (\<lambda>(value, expires). expires > now) values in
      if map_of live nonce \<noteq> None \<or> length live \<ge> 4096
      then (False, server\<lparr>as_nonces := AList.update who live (as_nonces server)\<rparr>)
      else (True, server\<lparr>as_nonces := AList.update who
        (AList.update nonce (now + 2 * as_MaxClockSkew server) live) (as_nonces server)\<rparr>))"

definition auth_rejected :: "api_server \<Rightarrow> api_server" where
  "auth_rejected server = server\<lparr>as_stats := (as_stats server)\<lparr>mt_authRejected := mt_authRejected (as_stats server) + 1\<rparr>\<rparr>"

text \<open>The checks of \<^verbatim>\<open>authorize\<close> before the nonce is reserved; \<open>now\<close> is the wall time after \<^verbatim>\<open>UTC()\<close>.\<close>

definition request_verified :: "api_server \<Rightarrow> wall_time \<Rightarrow> api_request \<Rightarrow> string \<Rightarrow> (gen_principal \<times> string) option" where
  "request_verified server now request payload =
     (case (singleAPIHeader request HeaderPrincipal, singleAPIHeader request HeaderTimestamp,
            singleAPIHeader request HeaderNonce, singleAPIHeader request HeaderSignature, rq_URL request) of
        (Some principalText, Some timestampText, Some nonceText, Some signatureText, Some (path, rawQuery)) \<Rightarrow>
          if rawQuery \<noteq> [] \<or> (rq_Method request = ''GET'' \<and> (rq_ContentLength request \<noteq> 0 \<or> rq_TransferEncoding request \<noteq> []))
          then None
          else (case (server_principal server principalText, parse_int64 timestampText) of
            (Some who, Some timestamp) \<Rightarrow>
              if json_int timestamp \<noteq> timestampText \<or> \<not> canonical_bytes nonceText 16 \<or> \<not> canonical_bytes signatureText 32 \<or>
                 absDuration (time_sub \<lparr>wall = now, mono = None\<rparr> (time_Unix timestamp)) > as_MaxClockSkew server
              then None
              else if b64_decode signatureText \<noteq> Some (hmac_sha256 (pr_Key who) (bytes_of
                 (canonicalAPIRequest (pr_ID who) (rq_Method request) path timestampText nonceText (payload_digest payload))))
              then None
              else Some (who, nonceText)
          | _ \<Rightarrow> None)
      | _ \<Rightarrow> None)"

definition authorize :: "api_server \<Rightarrow> wall_time \<Rightarrow> api_request \<Rightarrow> string \<Rightarrow> (gen_principal \<times> string) option \<times> api_server" where
  "authorize server now request payload =
     (case request_verified server now request payload of
        None \<Rightarrow> (None, auth_rejected server)
      | Some (who, nonce) \<Rightarrow>
          (case reserveNonce server (pr_ID who) nonce now of
             (False, server') \<Rightarrow> (None, auth_rejected server')
           | (True, server') \<Rightarrow> (Some (who, nonce), server')))"

subsection \<open>Handlers\<close>

definition view_json :: "state_view \<Rightarrow> json" where
  "view_json v = JObj
     [(''schema'', JNum (json_int (sv_Schema v))), (''revision'', JNum (json_nat (unat (sv_Revision v)))),
      (''record_sha256'', JStr (sv_RecordSHA256 v)), (''phase'', JStr (sv_Phase v)),
      (''active'', generation_json (sv_Active v)), (''pending'', json_pointer generation_json (sv_Pending v)),
      (''required_replicas'', json_slice replica_json (sv_RequiredReplicas v)),
      (''acknowledgements'', json_slice ack_json (sv_Acknowledgements v)),
      (''prepare_deadline'', JNum (json_int (sv_PrepareDeadline v))), (''drain_until'', JNum (json_int (sv_DrainUntil v))),
      (''commit_deadline'', JNum (json_int (sv_CommitDeadline v))), (''updated_at'', JNum (json_int (sv_UpdatedAt v)))]"

definition view_fields :: "state_view json_fields" where
  "view_fields =
     [(''schema'', \<lambda>j s. map_option (\<lambda>v. s\<lparr>sv_Schema := v\<rparr>) (json_to_int64 j (sv_Schema s))),
      (''revision'', \<lambda>j s. map_option (\<lambda>v. s\<lparr>sv_Revision := v\<rparr>) (json_to_word j (sv_Revision s))),
      (''record_sha256'', \<lambda>j s. map_option (\<lambda>v. s\<lparr>sv_RecordSHA256 := v\<rparr>) (json_to_string j (sv_RecordSHA256 s))),
      (''phase'', \<lambda>j s. map_option (\<lambda>v. s\<lparr>sv_Phase := v\<rparr>) (json_to_string j (sv_Phase s))),
      (''active'', \<lambda>j s. map_option (\<lambda>v. s\<lparr>sv_Active := v\<rparr>) (json_to_generation j (sv_Active s))),
      (''pending'', \<lambda>j s. map_option (\<lambda>v. s\<lparr>sv_Pending := v\<rparr>) (json_to_pointer json_to_generation generation_zero j (sv_Pending s))),
      (''required_replicas'', \<lambda>j s. map_option (\<lambda>v. s\<lparr>sv_RequiredReplicas := v\<rparr>)
         (json_to_slice json_to_replica replica_zero j (sv_RequiredReplicas s))),
      (''acknowledgements'', \<lambda>j s. map_option (\<lambda>v. s\<lparr>sv_Acknowledgements := v\<rparr>)
         (json_to_slice json_to_ack ack_zero j (sv_Acknowledgements s))),
      (''prepare_deadline'', \<lambda>j s. map_option (\<lambda>v. s\<lparr>sv_PrepareDeadline := v\<rparr>) (json_to_int64 j (sv_PrepareDeadline s))),
      (''drain_until'', \<lambda>j s. map_option (\<lambda>v. s\<lparr>sv_DrainUntil := v\<rparr>) (json_to_int64 j (sv_DrainUntil s))),
      (''commit_deadline'', \<lambda>j s. map_option (\<lambda>v. s\<lparr>sv_CommitDeadline := v\<rparr>) (json_to_int64 j (sv_CommitDeadline s))),
      (''updated_at'', \<lambda>j s. map_option (\<lambda>v. s\<lparr>sv_UpdatedAt := v\<rparr>) (json_to_int64 j (sv_UpdatedAt s)))]"

definition writeSignedState :: "api_server \<Rightarrow> int \<Rightarrow> gen_principal \<Rightarrow> string \<Rightarrow> api_response" where
  "writeSignedState server status who requestNonce =
     (let (state, digest) = gen_Snapshot (as_Store server);
          payload = json_print (view_json (stateView state digest)) @ [CHR 0x0A];
          canonical = canonicalAPIResponse (pr_ID who) requestNonce status (payload_digest payload) in
      \<lparr>ar_Status = status, ar_Signature = b64_encode (hmac_sha256 (pr_Key who) (bytes_of canonical)), ar_Body = payload\<rparr>)"

text \<open>\<^verbatim>\<open>http.Error\<close>: the text and a newline, without a signature.\<close>

definition http_error :: "int \<Rightarrow> string \<Rightarrow> api_response" where
  "http_error status text' = \<lparr>ar_Status = status, ar_Signature = [], ar_Body = text' @ [CHR 0x0A]\<rparr>"

definition publish_json :: "publish_request \<Rightarrow> json" where
  "publish_json r = JObj [(''expected_revision'', JNum (json_nat (unat (pq_ExpectedRevision r)))),
     (''expected_active'', generation_json (pq_ExpectedActive r)), (''pending'', generation_json (pq_Pending r))]"

definition publish_fields :: "publish_request json_fields" where
  "publish_fields =
     [(''expected_revision'', \<lambda>j r. map_option (\<lambda>v. r\<lparr>pq_ExpectedRevision := v\<rparr>) (json_to_word j (pq_ExpectedRevision r))),
      (''expected_active'', \<lambda>j r. map_option (\<lambda>v. r\<lparr>pq_ExpectedActive := v\<rparr>) (json_to_generation j (pq_ExpectedActive r))),
      (''pending'', \<lambda>j r. map_option (\<lambda>v. r\<lparr>pq_Pending := v\<rparr>) (json_to_generation j (pq_Pending r)))]"

definition abort_json :: "abort_request \<Rightarrow> json" where
  "abort_json r = JObj [(''expected_revision'', JNum (json_nat (unat (bq_ExpectedRevision r)))),
     (''pending'', generation_json (bq_Pending r))]"

definition abort_fields :: "abort_request json_fields" where
  "abort_fields =
     [(''expected_revision'', \<lambda>j r. map_option (\<lambda>v. r\<lparr>bq_ExpectedRevision := v\<rparr>) (json_to_word j (bq_ExpectedRevision r))),
      (''pending'', \<lambda>j r. map_option (\<lambda>v. r\<lparr>bq_Pending := v\<rparr>) (json_to_generation j (bq_Pending r)))]"

definition ack_request_json :: "ack_request \<Rightarrow> json" where
  "ack_request_json r = JObj [(''expected_revision'', JNum (json_nat (unat (aq_ExpectedRevision r)))),
     (''generation'', generation_json (aq_Generation r)), (''stage'', JStr (aq_Stage r))]"

definition ack_request_fields :: "ack_request json_fields" where
  "ack_request_fields =
     [(''expected_revision'', \<lambda>j r. map_option (\<lambda>v. r\<lparr>aq_ExpectedRevision := v\<rparr>) (json_to_word j (aq_ExpectedRevision r))),
      (''generation'', \<lambda>j r. map_option (\<lambda>v. r\<lparr>aq_Generation := v\<rparr>) (json_to_generation j (aq_Generation r))),
      (''stage'', \<lambda>j r. map_option (\<lambda>v. r\<lparr>aq_Stage := v\<rparr>) (json_to_string j (aq_Stage r)))]"

definition decodeCanonicalAPI :: "'a json_fields \<Rightarrow> ('a \<Rightarrow> json) \<Rightarrow> 'a \<Rightarrow> string \<Rightarrow> 'a option" where
  "decodeCanonicalAPI fs encode zero payload =
     (case json_parse payload of
        None \<Rightarrow> None
      | Some j \<Rightarrow> (case json_struct True fs j zero of
          None \<Rightarrow> None
        | Some input \<Rightarrow> if json_print (encode input) \<noteq> payload then None else Some input))"

definition writeMutationError :: "api_server \<Rightarrow> gen_error \<Rightarrow> api_response \<times> api_server" where
  "writeMutationError server err =
     (if err = GenConflict \<or> err = GenExpired
      then (http_error 409 ''generation state conflict'',
        server\<lparr>as_stats := (as_stats server)\<lparr>mt_conflicts := mt_conflicts (as_stats server) + 1\<rparr>\<rparr>)
      else (http_error 503 ''generation state unavailable'', server))"

definition server_state :: "nat \<Rightarrow> api_server \<Rightarrow> wall_time \<Rightarrow> go_time \<Rightarrow> api_request \<Rightarrow> api_response \<times> api_server" where
  "server_state io server now now2 request =
     (case authorize server now request [] of
        (None, server1) \<Rightarrow> (http_error 401 ''unauthorized'', server1)
      | (Some (who, nonce), server1) \<Rightarrow>
          (case gen_Advance io (as_Store server1) now2 of
             (Some e, store) \<Rightarrow> (http_error 503 ''generation state unavailable'', server1\<lparr>as_Store := store\<rparr>)
           | (None, store) \<Rightarrow>
               let server2 = server1\<lparr>as_Store := store\<rparr> in
               (writeSignedState server2 200 who nonce,
                server2\<lparr>as_stats := (as_stats server2)\<lparr>mt_stateReads := mt_stateReads (as_stats server2) + 1\<rparr>\<rparr>)))"

definition server_publish :: "nat \<Rightarrow> api_server \<Rightarrow> wall_time \<Rightarrow> go_time \<Rightarrow> api_request \<Rightarrow> api_response \<times> api_server" where
  "server_publish io server now now2 request =
     (case Option.bind (readAPIRequest request) (\<lambda>payload. map_option (\<lambda>input. (payload, input))
        (decodeCanonicalAPI publish_fields publish_json
          \<lparr>pq_ExpectedRevision = 0, pq_ExpectedActive = generation_zero, pq_Pending = generation_zero\<rparr> payload)) of
        None \<Rightarrow> (http_error 400 ''invalid generation publication'', server)
      | Some (payload, input) \<Rightarrow>
          (case authorize server now request payload of
             (None, server1) \<Rightarrow> (http_error 401 ''unauthorized'', server1)
           | (Some (who, nonce), server1) \<Rightarrow>
               if pr_Role who \<noteq> ''publisher'' then (http_error 401 ''unauthorized'', server1)
               else (case gen_Publish io (as_Store server1) (pq_ExpectedRevision input) (pq_ExpectedActive input) (pq_Pending input)
                       (as_PrepareTimeout server1) (as_CommitTimeout server1) now2 of
                  (Some e, store) \<Rightarrow> writeMutationError (server1\<lparr>as_Store := store\<rparr>) e
                | (None, store) \<Rightarrow>
                    let server2 = server1\<lparr>as_Store := store\<rparr> in
                    (writeSignedState server2 200 who nonce,
                     server2\<lparr>as_stats := (as_stats server2)\<lparr>mt_publications := mt_publications (as_stats server2) + 1\<rparr>\<rparr>))))"

definition server_abort :: "nat \<Rightarrow> api_server \<Rightarrow> wall_time \<Rightarrow> go_time \<Rightarrow> api_request \<Rightarrow> api_response \<times> api_server" where
  "server_abort io server now now2 request =
     (case Option.bind (readAPIRequest request) (\<lambda>payload. map_option (\<lambda>input. (payload, input))
        (decodeCanonicalAPI abort_fields abort_json \<lparr>bq_ExpectedRevision = 0, bq_Pending = generation_zero\<rparr> payload)) of
        None \<Rightarrow> (http_error 400 ''invalid generation abort'', server)
      | Some (payload, input) \<Rightarrow>
          (case authorize server now request payload of
             (None, server1) \<Rightarrow> (http_error 401 ''unauthorized'', server1)
           | (Some (who, nonce), server1) \<Rightarrow>
               if pr_Role who \<noteq> ''publisher'' then (http_error 401 ''unauthorized'', server1)
               else (case gen_Abort io (as_Store server1) (bq_ExpectedRevision input) (bq_Pending input) now2 of
                  (Some e, store) \<Rightarrow> writeMutationError (server1\<lparr>as_Store := store\<rparr>) e
                | (None, store) \<Rightarrow>
                    let server2 = server1\<lparr>as_Store := store\<rparr> in
                    (writeSignedState server2 200 who nonce,
                     server2\<lparr>as_stats := (as_stats server2)\<lparr>mt_aborts := mt_aborts (as_stats server2) + 1\<rparr>\<rparr>))))"

definition server_ack :: "nat \<Rightarrow> nat \<Rightarrow> api_server \<Rightarrow> wall_time \<Rightarrow> go_time \<Rightarrow> api_request \<Rightarrow> api_response \<times> api_server" where
  "server_ack io io2 server now now2 request =
     (case Option.bind (readAPIRequest request) (\<lambda>payload. map_option (\<lambda>input. (payload, input))
        (decodeCanonicalAPI ack_request_fields ack_request_json
          \<lparr>aq_ExpectedRevision = 0, aq_Generation = generation_zero, aq_Stage = []\<rparr> payload)) of
        None \<Rightarrow> (http_error 400 ''invalid generation acknowledgement'', server)
      | Some (payload, input) \<Rightarrow>
          (case authorize server now request payload of
             (None, server1) \<Rightarrow> (http_error 401 ''unauthorized'', server1)
           | (Some (who, nonce), server1) \<Rightarrow>
               if pr_Role who \<noteq> ''controlplane'' \<and> pr_Role who \<noteq> ''firmwareorigin'' then (http_error 401 ''unauthorized'', server1)
               else (case gen_Acknowledge io io2 (as_Store server1) (aq_ExpectedRevision input)
                       \<lparr>rr_ID = pr_ID who, rr_Role = pr_Role who\<rparr> (aq_Generation input) (aq_Stage input) now2 of
                  (Some e, store) \<Rightarrow> writeMutationError (server1\<lparr>as_Store := store\<rparr>) e
                | (None, store) \<Rightarrow>
                    let server2 = server1\<lparr>as_Store := store\<rparr> in
                    (writeSignedState server2 200 who nonce,
                     if aq_Stage input = AckPrepared
                     then server2\<lparr>as_stats := (as_stats server2)\<lparr>mt_preparedAcks := mt_preparedAcks (as_stats server2) + 1\<rparr>\<rparr>
                     else server2\<lparr>as_stats := (as_stats server2)\<lparr>mt_activeAcks := mt_activeAcks (as_stats server2) + 1\<rparr>\<rparr>))))"

subsection \<open>The client\<close>

definition validateStateView :: "state_view \<Rightarrow> bool" where
  "validateStateView v =
     (if sv_Schema v \<noteq> 1 \<or> sv_Revision v = 0 \<or> \<not> gen_validSHA256 (sv_RecordSHA256 v) \<or> \<not> validGeneration (sv_Active v) \<or>
         \<not> gen_validReplicas (slice_list (sv_RequiredReplicas v)) \<or> sv_UpdatedAt v < 1609459200 \<or> sv_UpdatedAt v > 4102444800
      then False
      else validateState \<lparr>gs_Schema = sv_Schema v, gs_Revision = sv_Revision v, gs_PreviousRecordSHA256 = zeroDigest,
        gs_Phase = sv_Phase v, gs_Active = sv_Active v, gs_Pending = sv_Pending v, gs_RequiredReplicas = sv_RequiredReplicas v,
        gs_Acknowledgements = sv_Acknowledgements v, gs_PrepareDeadline = sv_PrepareDeadline v, gs_DrainUntil = sv_DrainUntil v,
        gs_CommitDeadline = sv_CommitDeadline v, gs_UpdatedAt = sv_UpdatedAt v, gs_RecordHMACB64URL = []\<rparr>)"

text \<open>The request that \<^verbatim>\<open>call\<close> sends, with the 16 bytes of \<^verbatim>\<open>randomNonce\<close>; a nil payload is \<open>None\<close>.\<close>

definition client_request_of :: "gen_principal \<Rightarrow> byte list \<Rightarrow> wall_time \<Rightarrow> string \<Rightarrow> string \<Rightarrow> string option \<Rightarrow> api_request" where
  "client_request_of who nonceBytes now method path payload =
     (let body = (case payload of None \<Rightarrow> [] | Some b \<Rightarrow> b);
          nonce = b64_encode nonceBytes;
          timestamp = json_int (unix_of_wall now);
          canonical = canonicalAPIRequest (pr_ID who) method path timestamp nonce (payload_digest body) in
      \<lparr>rq_Method = method, rq_URL = Some (path, []), rq_ContentLength = int (length body), rq_TransferEncoding = [],
       rq_Header = [(HeaderPrincipal, [pr_ID who]), (HeaderTimestamp, [timestamp]), (HeaderNonce, [nonce]),
         (HeaderSignature, [b64_encode (hmac_sha256 (pr_Key who) (bytes_of canonical))]), (''Accept'', [''application/json''])] @
         (if payload = None then [] else [(''Content-Type'', [''application/json''])]),
       rq_Body = Some (body, False)\<rparr>)"

text \<open>What \<^verbatim>\<open>call\<close> makes of the response, whose body was read without an error.\<close>

definition client_receive :: "gen_principal \<Rightarrow> string \<Rightarrow> api_response \<Rightarrow> client_error + state_view" where
  "client_receive who nonce response =
     (let responsePayload = take (maximumAPIBytes + 1) (ar_Body response) in
      if length responsePayload > maximumAPIBytes then Inl ClientFailed
      else if ar_Status response \<noteq> 200 then (if ar_Status response = 409 then Inl ClientConflict else Inl ClientFailed)
      else if \<not> canonical_bytes (ar_Signature response) 32 then Inl ClientFailed
      else if b64_decode (ar_Signature response) \<noteq> Some (hmac_sha256 (pr_Key who) (bytes_of
        (canonicalAPIResponse (pr_ID who) nonce (ar_Status response) (payload_digest responsePayload))))
      then Inl ClientFailed
      else case json_parse responsePayload of
        None \<Rightarrow> Inl ClientFailed
      | Some j \<Rightarrow> (case json_struct True view_fields j view_zero of
          None \<Rightarrow> Inl ClientFailed
        | Some v \<Rightarrow>
            if json_print (view_json v) @ [CHR 0x0A] \<noteq> responsePayload \<or> \<not> validateStateView v then Inl ClientFailed
            else Inr v))"

end
