(* ===== verification/GenApiSafety.thy ===== *)
theory GenApiSafety
  imports GenApi
begin

text \<open>
  Lemmas on the coordinator's HTTP interface: what a step of the server does to its store and its nonces, when a time
  stamp is fresh, what the client sends and reads, and how large a view is on the wire.
\<close>

section \<open>Lemmas\<close>

subsection \<open>Steps of the server\<close>

text \<open>What the server handles: a request that the mux routes to one of the four handlers, or the ticker of \<^verbatim>\<open>Run\<close>. The wall
  time \<open>now\<close> is the one \<^verbatim>\<open>authorize\<close> reads.\<close>

datatype api_event = EvState api_request | EvPublish api_request | EvAbort api_request | EvAck api_request | EvTick

inductive api_step :: "wall_time \<Rightarrow> api_event \<Rightarrow> api_server \<Rightarrow> api_server \<Rightarrow> bool" for now where
  state: "routed ''GET'' pathState request \<Longrightarrow>
    api_step now (EvState request) server (snd (server_state io server now now2 request))"
| publish: "routed ''POST'' pathPublish request \<Longrightarrow>
    api_step now (EvPublish request) server (snd (server_publish io server now now2 request))"
| abort: "routed ''POST'' pathAbort request \<Longrightarrow>
    api_step now (EvAbort request) server (snd (server_abort io server now now2 request))"
| ack: "routed ''POST'' pathAck request \<Longrightarrow>
    api_step now (EvAck request) server (snd (server_ack io io2 server now now2 request))"
| tick: "api_step now EvTick server (server\<lparr>as_Store := snd (gen_Advance io (as_Store server) now2)\<rparr>)"

definition api_steps_until :: "wall_time \<Rightarrow> api_server \<Rightarrow> api_server \<Rightarrow> bool" where
  "api_steps_until u = (\<lambda>s t. \<exists>now \<le> u. \<exists>ev. api_step now ev s t)\<^sup>*\<^sup>*"

text \<open>The parts that only \<^verbatim>\<open>authorize\<close> touches, and the configuration.\<close>

definition same_auth :: "api_server \<Rightarrow> api_server \<Rightarrow> bool" where
  "same_auth s t \<longleftrightarrow> as_nonces t = as_nonces s \<and> as_Publisher t = as_Publisher s \<and> as_Replicas t = as_Replicas s \<and>
     as_MaxClockSkew t = as_MaxClockSkew s \<and> as_PrepareTimeout t = as_PrepareTimeout s \<and> as_CommitTimeout t = as_CommitTimeout s"

lemma same_auth_simps [simp]:
  "same_auth s s" "same_auth s (t\<lparr>as_Store := x\<rparr>) = same_auth s t" "same_auth s (t\<lparr>as_stats := y\<rparr>) = same_auth s t"
  "same_auth s (auth_rejected t) = same_auth s t" "same_auth s (snd (writeMutationError t e)) = same_auth s t"
  by (auto simp: same_auth_def auth_rejected_def writeMutationError_def)

lemma authorize_store [simp]: "as_Store (snd (authorize s now request payload)) = as_Store s"
  by (auto simp: authorize_def auth_rejected_def reserveNonce_def Let_def split: option.splits prod.splits bool.splits)

lemma same_auth_authorize:
  "authorize s now request payload = (r, t) \<Longrightarrow> same_auth (snd (authorize s now request payload)) t"
  by simp

text \<open>A handler leaves the nonces as \<^verbatim>\<open>authorize\<close> does, or does not reach it.\<close>

lemma server_state_auth: "same_auth (snd (authorize s now request [])) (snd (server_state io s now now2 request))"
  by (cases "authorize s now request []") (simp add: server_state_def Let_def split: option.split prod.split)

lemma server_publish_auth:
  "same_auth s (snd (server_publish io s now now2 request)) \<or>
   (\<exists>payload. same_auth (snd (authorize s now request payload)) (snd (server_publish io s now now2 request)))"
proof (cases "Option.bind (readAPIRequest request) (\<lambda>payload. map_option (\<lambda>input. (payload, input))
        (decodeCanonicalAPI publish_fields publish_json
          \<lparr>pq_ExpectedRevision = 0, pq_ExpectedActive = generation_zero, pq_Pending = generation_zero\<rparr> payload))")
  case (Some pi)
  obtain payload input where pi: "pi = (payload, input)" by (cases pi)
  have "same_auth (snd (authorize s now request payload)) (snd (server_publish io s now now2 request))"
    unfolding server_publish_def Some pi option.case prod.case Let_def
    by (cases "authorize s now request payload") (simp split: option.split prod.split)
  then show ?thesis by blast
qed (simp add: server_publish_def)

lemma server_abort_auth:
  "same_auth s (snd (server_abort io s now now2 request)) \<or>
   (\<exists>payload. same_auth (snd (authorize s now request payload)) (snd (server_abort io s now now2 request)))"
proof (cases "Option.bind (readAPIRequest request) (\<lambda>payload. map_option (\<lambda>input. (payload, input))
        (decodeCanonicalAPI abort_fields abort_json \<lparr>bq_ExpectedRevision = 0, bq_Pending = generation_zero\<rparr> payload))")
  case (Some pi)
  obtain payload input where pi: "pi = (payload, input)" by (cases pi)
  have "same_auth (snd (authorize s now request payload)) (snd (server_abort io s now now2 request))"
    unfolding server_abort_def Some pi option.case prod.case Let_def
    by (cases "authorize s now request payload") (simp split: option.split prod.split)
  then show ?thesis by blast
qed (simp add: server_abort_def)

lemma server_ack_auth:
  "same_auth s (snd (server_ack io io2 s now now2 request)) \<or>
   (\<exists>payload. same_auth (snd (authorize s now request payload)) (snd (server_ack io io2 s now now2 request)))"
proof (cases "Option.bind (readAPIRequest request) (\<lambda>payload. map_option (\<lambda>input. (payload, input))
        (decodeCanonicalAPI ack_request_fields ack_request_json
          \<lparr>aq_ExpectedRevision = 0, aq_Generation = generation_zero, aq_Stage = []\<rparr> payload))")
  case (Some pi)
  obtain payload input where pi: "pi = (payload, input)" by (cases pi)
  have "same_auth (snd (authorize s now request payload)) (snd (server_ack io io2 s now now2 request))"
    unfolding server_ack_def Some pi option.case prod.case Let_def
    by (cases "authorize s now request payload") (simp split: option.split prod.split)
  then show ?thesis by blast
qed (simp add: server_ack_def)

lemma api_step_auth:
  assumes "api_step now ev s t"
  shows "same_auth s t \<or> (\<exists>request payload. same_auth (snd (authorize s now request payload)) t)"
  using assms
proof cases
  case (state request io now2)
  then show ?thesis using server_state_auth by blast
next
  case (publish request io now2)
  then show ?thesis using server_publish_auth by blast
next
  case (abort request io now2)
  then show ?thesis using server_abort_auth by blast
next
  case (ack request io io2 now2)
  then show ?thesis using server_ack_auth by blast
qed simp

subsection \<open>Who changes the coordinator\<close>

text \<open>The request carries the principal's MAC over its method, path, timestamp, nonce and body.\<close>

definition signed_by :: "gen_principal \<Rightarrow> api_request \<Rightarrow> string \<Rightarrow> bool" where
  "signed_by who request payload \<longleftrightarrow> (\<exists>path timestamp nonce. rq_URL request = Some (path, []) \<and>
     singleAPIHeader request HeaderPrincipal = Some (pr_ID who) \<and> singleAPIHeader request HeaderTimestamp = Some timestamp \<and>
     singleAPIHeader request HeaderNonce = Some nonce \<and>
     singleAPIHeader request HeaderSignature = Some (b64_encode (hmac_sha256 (pr_Key who) (bytes_of
       (canonicalAPIRequest (pr_ID who) (rq_Method request) path timestamp nonce (payload_digest payload))))))"

text \<open>Every principal is filed under its own ID.\<close>

definition principals_wf :: "api_server \<Rightarrow> bool" where
  "principals_wf s \<longleftrightarrow> (\<forall>i p. server_principal s i = Some p \<longrightarrow> pr_ID p = i)"

lemma canonical_bytes_decode: "canonical_bytes v n \<Longrightarrow> b64_decode v = Some bs \<Longrightarrow> v = b64_encode bs"
  by (auto simp: canonical_bytes_iff)

lemma request_verified_facts:
  assumes "request_verified s now request payload = Some (who, nonce)"
  obtains i timestampText ts where "singleAPIHeader request HeaderPrincipal = Some i" and "server_principal s i = Some who"
    and "singleAPIHeader request HeaderTimestamp = Some timestampText" and "parse_int64 timestampText = Some ts"
    and "absDuration (time_sub \<lparr>wall = now, mono = None\<rparr> (time_Unix ts)) \<le> as_MaxClockSkew s"
    and "singleAPIHeader request HeaderNonce = Some nonce" and "canonical_bytes nonce 16" and "principals_wf s \<Longrightarrow> signed_by who request payload"
proof -
  from assms obtain i timestampText ts sig path where *: "singleAPIHeader request HeaderPrincipal = Some i"
    "server_principal s i = Some who" "singleAPIHeader request HeaderTimestamp = Some timestampText" "parse_int64 timestampText = Some ts"
    "absDuration (time_sub \<lparr>wall = now, mono = None\<rparr> (time_Unix ts)) \<le> as_MaxClockSkew s"
    "singleAPIHeader request HeaderNonce = Some nonce" "canonical_bytes nonce 16" "rq_URL request = Some (path, [])"
    "singleAPIHeader request HeaderSignature = Some sig" "canonical_bytes sig 32"
    "b64_decode sig = Some (hmac_sha256 (pr_Key who) (bytes_of
       (canonicalAPIRequest (pr_ID who) (rq_Method request) path timestampText nonce (payload_digest payload))))"
    unfolding request_verified_def by (auto simp: not_less split: option.splits prod.splits if_splits)
  have "signed_by who request payload" if "principals_wf s"
    using * that canonical_bytes_decode [OF *(10,11)] unfolding signed_by_def principals_wf_def by blast
  with * show ?thesis by (intro that)
qed

lemma authorize_Some:
  assumes "authorize s now request payload = (Some (who, nonce), t)"
  shows "request_verified s now request payload = Some (who, nonce)" and "reserveNonce s (pr_ID who) nonce now = (True, t)"
  using assms by (auto simp: authorize_def split: option.splits prod.splits bool.splits)

lemma decodeCanonicalAPI_print: "decodeCanonicalAPI fs enc z payload = Some input \<Longrightarrow> payload = json_print (enc input)"
  by (auto simp: decodeCanonicalAPI_def split: option.splits if_splits)

lemma writeMutationError_store [simp]: "as_Store (snd (writeMutationError s e)) = as_Store s"
  by (simp add: writeMutationError_def)

lemma authorize_config:
  assumes "authorize s now request payload = (r, t)"
  shows "as_Store t = as_Store s" and "as_PrepareTimeout t = as_PrepareTimeout s" and "as_CommitTimeout t = as_CommitTimeout s"
    and "as_MaxClockSkew t = as_MaxClockSkew s" and "as_Publisher t = as_Publisher s" and "as_Replicas t = as_Replicas s"
  using assms by (auto simp: authorize_def auth_rejected_def reserveNonce_def Let_def split: option.splits prod.splits bool.splits if_splits)

lemma server_state_change:
  assumes "as_Store (snd (server_state io s now now2 request)) \<noteq> as_Store s"
  obtains who nonce where "request_verified s now request [] = Some (who, nonce)"
    and "as_Store (snd (server_state io s now now2 request)) = snd (gen_Advance io (as_Store s) now2)"
proof (cases "authorize s now request []")
  case (Pair r t)
  note config = authorize_config(1) [OF Pair]
  show ?thesis
  proof (cases r)
    case None
    then show ?thesis using assms by (simp add: server_state_def Pair config)
  next
    case (Some wn)
    obtain who nonce where wn: "wn = (who, nonce)" by (cases wn)
    have "as_Store (snd (server_state io s now now2 request)) = snd (gen_Advance io (as_Store s) now2)"
      by (cases "gen_Advance io (as_Store s) now2") (simp add: server_state_def Pair Some wn config Let_def split: option.split)
    with authorize_Some(1) [OF Pair [unfolded Some wn]] show ?thesis by (rule that)
  qed
qed

lemma server_publish_change:
  assumes "as_Store (snd (server_publish io s now now2 request)) \<noteq> as_Store s"
  obtains payload input who nonce where "readAPIRequest request = Some payload" and "payload = json_print (publish_json input)"
    and "request_verified s now request payload = Some (who, nonce)" and "pr_Role who = ''publisher''"
    and "as_Store (snd (server_publish io s now now2 request)) = snd (gen_Publish io (as_Store s) (pq_ExpectedRevision input) (pq_ExpectedActive input)
        (pq_Pending input) (as_PrepareTimeout s) (as_CommitTimeout s) now2)"
proof (cases "Option.bind (readAPIRequest request) (\<lambda>payload. map_option (\<lambda>input. (payload, input))
        (decodeCanonicalAPI publish_fields publish_json \<lparr>pq_ExpectedRevision = 0, pq_ExpectedActive = generation_zero, pq_Pending = generation_zero\<rparr> payload))")
  case None
  then show ?thesis using assms by (simp add: server_publish_def)
next
  case (Some pi)
  obtain payload input where pi: "pi = (payload, input)" by (cases pi)
  have print: "readAPIRequest request = Some payload" "payload = json_print (publish_json input)"
    using Some pi by (auto simp: bind_eq_Some_conv dest: decodeCanonicalAPI_print)
  obtain r t where auth: "authorize s now request payload = (r, t)" by (cases "authorize s now request payload")
  note config = authorize_config [OF auth]
  have "\<exists>who nonce. r = Some (who, nonce) \<and> (pr_Role who = ''publisher'')"
  proof (rule ccontr)
    assume "\<not> ?thesis"
    then have "as_Store (snd (server_publish io s now now2 request)) = as_Store s"
      unfolding server_publish_def Some pi option.case prod.case Let_def auth
      by (auto simp: config split: option.split)
    then show False using assms by simp
  qed
  then obtain who nonce where who: "r = Some (who, nonce)" "pr_Role who = ''publisher''" by blast
  obtain e store where call: "gen_Publish io (as_Store s) (pq_ExpectedRevision input) (pq_ExpectedActive input)
        (pq_Pending input) (as_PrepareTimeout s) (as_CommitTimeout s) now2 = (e, store)" by fastforce
  have "as_Store (snd (server_publish io s now now2 request)) = store"
    unfolding server_publish_def Some pi option.case prod.case Let_def auth who(1) config call
    using who(2) by (auto split: option.split)
  then show ?thesis using that [OF print authorize_Some(1) [OF auth [unfolded who(1)]] who(2)] call by simp
qed

lemma server_abort_change:
  assumes "as_Store (snd (server_abort io s now now2 request)) \<noteq> as_Store s"
  obtains payload input who nonce where "readAPIRequest request = Some payload" and "payload = json_print (abort_json input)"
    and "request_verified s now request payload = Some (who, nonce)" and "pr_Role who = ''publisher''"
    and "as_Store (snd (server_abort io s now now2 request)) = snd (gen_Abort io (as_Store s) (bq_ExpectedRevision input) (bq_Pending input) now2)"
proof (cases "Option.bind (readAPIRequest request) (\<lambda>payload. map_option (\<lambda>input. (payload, input))
        (decodeCanonicalAPI abort_fields abort_json \<lparr>bq_ExpectedRevision = 0, bq_Pending = generation_zero\<rparr> payload))")
  case None
  then show ?thesis using assms by (simp add: server_abort_def)
next
  case (Some pi)
  obtain payload input where pi: "pi = (payload, input)" by (cases pi)
  have print: "readAPIRequest request = Some payload" "payload = json_print (abort_json input)"
    using Some pi by (auto simp: bind_eq_Some_conv dest: decodeCanonicalAPI_print)
  obtain r t where auth: "authorize s now request payload = (r, t)" by (cases "authorize s now request payload")
  note config = authorize_config [OF auth]
  have "\<exists>who nonce. r = Some (who, nonce) \<and> (pr_Role who = ''publisher'')"
  proof (rule ccontr)
    assume "\<not> ?thesis"
    then have "as_Store (snd (server_abort io s now now2 request)) = as_Store s"
      unfolding server_abort_def Some pi option.case prod.case Let_def auth
      by (auto simp: config split: option.split)
    then show False using assms by simp
  qed
  then obtain who nonce where who: "r = Some (who, nonce)" "pr_Role who = ''publisher''" by blast
  obtain e store where call: "gen_Abort io (as_Store s) (bq_ExpectedRevision input) (bq_Pending input) now2 = (e, store)" by fastforce
  have "as_Store (snd (server_abort io s now now2 request)) = store"
    unfolding server_abort_def Some pi option.case prod.case Let_def auth who(1) config call
    using who(2) by (auto split: option.split)
  then show ?thesis using that [OF print authorize_Some(1) [OF auth [unfolded who(1)]] who(2)] call by simp
qed

lemma server_ack_change:
  assumes "as_Store (snd (server_ack io io2 s now now2 request)) \<noteq> as_Store s"
  obtains payload input who nonce where "readAPIRequest request = Some payload" and "payload = json_print (ack_request_json input)"
    and "request_verified s now request payload = Some (who, nonce)" and "pr_Role who = ''controlplane'' \<or> pr_Role who = ''firmwareorigin''"
    and "as_Store (snd (server_ack io io2 s now now2 request)) = snd (gen_Acknowledge io io2 (as_Store s) (aq_ExpectedRevision input)
        \<lparr>rr_ID = pr_ID who, rr_Role = pr_Role who\<rparr> (aq_Generation input) (aq_Stage input) now2)"
proof (cases "Option.bind (readAPIRequest request) (\<lambda>payload. map_option (\<lambda>input. (payload, input))
        (decodeCanonicalAPI ack_request_fields ack_request_json \<lparr>aq_ExpectedRevision = 0, aq_Generation = generation_zero, aq_Stage = []\<rparr> payload))")
  case None
  then show ?thesis using assms by (simp add: server_ack_def)
next
  case (Some pi)
  obtain payload input where pi: "pi = (payload, input)" by (cases pi)
  have print: "readAPIRequest request = Some payload" "payload = json_print (ack_request_json input)"
    using Some pi by (auto simp: bind_eq_Some_conv dest: decodeCanonicalAPI_print)
  obtain r t where auth: "authorize s now request payload = (r, t)" by (cases "authorize s now request payload")
  note config = authorize_config [OF auth]
  have "\<exists>who nonce. r = Some (who, nonce) \<and> (pr_Role who = ''controlplane'' \<or> pr_Role who = ''firmwareorigin'')"
  proof (rule ccontr)
    assume "\<not> ?thesis"
    then have "as_Store (snd (server_ack io io2 s now now2 request)) = as_Store s"
      unfolding server_ack_def Some pi option.case prod.case Let_def auth
      by (auto simp: config split: option.split)
    then show False using assms by simp
  qed
  then obtain who nonce where who: "r = Some (who, nonce)" "pr_Role who = ''controlplane'' \<or> pr_Role who = ''firmwareorigin''" by blast
  obtain e store where call: "gen_Acknowledge io io2 (as_Store s) (aq_ExpectedRevision input)
        \<lparr>rr_ID = pr_ID who, rr_Role = pr_Role who\<rparr> (aq_Generation input) (aq_Stage input) now2 = (e, store)" by fastforce
  have "as_Store (snd (server_ack io io2 s now now2 request)) = store"
    unfolding server_ack_def Some pi option.case prod.case Let_def auth who(1) config call
    using who(2) by (auto split: option.split)
  then show ?thesis using that [OF print authorize_Some(1) [OF auth [unfolded who(1)]] who(2)] call by simp
qed

subsection \<open>Nonces\<close>

definition nonces_of :: "api_server \<Rightarrow> string \<Rightarrow> (string, wall_time) gomap" where
  "nonces_of s who = (case map_of (as_nonces s) who of None \<Rightarrow> [] | Some vs \<Rightarrow> vs)"

definition api_wf :: "api_server \<Rightarrow> bool" where
  "api_wf s \<longleftrightarrow> (\<forall>who. wf_map (nonces_of s who))"

lemma map_of_live:
  "wf_map m \<Longrightarrow> map_of (filter (\<lambda>(value, expires). expires > now) m) k =
     (case map_of m k of None \<Rightarrow> None | Some e \<Rightarrow> if e > (now :: int) then Some e else None)"
  by (simp add: map_of_filter_wf split: option.splits)

lemma reserveNonce_cases:
  fixes s who nonce now
  defines "live \<equiv> filter (\<lambda>(value, expires). expires > now) (nonces_of s who)"
  shows "(\<not> fst (reserveNonce s who nonce now) \<and> (map_of live nonce \<noteq> None \<or> 4096 \<le> length live) \<and>
      nonces_of (snd (reserveNonce s who nonce now)) = (nonces_of s)(who := live)) \<or>
    (fst (reserveNonce s who nonce now) \<and> map_of live nonce = None \<and> length live < 4096 \<and>
      nonces_of (snd (reserveNonce s who nonce now)) =
        (nonces_of s)(who := AList.update nonce (now + 2 * as_MaxClockSkew s) live))"
proof (cases "map_of live nonce \<noteq> None \<or> 4096 \<le> length live")
  case True
  then have "reserveNonce s who nonce now = (False, s\<lparr>as_nonces := AList.update who live (as_nonces s)\<rparr>)"
    unfolding reserveNonce_def Let_def nonces_of_def [symmetric] live_def [symmetric] by (rule if_P)
  then show ?thesis using True by (auto simp: nonces_of_def fun_eq_iff)
next
  case False
  then have "reserveNonce s who nonce now = (True, s\<lparr>as_nonces := AList.update who
      (AList.update nonce (now + 2 * as_MaxClockSkew s) live) (as_nonces s)\<rparr>)"
    unfolding reserveNonce_def Let_def nonces_of_def [symmetric] live_def [symmetric] by (rule if_not_P)
  then show ?thesis using False by (auto simp: nonces_of_def fun_eq_iff)
qed

lemma reserveNonce_wf:
  assumes "api_wf s"
  shows "api_wf (snd (reserveNonce s who nonce now))"
proof -
  have "wf_map (filter P (nonces_of s who))" for P
    using assms by (simp add: api_wf_def wf_map_filter)
  then show ?thesis using assms reserveNonce_cases [of s who nonce now] by (auto simp: api_wf_def distinct_update)
qed

lemma reserveNonce_keeps:
  assumes "api_wf s" and "map_of (nonces_of s w) n = Some e" and "now < e"
  shows "map_of (nonces_of (snd (reserveNonce s who nonce now)) w) n = Some e"
proof (cases "w = who")
  case True
  let ?live = "filter (\<lambda>(value, expires). expires > now) (nonces_of s who)"
  have live: "map_of ?live n = Some e" using assms True by (subst map_of_live) (simp_all add: api_wf_def)
  then have "map_of (AList.update nonce v ?live) n = Some e" if "map_of ?live nonce = None" for v
    using that by (cases "nonce = n") (simp_all del: map_of_eq_None_iff)
  with live True reserveNonce_cases [of s who nonce now] show ?thesis by (elim disjE conjE) simp_all
next
  case False
  then show ?thesis using assms(2) reserveNonce_cases [of s who nonce now] by auto
qed

lemma nonces_of_rejected [simp]: "nonces_of (auth_rejected s) = nonces_of s"
  by (simp add: auth_rejected_def nonces_of_def fun_eq_iff)

lemma authorize_nonces:
  "nonces_of (snd (authorize s now request payload)) = nonces_of s \<or>
   (\<exists>who nonce. nonces_of (snd (authorize s now request payload)) = nonces_of (snd (reserveNonce s who nonce now)))"
proof (cases "request_verified s now request payload")
  case (Some wn)
  obtain who nonce where wn: "wn = (who, nonce)" by (cases wn)
  have "nonces_of (snd (authorize s now request payload)) = nonces_of (snd (reserveNonce s (pr_ID who) nonce now))"
    by (cases "reserveNonce s (pr_ID who) nonce now") (simp add: authorize_def Some wn split: bool.split)
  then show ?thesis by blast
qed (simp add: authorize_def)

lemma api_step_nonces:
  assumes "api_step now ev s t"
  shows "nonces_of t = nonces_of s \<or> (\<exists>who nonce. nonces_of t = nonces_of (snd (reserveNonce s who nonce now)))"
proof -
  have same: "nonces_of v = nonces_of u" if "same_auth u v" for u v using that by (simp add: same_auth_def nonces_of_def fun_eq_iff)
  from api_step_auth [OF assms] show ?thesis
  proof (elim disjE exE)
    fix request payload
    assume "same_auth (snd (authorize s now request payload)) t"
    from same [OF this] authorize_nonces [of s now request payload] show ?thesis by auto
  qed (simp add: same)
qed

lemma api_step_skew:
  assumes "api_step now ev s t"
  shows "as_MaxClockSkew t = as_MaxClockSkew s" and "as_Publisher t = as_Publisher s" and "as_Replicas t = as_Replicas s"
proof -
  have "as_MaxClockSkew t = as_MaxClockSkew s \<and> as_Publisher t = as_Publisher s \<and> as_Replicas t = as_Replicas s"
    using api_step_auth [OF assms]
  proof (elim disjE exE)
    fix request payload
    assume "same_auth (snd (authorize s now request payload)) t"
    with authorize_config(4-6) [of s now request payload "fst (authorize s now request payload)" "snd (authorize s now request payload)"]
    show ?thesis by (simp add: same_auth_def)
  qed (simp add: same_auth_def)
  then show "as_MaxClockSkew t = as_MaxClockSkew s" "as_Publisher t = as_Publisher s" "as_Replicas t = as_Replicas s" by auto
qed

lemma api_step_wf: "api_step now ev s t \<Longrightarrow> api_wf s \<Longrightarrow> api_wf t"
  using api_step_nonces [of now ev s t] reserveNonce_wf [of s] by (auto simp: api_wf_def)

lemma api_step_keeps:
  "api_step now ev s t \<Longrightarrow> api_wf s \<Longrightarrow> map_of (nonces_of s w) n = Some e \<Longrightarrow> now < e \<Longrightarrow> map_of (nonces_of t w) n = Some e"
  using api_step_nonces [of now ev s t] reserveNonce_keeps [of s w n e now] by auto

lemma api_steps_keep:
  assumes "api_steps_until u s t" and "api_wf s"
  shows "api_wf t" and "as_MaxClockSkew t = as_MaxClockSkew s"
    and "map_of (nonces_of s w) n = Some e \<Longrightarrow> u < e \<Longrightarrow> map_of (nonces_of t w) n = Some e"
proof -
  have "api_wf t \<and> as_MaxClockSkew t = as_MaxClockSkew s \<and>
      (map_of (nonces_of s w) n = Some e \<longrightarrow> u < e \<longrightarrow> map_of (nonces_of t w) n = Some e)"
    using assms(1) unfolding api_steps_until_def
  proof (induction rule: rtranclp_induct)
    case (step t v)
    then obtain now ev where now: "now \<le> u" and t: "api_step now ev t v" by blast
    from step.IH now show ?case using api_step_wf [OF t] api_step_skew(1) [OF t] api_step_keeps [OF t, of w n e] by auto
  qed (simp add: assms(2))
  then show "api_wf t" "as_MaxClockSkew t = as_MaxClockSkew s"
    "map_of (nonces_of s w) n = Some e \<Longrightarrow> u < e \<Longrightarrow> map_of (nonces_of t w) n = Some e" by auto
qed

text \<open>A nonce that is on record is reserved again only after it expired.\<close>

lemma nonce_expired:
  assumes "api_wf s" and "map_of (nonces_of s who) nonce = Some e" and "api_steps_until now s t"
    and "reserveNonce t who nonce now = (True, t')"
  shows "e \<le> now"
proof (rule ccontr)
  assume early: "\<not> e \<le> now"
  then have held: "map_of (nonces_of t who) nonce = Some e" using api_steps_keep(3) [OF assms(3,1,2)] by simp
  have "wf_map (nonces_of t who)" using api_steps_keep(1) [OF assms(3,1)] by (simp add: api_wf_def)
  from map_of_live [OF this, of now nonce] held early
  have "map_of (filter (\<lambda>(value, expires). expires > now) (nonces_of t who)) nonce \<noteq> None" by simp
  then show False using reserveNonce_cases [of t who nonce now] assms(4) by auto
qed

subsection \<open>Timestamps\<close>

lemma json_int_inject: "json_int i = json_int j \<longleftrightarrow> i = j"
  by (metis literal_int_json option.inject)

lemma json_int_ne: "json_int i \<noteq> []"
  using json_nat_digits by (simp add: json_int_def)

lemma parse_int64_json: "in_int64 i \<Longrightarrow> parse_int64 (json_int i) = Some i"
proof (cases "i < 0")
  case True
  assume "in_int64 i"
  moreover have "json_int i = CHR ''-'' # json_nat (nat (- i))" using True by (simp add: json_int_def)
  ultimately show ?thesis using True json_nat_digits [of "nat (- i)"] by (simp add: parse_int64_def Let_def)
next
  case False
  assume i: "in_int64 i"
  have plain: "json_int i = json_nat (nat i)" using False by (simp add: json_int_def)
  obtain c cs where c: "json_nat (nat i) = c # cs" using json_nat_digits [of "nat i"] by (cases "json_nat (nat i)") auto
  then have "is_digit c" using hd_json_nat [of "nat i"] by simp
  then have "c \<noteq> CHR ''-''" "c \<noteq> CHR ''+''" by (auto simp: is_digit_def)
  then show ?thesis
    using False i json_nat_digits [of "nat i"] digits_value_nat [of "nat i"]
    unfolding plain c parse_int64_def by (simp add: Let_def)
qed

lemma time_Unix_wall: "in_int64 ts \<Longrightarrow> ts < 2 ^ 62 + 2 ^ 61 \<Longrightarrow> wall (time_Unix ts) = wall_of_unix ts"
  by (simp add: time_Unix_def wall_of_unix_def in_int64_def i64_id)

lemma fresh_window:
  assumes "absDuration (time_sub \<lparr>wall = now, mono = None\<rparr> (time_Unix ts)) \<le> skew" and "in_int64 ts"
    and "unix_of_wall now < 2 ^ 62" and "wall_of_unix ts - now < 2 ^ 63" and "skew < 2 ^ 62"
  shows "wall_of_unix ts - skew \<le> now" and "now \<le> wall_of_unix ts + skew"
proof -
  have "now div second < 2 ^ 62 + 62135596800" using assms(3) by (simp add: unix_of_wall_def)
  then have "now < (2 ^ 62 + 62135596800) * second" by (simp add: div_less_iff_less_mult)
  then have "ts < 2 ^ 62 + 2 ^ 61" using assms(4) by (simp add: wall_of_unix_def)
  then have "time_sub \<lparr>wall = now, mono = None\<rparr> (time_Unix ts) = saturate64 (now - wall_of_unix ts)"
    using time_Unix_wall [OF assms(2)] by (simp add: time_sub_def)
  with assms(1) have le: "absDuration (saturate64 (now - wall_of_unix ts)) \<le> skew" by simp
  show "wall_of_unix ts - skew \<le> now" "now \<le> wall_of_unix ts + skew"
    using le assms(4,5) by (auto simp: absDuration_def saturate64_def max_int64_def i64_id max_def min_def split: if_splits)
qed

lemma stale_future:
  assumes "2 ^ 63 \<le> wall_of_unix ts - now" and "in_int64 ts" and "ts < 2 ^ 62 + 2 ^ 61" and "0 \<le> skew"
  shows "absDuration (time_sub \<lparr>wall = now, mono = None\<rparr> (time_Unix ts)) \<le> skew"
proof -
  have "time_sub \<lparr>wall = now, mono = None\<rparr> (time_Unix ts) = - (2 ^ 63)"
    using time_Unix_wall [OF assms(2,3)] assms(1) by (simp add: time_sub_def saturate64_def)
  moreover have "absDuration (- (2 ^ 63)) = - (2 ^ 63)" by (simp add: absDuration_def i64_def)
  ultimately show ?thesis using assms(4) by simp
qed

subsection \<open>The client's requests\<close>

lemmas header_defs = HeaderPrincipal_def HeaderTimestamp_def HeaderNonce_def HeaderSignature_def

lemma client_headers:
  fixes who nb c meth path payload
  defines "r \<equiv> client_request_of who nb c meth path payload"
  assumes "pr_ID who \<noteq> []" and "nb \<noteq> []"
  shows "singleAPIHeader r HeaderPrincipal = Some (pr_ID who)" and "singleAPIHeader r HeaderTimestamp = Some (json_int (unix_of_wall c))"
    and "singleAPIHeader r HeaderNonce = Some (b64_encode nb)"
    and "singleAPIHeader r HeaderSignature = Some (b64_encode (hmac_sha256 (pr_Key who) (bytes_of (canonicalAPIRequest (pr_ID who) meth path
      (json_int (unix_of_wall c)) (b64_encode nb) (payload_digest (case payload of None \<Rightarrow> [] | Some b \<Rightarrow> b))))))"
    and "rq_URL r = Some (path, [])" and "rq_Method r = meth" and "rq_TransferEncoding r = []"
    and "rq_ContentLength r = int (length (case payload of None \<Rightarrow> [] | Some b \<Rightarrow> b))"
proof -
  have sig: "b64_encode (hmac_sha256 k m) \<noteq> []" for k m
  proof -
    have "length (b64_encode (hmac_sha256 k m)) = 43" by (simp add: length_b64_encode)
    then show ?thesis by force
  qed
  have nonce: "b64_encode nb \<noteq> []" using assms(3) length_b64_encode [of nb] by (cases nb) force+
  show "singleAPIHeader r HeaderPrincipal = Some (pr_ID who)" "singleAPIHeader r HeaderTimestamp = Some (json_int (unix_of_wall c))"
    "singleAPIHeader r HeaderNonce = Some (b64_encode nb)"
    "singleAPIHeader r HeaderSignature = Some (b64_encode (hmac_sha256 (pr_Key who) (bytes_of (canonicalAPIRequest (pr_ID who) meth path
      (json_int (unix_of_wall c)) (b64_encode nb) (payload_digest (case payload of None \<Rightarrow> [] | Some b \<Rightarrow> b))))))"
    using assms(2) sig nonce json_int_ne
    by (simp_all add: r_def client_request_of_def Let_def singleAPIHeader_def header_values_def header_defs)
  show "rq_URL r = Some (path, [])" "rq_Method r = meth" "rq_TransferEncoding r = []"
    "rq_ContentLength r = int (length (case payload of None \<Rightarrow> [] | Some b \<Rightarrow> b))"
    by (simp_all add: r_def client_request_of_def Let_def)
qed

lemma client_request_verified:
  assumes "server_principal s (pr_ID who) = Some who" and "pr_ID who \<noteq> []" and "length nb = 16" and "in_int64 (unix_of_wall c)"
    and "meth = ''GET'' \<Longrightarrow> payload = None"
    and "absDuration (time_sub \<lparr>wall = now, mono = None\<rparr> (time_Unix (unix_of_wall c))) \<le> as_MaxClockSkew s"
  shows "request_verified s now (client_request_of who nb c meth path payload) (case payload of None \<Rightarrow> [] | Some b \<Rightarrow> b) =
    Some (who, b64_encode nb)"
proof -
  have "nb \<noteq> []" using assms(3) by auto
  note h = client_headers [OF assms(2) this]
  show ?thesis
    unfolding request_verified_def h using assms parse_int64_json [OF assms(4)]
    by (simp add: not_less)
qed

lemma authorize_fresh:
  assumes "request_verified s now request payload = Some (who, nonce)" and "api_wf s"
    and "case map_of (nonces_of s (pr_ID who)) nonce of None \<Rightarrow> True | Some e \<Rightarrow> e \<le> now"
    and "length (nonces_of s (pr_ID who)) < 4096"
  shows "\<exists>t. authorize s now request payload = (Some (who, nonce), t) \<and> reserveNonce s (pr_ID who) nonce now = (True, t)"
proof -
  let ?live = "filter (\<lambda>(value, expires). expires > now) (nonces_of s (pr_ID who))"
  have wf: "wf_map (nonces_of s (pr_ID who))" using assms(2) by (simp add: api_wf_def)
  have "map_of ?live nonce = None"
    unfolding map_of_live [OF wf] using assms(3) by (cases "map_of (nonces_of s (pr_ID who)) nonce") simp_all
  moreover have "length ?live < 4096" using length_filter_le order_le_less_trans assms(4) by blast
  ultimately have "fst (reserveNonce s (pr_ID who) nonce now)" using reserveNonce_cases [of s "pr_ID who" nonce now] by auto
  then obtain t where "reserveNonce s (pr_ID who) nonce now = (True, t)" by (metis prod.collapse)
  then show ?thesis by (simp add: authorize_def assms(1))
qed

subsection \<open>Views on the wire\<close>

lemma view_json_roundtrip:
  assumes "in_int64 (sv_Schema v)" and "in_int64 (sv_PrepareDeadline v)" and "in_int64 (sv_DrainUntil v)"
    and "in_int64 (sv_CommitDeadline v)" and "in_int64 (sv_UpdatedAt v)"
    and "\<forall>a \<in> set (slice_list (sv_Acknowledgements v)). in_int64 (ak_AcknowledgedAt a)"
  shows "json_struct True view_fields (view_json v) z = Some v"
proof -
  have "json_to_slice json_to_ack ack_zero (json_slice ack_json (sv_Acknowledgements v)) old = Some (sv_Acknowledgements v)" for old
    by (rule acks_json_roundtrip) (use assms(6) in simp)
  with assms show ?thesis
    by (simp add: view_json_def json_struct_def view_fields_def json_field_def in_int64_def)
qed

text \<open>The view of a store, and what validation knows of the state it shows.\<close>

abbreviation store_view :: "gen_store \<Rightarrow> state_view" where
  "store_view S \<equiv> stateView (fst (gen_Snapshot S)) (snd (gen_Snapshot S))"

lemma slice_list_clone [simp]: "slice_list (slice_clone xs) = slice_list xs"
  by (cases xs) (auto simp: slice_clone_def split: list.splits)

lemma store_view_simps [simp]:
  "sv_Schema (store_view S) = gs_Schema (st_state S)" "sv_Revision (store_view S) = gs_Revision (st_state S)"
  "sv_RecordSHA256 (store_view S) = st_digest S" "sv_Phase (store_view S) = gs_Phase (st_state S)"
  "sv_Active (store_view S) = gs_Active (st_state S)" "sv_Pending (store_view S) = gs_Pending (st_state S)"
  "slice_list (sv_RequiredReplicas (store_view S)) = gs_replicas (st_state S)"
  "slice_list (sv_Acknowledgements (store_view S)) = gs_acks (st_state S)"
  "sv_PrepareDeadline (store_view S) = gs_PrepareDeadline (st_state S)" "sv_DrainUntil (store_view S) = gs_DrainUntil (st_state S)"
  "sv_CommitDeadline (store_view S) = gs_CommitDeadline (st_state S)" "sv_UpdatedAt (store_view S) = gs_UpdatedAt (st_state S)"
  by (simp_all add: stateView_def gen_Snapshot_def cloneState_def)

lemma json_ok_view:
  assumes "validateState (st_state S)" and "gen_validSHA256 (st_digest S)"
  shows "json_ok 3 (view_json (store_view S))"
proof -
  note D = validateStateD [OF assms(1)]
  have "json_ok (Suc (Suc 0)) (json_pointer generation_json (gs_Pending (st_state S)))"
    using gen_phase_ok_pending [OF D(12) _ D(4)] json_ok_generation
    by (cases "gs_Pending (st_state S)") (auto simp: json_pointer_def)
  moreover have "json_ok (Suc (Suc 0)) (json_slice replica_json (sv_RequiredReplicas (store_view S)))"
    using json_ok_replica [OF D(5)] store_view_simps(7) [of S]
    by (cases "sv_RequiredReplicas (store_view S)") (auto simp: json_slice_def list_all_iff)
  moreover have "json_ok (Suc (Suc 0)) (json_slice ack_json (sv_Acknowledgements (store_view S)))"
    using json_ok_ack [OF D(10) D(5)] store_view_simps(8) [of S]
    by (cases "sv_Acknowledgements (store_view S)") (auto simp: json_slice_def list_all_iff)
  moreover have "ascii (gs_Phase (st_state S))" using D(12) by (cases rule: gen_phase_cases) (simp_all add: phase_defs)
  ultimately show ?thesis
    using D(4) assms(2) json_ok_generation
    by (simp add: view_json_def numeral_3_eq_3 gen_validSHA256_ascii)
qed

lemma gen_ack_ok_cong:
  "gs_Phase s = gs_Phase t \<Longrightarrow> gs_Active s = gs_Active t \<Longrightarrow> gs_Pending s = gs_Pending t \<Longrightarrow> gs_replicas s = gs_replicas t \<Longrightarrow>
   gs_UpdatedAt s = gs_UpdatedAt t \<Longrightarrow> gen_ack_ok s = gen_ack_ok t"
  by (simp add: gen_ack_ok_def fun_eq_iff)

lemma view_valid:
  assumes "validateState (st_state S)" and "gen_validSHA256 (st_digest S)"
  shows "validateStateView (store_view S)"
proof -
  note D = validateStateD [OF assms(1)]
  define v where "v = store_view S"
  define T where "T = \<lparr>gs_Schema = sv_Schema v, gs_Revision = sv_Revision v, gs_PreviousRecordSHA256 = zeroDigest,
        gs_Phase = sv_Phase v, gs_Active = sv_Active v, gs_Pending = sv_Pending v, gs_RequiredReplicas = sv_RequiredReplicas v,
        gs_Acknowledgements = sv_Acknowledgements v, gs_PrepareDeadline = sv_PrepareDeadline v, gs_DrainUntil = sv_DrainUntil v,
        gs_CommitDeadline = sv_CommitDeadline v, gs_UpdatedAt = sv_UpdatedAt v, gs_RecordHMACB64URL = []\<rparr>"
  have T: "gs_Schema T = 1" "gs_Revision T = gs_Revision (st_state S)" "gs_PreviousRecordSHA256 T = zeroDigest"
    "gs_Phase T = gs_Phase (st_state S)" "gs_Active T = gs_Active (st_state S)" "gs_Pending T = gs_Pending (st_state S)"
    "gs_replicas T = gs_replicas (st_state S)" "gs_acks T = gs_acks (st_state S)"
    "gs_PrepareDeadline T = gs_PrepareDeadline (st_state S)" "gs_DrainUntil T = gs_DrainUntil (st_state S)"
    "gs_CommitDeadline T = gs_CommitDeadline (st_state S)" "gs_UpdatedAt T = gs_UpdatedAt (st_state S)" "gs_RecordHMACB64URL T = []"
    using D(1) by (simp_all add: T_def v_def)
  have acks: "gen_ack_ok T = gen_ack_ok (st_state S)" by (rule gen_ack_ok_cong) (simp_all add: T)
  have phase: "gen_phase_ok T = gen_phase_ok (st_state S)"
    unfolding gen_phase_ok_def gen_validPending_def allAcknowledged_def T by (rule refl)
  have zero: "gen_validSHA256 zeroDigest" by code_simp
  have "validateState T"
    unfolding validateState_def T gen_acks_loop_iff acks phase
    using D zero by (auto simp: gen_hmac_field_ok_def)
  then show ?thesis
    unfolding validateStateView_def v_def [symmetric] T_def [symmetric]
    using D assms(2) by (simp add: v_def)
qed

lemma client_receive_signed:
  assumes "validateState (st_state (as_Store s))" and "state_typed (st_state (as_Store s))" and "gen_validSHA256 (st_digest (as_Store s))"
    and "length (json_print (view_json (store_view (as_Store s)))) < maximumAPIBytes"
  shows "client_receive who nonce (writeSignedState s 200 who nonce) = Inr (store_view (as_Store s))"
proof -
  let ?v = "store_view (as_Store s)"
  let ?body = "json_print (view_json ?v) @ [CHR 0x0A]"
  have body: "ar_Body (writeSignedState s 200 who nonce) = ?body" "ar_Status (writeSignedState s 200 who nonce) = 200"
    "ar_Signature (writeSignedState s 200 who nonce) = b64_encode (hmac_sha256 (pr_Key who) (bytes_of
       (canonicalAPIResponse (pr_ID who) nonce 200 (payload_digest ?body))))"
    by (simp_all add: writeSignedState_def gen_Snapshot_def Let_def)
  have take: "take (maximumAPIBytes + 1) ?body = ?body" using assms(4) by simp
  have parse: "json_parse ?body = Some (view_json ?v)"
    by (rule json_parse_print [OF json_ok_view [OF assms(1,3)]]) (simp_all add: json_max_depth_def)
  have struct: "json_struct True view_fields (view_json ?v) view_zero = Some ?v"
    using assms(2) by (intro view_json_roundtrip) (simp_all add: state_typed_def)
  show ?thesis
    unfolding client_receive_def body take Let_def
    using assms(4) parse struct view_valid [OF assms(1,3)] by (simp del: store_view_simps)
qed

subsection \<open>Large views\<close>

lemma length_quote_char: "1 \<le> length (json_quote_char c)"
  by (simp add: json_quote_char_def Let_def)

lemma length_quote_ge: "ascii t \<Longrightarrow> length t + 2 \<le> length (json_quote t)"
proof -
  assume "ascii t"
  then have "length t \<le> length (json_quote_body t)"
  proof (induction t)
    case (Cons c t)
    then show ?case using length_quote_char [of c] by simp
  qed simp
  then show ?thesis by (simp add: json_quote_def)
qed

lemma length_join_ge: "sum_list (map length xs) \<le> length (json_join xs)"
  by (induction xs rule: json_join.induct) simp_all

lemma sum_list_ge: "(\<And>x. x \<in> set xs \<Longrightarrow> b \<le> f x) \<Longrightarrow> length xs * b \<le> sum_list (map f xs)" for f :: "_ \<Rightarrow> nat"
proof (induction xs)
  case (Cons x xs)
  then have "b \<le> f x" "length xs * b \<le> sum_list (map f xs)" by auto
  then show ?case by simp
qed simp

lemma length_slice_ge:
  assumes "\<And>x. x \<in> set (slice_list xs) \<Longrightarrow> b \<le> length (json_print (f x))"
  shows "length (slice_list xs) * b \<le> length (json_print (json_slice f xs))"
proof (cases xs)
  case (Some ys)
  have "length ys * b \<le> sum_list (map (\<lambda>x. length (json_print (f x))) ys)" using assms Some by (intro sum_list_ge) simp
  also have "\<dots> = sum_list (map length (map json_print (map f ys)))" by (simp add: comp_def)
  also have "\<dots> \<le> length (json_join (map json_print (map f ys)))" by (rule length_join_ge)
  finally show ?thesis using Some by (simp add: json_slice_def)
qed (simp add: json_slice_def)

lemma ack_size_ge:
  assumes "gen_ack_ok s [] a" and "gen_validReplicas (gs_replicas s)"
  shows "180 + length (ak_ReplicaID a) \<le> length (json_print (ack_json a))"
proof -
  have "\<lparr>rr_ID = ak_ReplicaID a, rr_Role = ak_Role a\<rparr> \<in> set (gs_replicas s)"
    using assms(1) by (auto simp: gen_ack_ok_def containsReplica_def list_ex_iff)
  from gen_validReplicasD(4,5) [OF assms(2) this]
  have "ascii (ak_ReplicaID a)" "ascii (ak_Role a) \<and> 12 \<le> length (ak_Role a)" by (auto dest: ValidIdentifier_ascii)
  moreover have "ascii (ak_Stage a) \<and> 6 \<le> length (ak_Stage a)" using assms(1) by (auto simp: gen_ack_ok_def stage_defs)
  moreover have "ascii (ak_GenerationID a) \<and> 1 \<le> length (ak_GenerationID a)"
    using assms(1) by (auto simp: gen_ack_ok_def Suc_le_eq dest: ValidIdentifier_ascii ValidIdentifier_nonempty)
  moreover have "ascii (ak_ReceiptSHA256 a) \<and> length (ak_ReceiptSHA256 a) = 64"
    using assms(1) by (auto simp: gen_ack_ok_def dest: gen_validSHA256_ascii gen_validSHA256_length)
  moreover have "1 \<le> length (json_int (ak_AcknowledgedAt a))" using json_int_ne [of "ak_AcknowledgedAt a"] by (simp add: Suc_le_eq)
  moreover note length_quote_ge [of "ak_ReplicaID a"] length_quote_ge [of "ak_Role a"] length_quote_ge [of "ak_Stage a"]
    length_quote_ge [of "ak_GenerationID a"] length_quote_ge [of "ak_ReceiptSHA256 a"]
    length_quote_ge [of "''replica_id''"] length_quote_ge [of "''role''"] length_quote_ge [of "''stage''"]
    length_quote_ge [of "''generation_id''"] length_quote_ge [of "''receipt_sha256''"] length_quote_ge [of "''acknowledged_at''"]
  ultimately show ?thesis by (simp add: ack_json_def)
qed

lemma replica_size_ge:
  assumes "gen_validReplicas rs" and "r \<in> set rs"
  shows "39 + length (rr_ID r) \<le> length (json_print (replica_json r))"
proof -
  have "ascii (rr_ID r)" "ascii (rr_Role r) \<and> 12 \<le> length (rr_Role r)"
    using gen_validReplicasD(4,5) [OF assms] by (auto dest: ValidIdentifier_ascii)
  with length_quote_ge [of "rr_ID r"] length_quote_ge [of "rr_Role r"] length_quote_ge [of "''replica_id''"]
    length_quote_ge [of "''role''"] show ?thesis by (simp add: replica_json_def)
qed

lemma large_view:
  assumes "validateState (st_state S)" and "length (gs_replicas (st_state S)) = 64" and "length (gs_acks (st_state S)) = 64"
    and "\<forall>r \<in> set (gs_replicas (st_state S)). 20 \<le> length (rr_ID r)" and "\<forall>a \<in> set (gs_acks (st_state S)). 20 \<le> length (ak_ReplicaID a)"
  shows "maximumAPIBytes < length (json_print (view_json (store_view S)))"
proof -
  note D = validateStateD [OF assms(1)]
  have "200 \<le> length (json_print (ack_json a))" if "a \<in> set (gs_acks (st_state S))" for a
    using ack_size_ge [OF D(10) [OF that] D(5)] assms(5) that by force
  then have "64 * 200 \<le> length (json_print (json_slice ack_json (sv_Acknowledgements (store_view S))))"
    using length_slice_ge [of "sv_Acknowledgements (store_view S)" 200 ack_json] assms(3) by simp
  moreover have "59 \<le> length (json_print (replica_json r))" if "r \<in> set (gs_replicas (st_state S))" for r
    using replica_size_ge [OF D(5) that] assms(4) that by force
  then have "64 * 59 \<le> length (json_print (json_slice replica_json (sv_RequiredReplicas (store_view S))))"
    using length_slice_ge [of "sv_RequiredReplicas (store_view S)" 59 replica_json] assms(2) by simp
  ultimately show ?thesis by (simp add: view_json_def maximumAPIBytes_def)
qed

end
