(* ===== verification/GenService.thy ===== *)
theory GenService
  imports GenApiSafety
begin

text \<open>
  The properties of the coordinator's HTTP interface, with a server, a client and a large fleet on which they apply.
\<close>

section \<open>Lemmas\<close>

definition principal_ok :: "string \<times> gen_principal \<Rightarrow> bool" where
  "principal_ok = (\<lambda>(i, p). pr_ID p = i \<and> (pr_Role p = ''controlplane'' \<or> pr_Role p = ''firmwareorigin''))"

lemma registry_entries_ok:
  "registry_entries es seen prior R = Some R' \<Longrightarrow> list_all principal_ok (rp_identities R) \<Longrightarrow> list_all principal_ok (rp_identities R')"
proof (induction es arbitrary: seen prior R)
  case (Cons e es)
  from Cons.prems(1) obtain key where new: "map_of (rp_identities R) (ri_ReplicaID e) = None"
      "ri_Role e = ''controlplane'' \<or> ri_Role e = ''firmwareorigin''"
    and rest: "registry_entries es (seen @ [key]) (ri_ReplicaID e)
      \<lparr>rp_identities = AList.update (ri_ReplicaID e) \<lparr>pr_ID = ri_ReplicaID e, pr_Role = ri_Role e, pr_Key = key\<rparr> (rp_identities R),
       rp_references = rp_references R @ [\<lparr>rr_ID = ri_ReplicaID e, rr_Role = ri_Role e\<rparr>]\<rparr> = Some R'"
    by (auto split: if_splits option.splits simp del: map_of_eq_None_iff)
  from Cons.IH [OF rest] show ?case
    using Cons.prems(2) new by (simp add: update_new principal_ok_def)
qed simp

lemma LoadReplicaRegistry_ok:
  assumes "LoadReplicaRegistry document = Some R" and "registry_Principal R i = Some p"
  shows "pr_ID p = i" and "pr_Role p = ''controlplane'' \<or> pr_Role p = ''firmwareorigin''"
proof -
  from assms(1) obtain es R0 where "registry_entries es [] [] \<lparr>rp_identities = [], rp_references = []\<rparr> = Some R0"
    and "rp_identities R = rp_identities R0"
    by (auto simp: LoadReplicaRegistry_def Let_def split: if_splits option.splits)
  then have "list_all principal_ok (rp_identities R)" using registry_entries_ok by fastforce
  moreover have "(i, p) \<in> set (rp_identities R)" using assms(2) by (auto simp: registry_Principal_def dest: map_of_SomeD)
  ultimately show "pr_ID p = i" "pr_Role p = ''controlplane'' \<or> pr_Role p = ''firmwareorigin''"
    by (auto simp: list_all_iff principal_ok_def)
qed

lemma api_steps_config: "api_steps_until u s t \<Longrightarrow> as_Publisher t = as_Publisher s \<and> as_Replicas t = as_Replicas s"
  unfolding api_steps_until_def
  by (induction rule: rtranclp_induct) (auto simp: api_step_skew)

lemma NewServer_config:
  assumes "NewServer store publisher R pt ct skew = Some s"
  shows "as_Publisher s = publisher" and "as_Replicas s = R" and "as_Store s = store" and "as_MaxClockSkew s = skew"
    and "as_nonces s = []" and "pr_Role publisher = ''publisher''" and "5 * second \<le> skew" and "skew \<le> 5 * minute"
    and "pr_ID publisher \<noteq> []"
  using assms by (auto simp: NewServer_def split: if_splits)

lemma api_steps_wf:
  assumes "NewServer store publisher R pt ct skew = Some s0" and "api_steps_until u s0 s"
  shows "api_wf s" and "as_MaxClockSkew s = skew" and "as_Publisher s = publisher" and "as_Replicas s = R"
proof -
  have "api_wf s0" using NewServer_config(5) [OF assms(1)] by (simp add: api_wf_def nonces_of_def)
  from api_steps_keep(1,2) [OF assms(2) this] api_steps_config [OF assms(2)] NewServer_config [OF assms(1)]
  show "api_wf s" "as_MaxClockSkew s = skew" "as_Publisher s = publisher" "as_Replicas s = R" by simp_all
qed

text \<open>A verified request was signed by the principal it names, who is the publisher or a registered replica.\<close>

lemma verified_principal:
  assumes "LoadReplicaRegistry document = Some R" and "NewServer store publisher R pt ct skew = Some s0"
    and "api_steps_until u s0 s" and "request_verified s now request payload = Some (who, nonce)"
  shows "signed_by who request payload"
    and "who = publisher \<and> pr_Role who = ''publisher'' \<or>
      registry_Principal R (pr_ID who) = Some who \<and> pr_Role who \<noteq> ''publisher''"
proof -
  note config = api_steps_wf(3,4) [OF assms(2,3)] and reg = LoadReplicaRegistry_ok [OF assms(1)]
  have "principals_wf s"
    using reg(1) by (auto simp: principals_wf_def server_principal_def config split: if_splits)
  then obtain i where i: "server_principal s i = Some who" and "signed_by who request payload"
    using request_verified_facts [OF assms(4)] by metis
  then show "signed_by who request payload" by simp
  show "who = publisher \<and> pr_Role who = ''publisher'' \<or>
      registry_Principal R (pr_ID who) = Some who \<and> pr_Role who \<noteq> ''publisher''"
  proof (cases "i = pr_ID publisher")
    case True
    then show ?thesis using i NewServer_config(6) [OF assms(2)] by (simp add: server_principal_def config)
  next
    case False
    then have "registry_Principal R i = Some who" using i by (simp add: server_principal_def config)
    from this reg [OF this] show ?thesis by auto
  qed
qed

lemma gen_wf_valid:
  assumes "gen_wf S"
  shows "validateState (st_state S)" and "state_typed (st_state S)" and "gen_validSHA256 (st_digest S)"
proof -
  from assms obtain hs m where at: "gen_at hs m S" by (auto simp: gen_wf_def)
  from gen_atD(6,7) [OF at] show "validateState (st_state S)" "state_typed (st_state S)" by simp_all
  have "st_digest S = hex_encode (sha256 (bytes_of (state_payload (hs ! m))))" using at by (simp add: gen_at_def payload_digest_def)
  then show "gen_validSHA256 (st_digest S)" by (simp add: gen_validSHA256_iff hex_encode_valid)
qed

section \<open>Examples\<close>

definition ex_suffix :: string where "ex_suffix = ''-ota-release-replica''"

definition ex_many_id :: "nat \<Rightarrow> string" where
  "ex_many_id k = char_of (48 + k div 10) # char_of (48 + k mod 10) # ex_suffix"

definition ex_many_role :: "nat \<Rightarrow> string" where
  "ex_many_role k = (if k < 32 then ''controlplane'' else ''firmwareorigin'')"

text \<open>A draining state with 64 replicas, all prepared.\<close>

definition ex_many :: gen_state where
  "ex_many = \<lparr>gs_Schema = 1, gs_Revision = 67, gs_PreviousRecordSHA256 = zeroDigest, gs_Phase = PhaseDraining, gs_Active = ex_gen1,
     gs_Pending = Some ex_gen2,
     gs_RequiredReplicas = Some (map (\<lambda>k. \<lparr>rr_ID = ex_many_id k, rr_Role = ex_many_role k\<rparr>) [0..<64]),
     gs_Acknowledgements = Some (map (\<lambda>k. \<lparr>ak_ReplicaID = ex_many_id k, ak_Role = ex_many_role k, ak_Stage = AckPrepared,
       ak_GenerationID = gn_ID ex_gen2, ak_ReceiptSHA256 = gn_ReceiptSHA256 ex_gen2, ak_AcknowledgedAt = 1760000000\<rparr>) [0..<64]),
     gs_PrepareDeadline = 0, gs_DrainUntil = 1760000010, gs_CommitDeadline = 60, gs_UpdatedAt = 1760000000, gs_RecordHMACB64URL = []\<rparr>"

lemma char_of_less: "m < 256 \<Longrightarrow> n < 256 \<Longrightarrow> (char_of (m :: nat) :: char) < char_of n \<longleftrightarrow> m < n"
  by (simp add: less_char_def)

lemma two_digits: "k div 10 < l div 10 \<or> k div 10 = l div 10 \<and> k mod 10 \<le> l mod 10 \<longleftrightarrow> k \<le> (l :: nat)"
proof -
  have "k = 10 * (k div 10) + k mod 10" "l = 10 * (l div 10) + l mod 10" "k mod 10 < 10" "l mod 10 < 10" by simp_all
  then show ?thesis by linarith
qed

lemma ex_many_digits:
  assumes "k < 64" and "l < 64"
  shows "ex_many_id k \<le> ex_many_id l \<longleftrightarrow> k \<le> l"
proof -
  have *: "48 + k div 10 < 256" "48 + k mod 10 < 256" "48 + l div 10 < 256" "48 + l mod 10 < 256"
    using assms by simp_all
  have "ex_many_id k \<le> ex_many_id l \<longleftrightarrow>
      48 + k div 10 < 48 + l div 10 \<or> 48 + k div 10 = 48 + l div 10 \<and> (48 + k mod 10 < 48 + l mod 10 \<or> 48 + k mod 10 = 48 + l mod 10)"
    unfolding ex_many_id_def Cons_le_Cons char_of_less [OF *(1,3)] char_of_less [OF *(2,4)]
      char_of_eq_iff_nat [OF *(1,3)] char_of_eq_iff_nat [OF *(2,4)] by (simp only: order_refl simp_thms)
  also have "\<dots> \<longleftrightarrow> k div 10 < l div 10 \<or> k div 10 = l div 10 \<and> k mod 10 \<le> l mod 10" by linarith
  also have "\<dots> \<longleftrightarrow> k \<le> l" by (rule two_digits)
  finally show ?thesis .
qed

lemma ex_many_ident: "k < 64 \<Longrightarrow> ValidIdentifier (ex_many_id k) 64"
proof -
  assume "k < 64"
  then have "k div 10 < 10" "k mod 10 \<le> 9" by auto
  then show ?thesis by (simp add: ex_many_id_def ex_suffix_def ValidIdentifier_def ident_char_def Let_def)
qed

lemma ex_many_sorted: "sorted (map ex_many_id [0..<64])" and ex_many_distinct: "distinct (map ex_many_id [0..<64])"
proof -
  show "sorted (map ex_many_id [0..<64])"
    by (rule sorted_wrt_map_mono [of "(<)", THEN sorted_wrt_mono_rel [rotated]]) (auto simp: ex_many_digits)
  have "k = l" if "k < 64" "l < 64" "ex_many_id k = ex_many_id l" for k l
    using that ex_many_digits [of k l] ex_many_digits [of l k] by simp
  then show "distinct (map ex_many_id [0..<64])" by (auto simp: distinct_map inj_on_def)
qed

lemma ex_gen_valid: "validGeneration ex_gen1" "validGeneration ex_gen2" "gen_validSHA256 zeroDigest"
  by code_simp+

lemma ex_many_replicas: "gen_validReplicas (gs_replicas ex_many)"
proof -
  have "\<exists>k \<in> {0..<64}. ex_many_role k = ''controlplane''" "\<exists>k \<in> {0..<64}. ex_many_role k = ''firmwareorigin''"
    by (rule bexI [of _ 0], simp_all add: ex_many_role_def) (rule bexI [of _ 40], simp_all)
  then show ?thesis
    using ex_many_distinct ex_many_ident
    by (auto simp: gen_validReplicas_def gen_replicas_loop_iff ex_many_def ex_many_role_def comp_def)
qed

lemma ex_many_valid: "validateState ex_many"
proof -
  have "gen_ack_ok ex_many [] a" if "a \<in> set (gs_acks ex_many)" for a
    using that ex_gen_valid(2)
    by (auto simp: ex_many_def gen_ack_ok_def containsReplica_def list_ex_iff validGeneration_def)
  moreover have "gn_Sequence ex_gen2 = gn_Sequence ex_gen1 + 1" "gn_ID ex_gen2 \<noteq> gn_ID ex_gen1"
    by (simp_all add: ex_gen1_def ex_gen2_def)
  then have "gen_phase_ok ex_many"
    using ex_gen_valid(2)
    by (simp add: gen_phase_ok_def ex_many_def phase_defs gen_validPending_def allAcknowledged_def zip_map_map i64_id
        zip_same_conv_map list_all_iff)
  ultimately show ?thesis
    using ex_many_replicas ex_gen_valid ex_many_sorted ex_many_distinct
    by (simp add: validateState_def gen_acks_loop_iff gen_hmac_field_ok_def) (simp add: ex_many_def comp_def)
qed

definition ex_registry_doc :: registry_document where
  "ex_registry_doc = \<lparr>rd_Version = 1, rd_Replicas = Some
     [\<lparr>ri_ReplicaID = ''cp-1'', ri_Role = ''controlplane'', ri_HMACKeyB64 = b64_encode (replicate 32 1)\<rparr>,
      \<lparr>ri_ReplicaID = ''fo-1'', ri_Role = ''firmwareorigin'', ri_HMACKeyB64 = b64_encode (replicate 32 2)\<rparr>]\<rparr>"

definition ex_cp_principal :: gen_principal where
  "ex_cp_principal = \<lparr>pr_ID = ''cp-1'', pr_Role = ''controlplane'', pr_Key = replicate 32 1\<rparr>"

definition ex_registry :: replica_registry where
  "ex_registry = \<lparr>rp_identities = [(''cp-1'', ex_cp_principal),
       (''fo-1'', \<lparr>pr_ID = ''fo-1'', pr_Role = ''firmwareorigin'', pr_Key = replicate 32 2\<rparr>)],
     rp_references = [ex_cp, ex_fo]\<rparr>"

definition ex_publisher :: gen_principal where
  "ex_publisher = \<lparr>pr_ID = ''release'', pr_Role = ''publisher'', pr_Key = replicate 32 3\<rparr>"

lemma ex_registry_entries:
  "registry_entries (slice_list (rd_Replicas ex_registry_doc)) [] [] \<lparr>rp_identities = [], rp_references = []\<rparr> = Some ex_registry"
  "gen_validReplicas (rp_references ex_registry)" "sortReplicas (rp_references ex_registry) = rp_references ex_registry"
  by code_simp+

lemma identity_json_roundtrip: "json_struct True identity_fields (identity_json i) z = Some i"
  by (simp add: identity_json_def json_struct_def identity_fields_def json_field_def)

lemma registry_json_roundtrip:
  assumes "in_int64 (rd_Version d)"
  shows "json_struct True registry_fields (registry_json d) z = Some d"
proof -
  have "json_to_slice (json_struct True identity_fields) identity_zero (json_slice identity_json (rd_Replicas d)) old = Some (rd_Replicas d)"
    for old by (cases "rd_Replicas d") (simp_all add: json_to_slice_json identity_json_roundtrip)
  with assms show ?thesis
    by (simp add: registry_json_def json_struct_def registry_fields_def json_field_def in_int64_def)
qed

lemma ex_registry_load: "LoadReplicaRegistry (json_print (registry_json ex_registry_doc) @ [CHR 0x0A]) = Some ex_registry"
proof -
  have ok: "json_ok 3 (registry_json ex_registry_doc)"
    by (simp add: registry_json_def ex_registry_doc_def identity_json_def json_slice_def numeral_3_eq_3)
  have parse: "json_parse (json_print (registry_json ex_registry_doc) @ [CHR 0x0A]) = Some (registry_json ex_registry_doc)"
    by (rule json_parse_print [OF ok]) (simp_all add: json_max_depth_def)
  have struct: "json_struct True registry_fields (registry_json ex_registry_doc) \<lparr>rd_Version = 0, rd_Replicas = None\<rparr> = Some ex_registry_doc"
    by (rule registry_json_roundtrip) (simp add: ex_registry_doc_def in_int64_def)
  have "length (json_print (registry_json ex_registry_doc)) < maximumStateBytes"
    using json_size_bound [OF ok]
    by (simp add: registry_json_def ex_registry_doc_def identity_json_def json_slice_def maximumStateBytes_def length_b64_encode
        json_int_def json_nat.simps)
  then show ?thesis
    using ex_registry_entries
    by (simp add: LoadReplicaRegistry_def parse struct) (simp add: ex_registry_doc_def)
qed

text \<open>A server on a store with the two replicas.\<close>

definition ex_server :: "gen_store \<Rightarrow> api_server" where
  "ex_server S = \<lparr>as_Store = S, as_Publisher = ex_publisher, as_Replicas = ex_registry, as_PrepareTimeout = 60 * second,
     as_CommitTimeout = 60 * second, as_MaxClockSkew = 30 * second, as_nonces = [],
     as_stats = \<lparr>mt_stateReads = 0, mt_publications = 0, mt_aborts = 0, mt_preparedAcks = 0, mt_activeAcks = 0,
       mt_conflicts = 0, mt_authRejected = 0\<rparr>\<rparr>"

lemma ex_server_new:
  assumes "gs_replicas (st_state S) = [ex_cp, ex_fo]" and "st_key S = ex_key"
  shows "NewServer S ex_publisher ex_registry (60 * second) (60 * second) (30 * second) = Some (ex_server S)"
proof -
  have "ValidIdentifier (pr_ID ex_publisher) 64" by code_simp
  moreover have "pr_Role ex_publisher = ''publisher''" "length (pr_Key ex_publisher) = 32"
    "registry_Principal ex_registry (pr_ID ex_publisher) = None"
    by (simp_all add: ex_publisher_def registry_Principal_def ex_registry_def)
  moreover have "gen_RequiredReplicasMatch S (rp_references ex_registry)"
    using assms(1) ex_registry_entries(3) by (simp add: gen_RequiredReplicasMatch_def ex_registry_def)
  moreover have "registry_DistinctFrom ex_registry [pr_Key ex_publisher, ex_key]" "\<not> keysEqual (pr_Key ex_publisher) ex_key"
    by code_simp+
  ultimately show ?thesis by (simp add: NewServer_def assms(2) ex_server_def)
qed

lemma ex_server_principal: "server_principal (ex_server S) (pr_ID ex_cp_principal) = Some ex_cp_principal"
  by (simp add: server_principal_def ex_server_def ex_publisher_def registry_Principal_def ex_registry_def ex_cp_principal_def)

lemma ex_server_wf: "api_wf (ex_server S)" "nonces_of (ex_server S) who = []"
  by (simp_all add: api_wf_def nonces_of_def ex_server_def)

definition ex_draining :: gen_store where
  "ex_draining = \<lparr>st_key = ex_key, st_state = ex_many\<lparr>gs_RequiredReplicas := Some [ex_cp, ex_fo]\<rparr>, st_digest = zeroDigest,
     st_drainStarted = time_zero, st_disk = []\<rparr>"

text \<open>A request for the state at the time \<open>c\<close> of the client, and what the server makes of it.\<close>

abbreviation ex_request :: "int \<Rightarrow> api_request" where
  "ex_request c \<equiv> client_request_of ex_cp_principal (replicate 16 5) c ''GET'' pathState None"

lemma ex_request_verified:
  assumes "in_int64 (unix_of_wall c)" and "absDuration (time_sub \<lparr>wall = now, mono = None\<rparr> (time_Unix (unix_of_wall c))) \<le> as_MaxClockSkew s"
    and "as_Publisher s = ex_publisher" and "as_Replicas s = ex_registry"
  shows "request_verified s now (ex_request c) [] = Some (ex_cp_principal, b64_encode (replicate 16 5))"
proof -
  have "server_principal s (pr_ID ex_cp_principal) = Some ex_cp_principal"
    by (simp add: server_principal_def assms(3,4) ex_publisher_def registry_Principal_def ex_registry_def ex_cp_principal_def)
  from client_request_verified [OF this _ _ assms(1) _ assms(2), of "replicate 16 5" "''GET''" None pathState] show ?thesis
    by (simp add: ex_cp_principal_def)
qed

lemma absDuration_exact: "\<bar>d\<bar> < 2 ^ 63 \<Longrightarrow> absDuration (saturate64 d) = \<bar>d\<bar>"
proof -
  assume "\<bar>d\<bar> < 2 ^ 63"
  then have "saturate64 d = d" "i64 (- d) = - d" by (simp_all add: saturate64_def max_int64_def i64_id)
  then show ?thesis by (simp add: absDuration_def abs_if)
qed

text \<open>The state of a fleet of two is within the limit.\<close>

lemma small_view:
  assumes "gen_wf S" and "length (gs_replicas (st_state S)) \<le> 2" and "length (gs_acks (st_state S)) \<le> 2"
  shows "length (json_print (view_json (store_view S))) < maximumAPIBytes"
proof -
  let ?s = "st_state S"
  note wf = gen_wf_valid [OF assms(1)]
  note D = validateStateD [OF wf(1)]
  have "json_size (json_slice replica_json (sv_RequiredReplicas (store_view S))) \<le> length (gs_replicas ?s) * Suc 1000 + 5"
    using json_size_slice [of "sv_RequiredReplicas (store_view S)" replica_json 1000] size_replica [OF D(5)] by simp
  moreover have "json_size (json_slice ack_json (sv_Acknowledgements (store_view S))) \<le> length (gs_acks ?s) * Suc 3000 + 5"
    using json_size_slice [of "sv_Acknowledgements (store_view S)" ack_json 3000] size_ack [OF D(10) D(5)] wf(2)
    by (simp add: state_typed_def)
  moreover have "json_size (json_pointer generation_json (gs_Pending ?s)) \<le> 2000"
    using gen_phase_ok_pending [OF D(12) _ D(4)] size_generation by (cases "gs_Pending ?s") (auto simp: json_pointer_def)
  moreover have "length (gs_Phase ?s) \<le> 10" using D(12) by (cases rule: gen_phase_cases) (simp_all add: phase_defs)
  moreover note size_generation [OF D(4)] length_json_word [of "gs_Revision ?s"] gen_validSHA256_length [OF wf(3)]
  moreover have "length (json_int (gs_Schema ?s)) \<le> 21" "length (json_int (gs_PrepareDeadline ?s)) \<le> 21"
    "length (json_int (gs_DrainUntil ?s)) \<le> 21" "length (json_int (gs_CommitDeadline ?s)) \<le> 21"
    "length (json_int (gs_UpdatedAt ?s)) \<le> 21"
    using wf(2) by (simp_all add: state_typed_def in_int64_def length_json_int)
  ultimately have "json_size (view_json (store_view S)) < maximumAPIBytes"
    using assms(2,3) by (simp add: view_json_def maximumAPIBytes_def)
  with json_size_bound [OF json_ok_view [OF wf(1,3)]] show ?thesis by linarith
qed

text \<open>The publisher publishes the next generation to a new store.\<close>

definition ex_publication :: publish_request where
  "ex_publication = \<lparr>pq_ExpectedRevision = 1, pq_ExpectedActive = ex_gen1, pq_Pending = ex_gen2\<rparr>"

definition ex_publish :: api_request where
  "ex_publish = client_request_of ex_publisher (replicate 16 5) (wall_of_unix 1760000000) ''POST'' pathPublish
     (Some (json_print (publish_json ex_publication)))"

lemma publish_json_roundtrip: "json_struct True publish_fields (publish_json r) z = Some r"
  by (simp add: publish_json_def json_struct_def publish_fields_def json_field_def)

lemma ex_publish_body:
  "readAPIRequest ex_publish = Some (json_print (publish_json ex_publication))"
  "decodeCanonicalAPI publish_fields publish_json
     \<lparr>pq_ExpectedRevision = 0, pq_ExpectedActive = generation_zero, pq_Pending = generation_zero\<rparr>
     (json_print (publish_json ex_publication)) = Some ex_publication"
proof -
  have ok: "json_ok 3 (publish_json ex_publication)"
    using json_ok_generation [OF ex_gen_valid(1), of "Suc 0"] json_ok_generation [OF ex_gen_valid(2), of "Suc 0"]
    by (simp add: publish_json_def ex_publication_def numeral_3_eq_3)
  have "json_size (publish_json ex_publication) < maximumAPIBytes"
    using size_generation [OF ex_gen_valid(1)] size_generation [OF ex_gen_valid(2)] length_json_word [of "1 :: 64 word"]
    by (simp add: publish_json_def ex_publication_def maximumAPIBytes_def)
  with json_size_bound [OF ok] have len: "length (json_print (publish_json ex_publication)) < maximumAPIBytes" by linarith
  have ne: "json_print (publish_json ex_publication) \<noteq> []" by (simp add: publish_json_def)
  show "readAPIRequest ex_publish = Some (json_print (publish_json ex_publication))"
    using len ne by (simp add: readAPIRequest_def ex_publish_def client_request_of_def Let_def header_values_def header_defs)
  have "json_parse (json_print (publish_json ex_publication) @ []) = Some (publish_json ex_publication)"
    by (rule json_parse_print [OF ok]) (simp_all add: json_max_depth_def)
  then show "decodeCanonicalAPI publish_fields publish_json
     \<lparr>pq_ExpectedRevision = 0, pq_ExpectedActive = generation_zero, pq_Pending = generation_zero\<rparr>
     (json_print (publish_json ex_publication)) = Some ex_publication"
    by (simp add: decodeCanonicalAPI_def publish_json_roundtrip)
qed

lemma ex_publish_authorized:
  "\<exists>t. authorize (ex_server S) (wall_of_unix 1760000000) ex_publish (json_print (publish_json ex_publication)) =
     (Some (ex_publisher, b64_encode (replicate 16 5)), t)"
proof -
  have who: "server_principal (ex_server S) (pr_ID ex_publisher) = Some ex_publisher" "pr_ID ex_publisher \<noteq> []"
    by (simp_all add: server_principal_def ex_server_def ex_publisher_def)
  have "absDuration (time_sub \<lparr>wall = wall_of_unix 1760000000, mono = None\<rparr> (time_Unix 1760000000)) = 0" by code_simp
  then have "request_verified (ex_server S) (wall_of_unix 1760000000) ex_publish (json_print (publish_json ex_publication)) =
      Some (ex_publisher, b64_encode (replicate 16 5))"
    using client_request_verified [OF who, of "replicate 16 5" "wall_of_unix 1760000000" "''POST''"
        "Some (json_print (publish_json ex_publication))" "wall_of_unix 1760000000" pathPublish]
    by (simp add: ex_publish_def in_int64_def ex_server_def)
  from authorize_fresh [OF this ex_server_wf(1)] show ?thesis by (auto simp: ex_server_wf(2))
qed

lemma ex_publish_store:
  "\<exists>S T. gen_init S \<and> NewServer S ex_publisher ex_registry (60 * second) (60 * second) (30 * second) = Some (ex_server S) \<and>
     as_Store (snd (server_publish 7 (ex_server S) (wall_of_unix 1760000000) (ex_time 1) ex_publish)) = T \<and>
     gs_Phase (st_state S) = PhaseStable \<and> gs_Phase (st_state T) = PhasePreparing \<and> gs_Pending (st_state T) = Some ex_gen2"
proof -
  from ex_store obtain S where S: "gen_InitializeStore 7 ex_key ex_gen1 [ex_fo, ex_cp] (ex_time 0) = Inr S" "gen_init S" "gen_ready S"
    "gs_Phase (st_state S) = PhaseStable" "gs_Active (st_state S) = ex_gen1" "gs_replicas (st_state S) = [ex_cp, ex_fo]"
    "gs_Revision (st_state S) = 1" "gs_UpdatedAt (st_state S) = 1700000000" by blast
  have key: "st_key S = ex_key"
    using S(1) commitLocked_frame(1) by (fastforce simp: gen_InitializeStore_def Let_def split: if_splits option.splits prod.splits)
  have "gen_can_commit S (ex_time 1)" using S(3,7,8) ex_facts by (simp add: gen_can_commit_def ex_unix)
  from publish_commits [OF this _ S(4) ex_facts(4), of 7 "60 * second" "60 * second"] S(5,7) ex_facts(7,8) obtain T where
    T: "gen_Publish 7 S 1 ex_gen1 ex_gen2 (60 * second) (60 * second) (ex_time 1) = (None, T)"
    "gs_Phase (st_state T) = PhasePreparing" "gs_Pending (st_state T) = Some ex_gen2" by auto
  obtain t where t: "authorize (ex_server S) (wall_of_unix 1760000000) ex_publish (json_print (publish_json ex_publication)) =
     (Some (ex_publisher, b64_encode (replicate 16 5)), t)" using ex_publish_authorized by blast
  note config = authorize_config [OF t]
  have "as_Store (snd (server_publish 7 (ex_server S) (wall_of_unix 1760000000) (ex_time 1) ex_publish)) = T"
    unfolding server_publish_def ex_publish_body(1) bind.simps ex_publish_body(2) option.map option.case prod.case t config
    using T(1) by (simp add: ex_server_def ex_publisher_def ex_publication_def Let_def)
  with T S(2,4) ex_server_new [OF S(6) key] show ?thesis by blast
qed

section \<open>Properties\<close>

text \<open>C10. Whatever the server handles, its store changes only by a call of the store that the handled event entitles to: the
  ticker and an authenticated read of the state let time pass; a publication or an abort is the content of the body of
  the handled request, and the publisher signed that body for that path; an acknowledgement is the content of the body
  of the handled request, a registered replica signed it for that path, and it is recorded for this replica.\<close>

theorem api_changes_authorized:
  assumes "LoadReplicaRegistry document = Some R" and "NewServer store publisher R pt ct skew = Some s0"
    and "api_steps_until u s0 s" and "api_step now ev s t" and "as_Store t \<noteq> as_Store s"
  shows "\<exists>now2. gen_step now2 (as_Store s) (as_Store t) \<and> (case ev of
      EvTick \<Rightarrow> \<exists>io. as_Store t = snd (gen_Advance io (as_Store s) now2)
    | EvState request \<Rightarrow> routed ''GET'' pathState request \<and>
        (\<exists>who. signed_by who request [] \<and> (who = publisher \<or> registry_Principal R (pr_ID who) = Some who)) \<and>
        (\<exists>io. as_Store t = snd (gen_Advance io (as_Store s) now2))
    | EvPublish request \<Rightarrow> routed ''POST'' pathPublish request \<and>
        (\<exists>payload input io. readAPIRequest request = Some payload \<and> signed_by publisher request payload \<and>
           payload = json_print (publish_json input) \<and>
           as_Store t = snd (gen_Publish io (as_Store s) (pq_ExpectedRevision input) (pq_ExpectedActive input) (pq_Pending input)
             (as_PrepareTimeout s) (as_CommitTimeout s) now2))
    | EvAbort request \<Rightarrow> routed ''POST'' pathAbort request \<and>
        (\<exists>payload input io. readAPIRequest request = Some payload \<and> signed_by publisher request payload \<and>
           payload = json_print (abort_json input) \<and>
           as_Store t = snd (gen_Abort io (as_Store s) (bq_ExpectedRevision input) (bq_Pending input) now2))
    | EvAck request \<Rightarrow> routed ''POST'' pathAck request \<and>
        (\<exists>payload input who io io2. readAPIRequest request = Some payload \<and> signed_by who request payload \<and>
           registry_Principal R (pr_ID who) = Some who \<and> payload = json_print (ack_request_json input) \<and>
           as_Store t = snd (gen_Acknowledge io io2 (as_Store s) (aq_ExpectedRevision input)
             \<lparr>rr_ID = pr_ID who, rr_Role = pr_Role who\<rparr> (aq_Generation input) (aq_Stage input) now2)))"
  using assms(4)
proof cases
  case (state request io now2)
  from assms(5) obtain who nonce where "request_verified s now request [] = Some (who, nonce)"
    and T: "as_Store t = snd (gen_Advance io (as_Store s) now2)"
    unfolding state(2) by (rule server_state_change)
  with verified_principal [OF assms(1-3)] state(1,3) gen_step.advance [of now2 "as_Store s" io] show ?thesis
    by (intro exI [of _ now2]) (simp, blast)
next
  case (publish request io now2)
  from assms(5) obtain payload input who nonce where p: "readAPIRequest request = Some payload" "payload = json_print (publish_json input)"
    "request_verified s now request payload = Some (who, nonce)" "pr_Role who = ''publisher''"
    and T: "as_Store t = snd (gen_Publish io (as_Store s) (pq_ExpectedRevision input) (pq_ExpectedActive input) (pq_Pending input)
      (as_PrepareTimeout s) (as_CommitTimeout s) now2)"
    unfolding publish(2) by (rule server_publish_change)
  have "signed_by publisher request payload" using verified_principal [OF assms(1-3) p(3)] p(4) by auto
  moreover have "gen_step now2 (as_Store s) (as_Store t)" unfolding T by (rule gen_step.publish)
  ultimately show ?thesis using p T publish(1,3) by (intro exI [of _ now2]) (simp, blast)
next
  case (abort request io now2)
  from assms(5) obtain payload input who nonce where p: "readAPIRequest request = Some payload" "payload = json_print (abort_json input)"
    "request_verified s now request payload = Some (who, nonce)" "pr_Role who = ''publisher''"
    and T: "as_Store t = snd (gen_Abort io (as_Store s) (bq_ExpectedRevision input) (bq_Pending input) now2)"
    unfolding abort(2) by (rule server_abort_change)
  have "signed_by publisher request payload" using verified_principal [OF assms(1-3) p(3)] p(4) by auto
  moreover have "gen_step now2 (as_Store s) (as_Store t)" unfolding T by (rule gen_step.abort)
  ultimately show ?thesis using p T abort(1,3) by (intro exI [of _ now2]) (simp, blast)
next
  case (ack request io io2 now2)
  from assms(5) obtain payload input who nonce where p: "readAPIRequest request = Some payload" "payload = json_print (ack_request_json input)"
    "request_verified s now request payload = Some (who, nonce)" "pr_Role who = ''controlplane'' \<or> pr_Role who = ''firmwareorigin''"
    and T: "as_Store t = snd (gen_Acknowledge io io2 (as_Store s) (aq_ExpectedRevision input)
      \<lparr>rr_ID = pr_ID who, rr_Role = pr_Role who\<rparr> (aq_Generation input) (aq_Stage input) now2)"
    unfolding ack(2) by (rule server_ack_change)
  have "signed_by who request payload" "registry_Principal R (pr_ID who) = Some who"
    using verified_principal [OF assms(1-3) p(3)] p(4) by auto
  moreover have "gen_step now2 (as_Store s) (as_Store t)" unfolding T by (rule gen_step.acknowledge)
  ultimately show ?thesis using p T ack(1,3) by (intro exI [of _ now2]) (simp, blast)
next
  case (tick io now2)
  then have "as_Store t = snd (gen_Advance io (as_Store s) now2)" by simp
  with tick(1) gen_step.advance [of now2 "as_Store s" io] show ?thesis by (intro exI [of _ now2]) auto
qed

theorem api_changes_authorized_witness:
  "\<exists>(s :: api_server) t payload input io now2. api_step (wall_of_unix 1760000000) (EvPublish ex_publish) s t \<and> as_Store t \<noteq> as_Store s \<and>
     readAPIRequest ex_publish = Some payload \<and> signed_by ex_publisher ex_publish payload \<and>
     payload = json_print (publish_json input) \<and>
     as_Store t = snd (gen_Publish io (as_Store s) (pq_ExpectedRevision input) (pq_ExpectedActive input) (pq_Pending input)
       (as_PrepareTimeout s) (as_CommitTimeout s) now2)"
proof -
  from ex_publish_store obtain S where
    new: "NewServer S ex_publisher ex_registry (60 * second) (60 * second) (30 * second) = Some (ex_server S)"
    and phase: "gs_Phase (st_state S) = PhaseStable"
      "gs_Phase (st_state (as_Store (snd (server_publish 7 (ex_server S) (wall_of_unix 1760000000) (ex_time 1) ex_publish)))) = PhasePreparing"
    by blast
  let ?t = "snd (server_publish 7 (ex_server S) (wall_of_unix 1760000000) (ex_time 1) ex_publish)"
  have "routed ''POST'' pathPublish ex_publish" by (simp add: routed_def ex_publish_def client_request_of_def Let_def)
  then have step: "api_step (wall_of_unix 1760000000) (EvPublish ex_publish) (ex_server S) ?t" by (rule api_step.publish)
  have "as_Store (ex_server S) = S" by (simp add: ex_server_def)
  then have change: "as_Store ?t \<noteq> as_Store (ex_server S)" using phase by (auto simp: phase_defs)
  have start: "api_steps_until 0 (ex_server S) (ex_server S)" by (simp add: api_steps_until_def)
  from api_changes_authorized [OF ex_registry_load new start step change] step change show ?thesis
    unfolding api_event.case by blast
qed

text \<open>C11. A signed request is honoured once: if the server accepts the same request a second time, with whatever it
  handled in between at clock readings up to the second one, then the first time was the very first instant of the
  request's window and the second time the very last one. The time stamp is less than 292 years ahead of the
  server's clock, see the next theorem, and the clock readings are before the Unix second \<open>2 ^ 62\<close>.\<close>

theorem request_replayed_only_at_edges:
  assumes "NewServer store publisher R pt ct skew = Some s0" and "api_steps_until u s0 s1"
    and "authorize s1 now1 request payload = (Some (who, nonce), s2)" and "same_auth s2 s2'" and "api_steps_until now2 s2' s3"
    and "authorize s3 now2 request payload = (Some (who', nonce'), s4)"
    and "singleAPIHeader request HeaderTimestamp = Some (json_int ts)" and "in_int64 ts"
    and "unix_of_wall now1 < 2 ^ 62" and "unix_of_wall now2 < 2 ^ 62" and "wall_of_unix ts - now1 < 2 ^ 63" and "now1 \<le> now2"
  shows "now1 = wall_of_unix ts - skew \<and> now2 = wall_of_unix ts + skew"
proof -
  note c1 = api_steps_wf [OF assms(1,2)] and new = NewServer_config(7,8) [OF assms(1)]
  note a1 = authorize_Some [OF assms(3)] and a2 = authorize_Some [OF assms(6)] and k2 = authorize_config [OF assms(3)]
  have s2': "nonces_of s2' = nonces_of s2" "as_MaxClockSkew s2' = skew" "as_Publisher s2' = publisher" "as_Replicas s2' = R"
    using assms(4) c1 k2 by (simp_all add: same_auth_def nonces_of_def fun_eq_iff)
  have wf2: "api_wf s2'" using reserveNonce_wf [OF c1(1), of "pr_ID who" nonce now1] a1(2) s2'(1) by (simp add: api_wf_def)
  have c3: "as_MaxClockSkew s3 = skew" "as_Publisher s3 = publisher" "as_Replicas s3 = R"
    using api_steps_keep(2) [OF assms(5) wf2] api_steps_config [OF assms(5)] s2' by simp_all
  obtain i ts1 where f1: "singleAPIHeader request HeaderPrincipal = Some i" "server_principal s1 i = Some who"
    "parse_int64 (json_int ts) = Some ts1" "absDuration (time_sub \<lparr>wall = now1, mono = None\<rparr> (time_Unix ts1)) \<le> skew"
    "singleAPIHeader request HeaderNonce = Some nonce"
    by (rule request_verified_facts [OF a1(1)]) (use assms(7) c1(2) in auto)
  obtain j ts2 where f2: "singleAPIHeader request HeaderPrincipal = Some j" "server_principal s3 j = Some who'"
    "parse_int64 (json_int ts) = Some ts2" "absDuration (time_sub \<lparr>wall = now2, mono = None\<rparr> (time_Unix ts2)) \<le> skew"
    "singleAPIHeader request HeaderNonce = Some nonce'"
    by (rule request_verified_facts [OF a2(1)]) (use assms(7) c3(1) in auto)
  have same: "who' = who" "nonce' = nonce" "ts1 = ts" "ts2 = ts"
    using f1 f2 parse_int64_json [OF assms(8)] by (simp_all add: server_principal_def c1 c3 cong: if_cong)
  have "map_of (nonces_of s2' (pr_ID who)) nonce = Some (now1 + 2 * skew)"
    using reserveNonce_cases [of s1 "pr_ID who" nonce now1] a1(2) c1(2) s2'(1) by auto
  from nonce_expired [OF wf2 this assms(5)] a2(2) same have "now1 + 2 * skew \<le> now2" by simp
  moreover have "skew < 2 ^ 62" using new by simp
  with fresh_window [OF f1(4) [unfolded same] assms(8,9,11)] fresh_window [OF f2(4) [unfolded same] assms(8,10)] assms(11,12)
  have "wall_of_unix ts - skew \<le> now1" "now2 \<le> wall_of_unix ts + skew" by simp_all
  ultimately show ?thesis by simp
qed

theorem request_replayed_only_at_edges_witness:
  "\<exists>s2 s4. authorize (ex_server ex_draining) (wall_of_unix 1759999970) (ex_request (wall_of_unix 1760000000)) [] =
       (Some (ex_cp_principal, b64_encode (replicate 16 5)), s2) \<and>
     authorize s2 (wall_of_unix 1760000030) (ex_request (wall_of_unix 1760000000)) [] =
       (Some (ex_cp_principal, b64_encode (replicate 16 5)), s4) \<and>
     wall_of_unix 1759999970 = wall_of_unix 1760000000 - 30 * second \<and> wall_of_unix 1760000030 = wall_of_unix 1760000000 + 30 * second"
proof -
  let ?s = "ex_server ex_draining" and ?r = "ex_request (wall_of_unix 1760000000)"
  let ?n1 = "wall_of_unix 1759999970" and ?n2 = "wall_of_unix 1760000030"
  let ?nonce = "b64_encode (replicate 16 5)"
  have new: "NewServer ex_draining ex_publisher ex_registry (60 * second) (60 * second) (30 * second) = Some ?s"
    by (rule ex_server_new) (simp_all add: ex_draining_def)
  have ts: "in_int64 (unix_of_wall (wall_of_unix 1760000000))" by (simp add: in_int64_def)
  have sub: "absDuration (time_sub \<lparr>wall = ?n1, mono = None\<rparr> (time_Unix 1760000000)) = 30 * second"
    "absDuration (time_sub \<lparr>wall = ?n2, mono = None\<rparr> (time_Unix 1760000000)) = 30 * second" by code_simp+
  have v1: "request_verified ?s ?n1 ?r [] = Some (ex_cp_principal, ?nonce)"
    by (rule ex_request_verified [OF ts]) (use sub(1) in \<open>simp_all add: ex_server_def\<close>)
  obtain s2 where a1: "authorize ?s ?n1 ?r [] = (Some (ex_cp_principal, ?nonce), s2)"
    and r1: "reserveNonce ?s (pr_ID ex_cp_principal) ?nonce ?n1 = (True, s2)"
    using authorize_fresh [OF v1 ex_server_wf(1)] by (auto simp: ex_server_wf(2))
  note k = authorize_config(4-6) [OF a1]
  have n2: "nonces_of s2 (pr_ID ex_cp_principal) = [(?nonce, ?n1 + 2 * (30 * second))]"
    using reserveNonce_cases [of ?s "pr_ID ex_cp_principal" ?nonce ?n1] r1 by (auto simp: ex_server_wf(2)) (simp add: ex_server_def)
  have v2: "request_verified s2 ?n2 ?r [] = Some (ex_cp_principal, ?nonce)"
    by (rule ex_request_verified [OF ts]) (use sub(2) k in \<open>simp_all add: ex_server_def\<close>)
  have wf2: "api_wf s2" using reserveNonce_wf [OF ex_server_wf(1), of ex_draining "pr_ID ex_cp_principal" ?nonce ?n1] r1 by simp
  obtain s4 where a2: "authorize s2 ?n2 ?r [] = (Some (ex_cp_principal, ?nonce), s4)"
    using authorize_fresh [OF v2 wf2] by (auto simp: n2 wall_of_unix_def)
  have "singleAPIHeader ?r HeaderTimestamp = Some (json_int 1760000000)"
    using client_headers(2) [of ex_cp_principal "replicate 16 5" "wall_of_unix 1760000000" "''GET''" pathState None]
    by (simp add: ex_cp_principal_def)
  from request_replayed_only_at_edges [OF new _ a1 _ _ a2 this, of 0 s2] a1 a2 ts
  show ?thesis by (auto simp: api_steps_until_def wall_of_unix_def unix_of_wall_def)
qed

text \<open>C20. The window has a hole: a request stamped 292 years or more ahead of the server's clock is fresh as well, as the
  difference saturates at the least duration, whose absolute value is negative. A server that has no nonces of the
  principal on record accepts it, and accepts it once more when twice the permitted skew has passed.\<close>

theorem far_future_replayed:
  assumes "server_principal s (pr_ID who) = Some who" and "pr_ID who \<noteq> []" and "length nb = 16" and "api_wf s"
    and "nonces_of s (pr_ID who) = []" and "0 \<le> as_MaxClockSkew s" and "in_int64 (unix_of_wall c)" and "unix_of_wall c < 2 ^ 62 + 2 ^ 61"
    and "meth = ''GET'' \<Longrightarrow> payload = None" and "2 ^ 63 \<le> wall_of_unix (unix_of_wall c) - now2" and "now1 + 2 * as_MaxClockSkew s \<le> now2"
    and "request = client_request_of who nb c meth path payload" and "body = (case payload of None \<Rightarrow> [] | Some b \<Rightarrow> b)"
  shows "\<exists>s1 s2. authorize s now1 request body = (Some (who, b64_encode nb), s1) \<and>
    authorize s1 now2 request body = (Some (who, b64_encode nb), s2)"
proof -
  have "2 ^ 63 \<le> wall_of_unix (unix_of_wall c) - now1" using assms(6,10,11) by linarith
  from stale_future [OF this assms(7,8,6)] have "request_verified s now1 request body = Some (who, b64_encode nb)"
    unfolding assms(12,13) using client_request_verified [OF assms(1-3,7,9)] by blast
  from authorize_fresh [OF this assms(4)] assms(5) obtain s1 where a1: "authorize s now1 request body = (Some (who, b64_encode nb), s1)"
    and r1: "reserveNonce s (pr_ID who) (b64_encode nb) now1 = (True, s1)" by auto
  note k = authorize_config [OF a1]
  have "server_principal s1 (pr_ID who) = Some who" using assms(1) by (simp add: server_principal_def k cong: if_cong)
  from client_request_verified [OF this assms(2,3,7,9)] stale_future [OF assms(10,7,8), of "as_MaxClockSkew s1"] assms(6)
  have v2: "request_verified s1 now2 request body = Some (who, b64_encode nb)" unfolding assms(12,13) k by blast
  have n1: "nonces_of s1 (pr_ID who) = [(b64_encode nb, now1 + 2 * as_MaxClockSkew s)]"
    using reserveNonce_cases [of s "pr_ID who" "b64_encode nb" now1] r1 assms(5) by auto
  have "api_wf s1" using reserveNonce_wf [OF assms(4), of "pr_ID who" "b64_encode nb" now1] r1 by simp
  from authorize_fresh [OF v2 this] n1 assms(11) a1 show ?thesis by auto
qed

theorem far_future_replayed_witness:
  "\<exists>s1 s2. authorize (ex_server ex_draining) (wall_of_unix 1760000000) (ex_request (wall_of_unix 20000000000)) [] =
       (Some (ex_cp_principal, b64_encode (replicate 16 5)), s1) \<and>
     authorize s1 (wall_of_unix 1760000060) (ex_request (wall_of_unix 20000000000)) [] =
       (Some (ex_cp_principal, b64_encode (replicate 16 5)), s2)"
proof -
  have "in_int64 (unix_of_wall (wall_of_unix 20000000000))" "unix_of_wall (wall_of_unix 20000000000) < 2 ^ 62 + 2 ^ 61"
    "2 ^ 63 \<le> wall_of_unix (unix_of_wall (wall_of_unix 20000000000)) - wall_of_unix 1760000060"
    "wall_of_unix 1760000000 + 2 * as_MaxClockSkew (ex_server ex_draining) \<le> wall_of_unix 1760000060"
    "0 \<le> as_MaxClockSkew (ex_server ex_draining)" "pr_ID ex_cp_principal \<noteq> []"
    by (simp_all add: in_int64_def ex_server_def wall_of_unix_def unix_of_wall_def ex_cp_principal_def)
  from far_future_replayed [OF ex_server_principal this(6) _ ex_server_wf this(5,1,2) _ this(3,4) refl refl, of "replicate 16 5"
      "''GET''" None pathState] show ?thesis by simp
qed

text \<open>C21. Agreement of client and server: the answer to a fresh and correctly signed request for the state passes every
  check of the client and gives it exactly the state the coordinator is in, as long as the answer is within the
  limit on its size.\<close>

theorem client_reads_state:
  assumes "gen_init S0" and "gen_any_step\<^sup>*\<^sup>* S0 (as_Store s)" and "api_wf s"
    and "server_principal s (pr_ID who) = Some who" and "pr_ID who \<noteq> []" and "length nb = 16"
    and "map_of (nonces_of s (pr_ID who)) (b64_encode nb) = None" and "length (nonces_of s (pr_ID who)) < 4096"
    and "0 \<le> unix_of_wall c" and "unix_of_wall c < 2 ^ 62" and "\<bar>now - wall_of_unix (unix_of_wall c)\<bar> \<le> as_MaxClockSkew s"
    and "as_MaxClockSkew s < 2 ^ 63"
    and "gen_Advance io (as_Store s) now2 = (None, S)" and "length (json_print (view_json (store_view S))) < maximumAPIBytes"
  shows "client_receive who (b64_encode nb) (fst (server_state io s now now2 (client_request_of who nb c ''GET'' pathState None))) =
    Inr (store_view S)"
proof -
  let ?r = "client_request_of who nb c ''GET'' pathState None"
  have ts: "in_int64 (unix_of_wall c)" using assms(9,10) by (simp add: in_int64_def)
  have "absDuration (time_sub \<lparr>wall = now, mono = None\<rparr> (time_Unix (unix_of_wall c))) \<le> as_MaxClockSkew s"
    using time_Unix_wall [OF ts] assms(10-12) absDuration_exact [of "now - wall_of_unix (unix_of_wall c)"]
    by (simp add: time_sub_def time_Unix_def)
  from client_request_verified [OF assms(4-6) ts _ this, of "''GET''" None pathState]
  have "request_verified s now ?r [] = Some (who, b64_encode nb)" by simp
  from authorize_fresh [OF this assms(3)] assms(7,8) obtain s1 where a: "authorize s now ?r [] = (Some (who, b64_encode nb), s1)"
    by auto
  note k = authorize_config [OF a]
  have "gen_any_step (as_Store s) S" using gen_step.advance [of now2 "as_Store s" io] assms(13) unfolding gen_any_step_def by (metis snd_conv)
  with gl.reachable_inv [OF assms(1,2)] have "gen_wf S" by (rule gl.inv_step)
  note wf = gen_wf_valid [OF this]
  have "fst (server_state io s now now2 ?r) = writeSignedState (s1\<lparr>as_Store := S\<rparr>) 200 who (b64_encode nb)"
    by (simp add: server_state_def a k assms(13) Let_def)
  with client_receive_signed [of "s1\<lparr>as_Store := S\<rparr>" who "b64_encode nb"] wf assms(14) show ?thesis by simp
qed

theorem client_reads_state_witness:
  "\<exists>S. client_receive ex_cp_principal (b64_encode (replicate 16 5)) (fst (server_state 0 (ex_server S) (wall_of_unix 1760000000)
      (ex_time 0) (ex_request (wall_of_unix 1760000000)))) = Inr (store_view S) \<and> sv_Active (store_view S) = ex_gen1"
proof -
  from ex_store obtain S where S: "gen_init S" "gs_Phase (st_state S) = PhaseStable" "gs_Active (st_state S) = ex_gen1"
    "gs_replicas (st_state S) = [ex_cp, ex_fo]" by blast
  have wf: "gen_wf S" by (rule gl.inv_init [OF S(1)])
  have "gs_acks (st_state S) = []"
    using validateStateD(12) [OF gen_wf_valid(1) [OF wf]] S(2) by (simp add: gen_phase_ok_def phase_defs)
  with small_view [OF wf] S(4) have size: "length (json_print (view_json (store_view S))) < maximumAPIBytes" by simp
  have adv: "gen_Advance 0 (as_Store (ex_server S)) (ex_time 0) = (None, S)"
    by (simp add: gen_Advance_def ex_server_def S(2) ex_facts phase_defs)
  have "gen_any_step\<^sup>*\<^sup>* S (as_Store (ex_server S))" by (simp add: ex_server_def)
  moreover have "as_MaxClockSkew (ex_server S) = 30 * second" "pr_ID ex_cp_principal \<noteq> []"
    by (simp_all add: ex_server_def ex_cp_principal_def)
  ultimately show ?thesis
    using client_reads_state [OF S(1) _ ex_server_wf(1) ex_server_principal _ _ _ _ _ _ _ _ adv size, of "replicate 16 5"
      "wall_of_unix 1760000000" "wall_of_unix 1760000000"] S(3)
    by (intro exI [of _ S]) (simp add: ex_server_wf(2))
qed

text \<open>C22. The registry admits 64 replicas, but the coordinator's state may then outgrow the limit of its own protocol: with
  64 replicas whose names have 20 characters or more, all of them acknowledged, every client refuses every answer
  that carries the state.\<close>

theorem large_fleet_unreadable:
  assumes "validateState (st_state (as_Store s))" and "length (gs_replicas (st_state (as_Store s))) = 64"
    and "length (gs_acks (st_state (as_Store s))) = 64"
    and "\<forall>r \<in> set (gs_replicas (st_state (as_Store s))). 20 \<le> length (rr_ID r)"
  shows "client_receive who nonce (writeSignedState s 200 who nonce) = Inl ClientFailed"
proof -
  have "\<forall>a \<in> set (gs_acks (st_state (as_Store s))). 20 \<le> length (ak_ReplicaID a)"
    using validateStateD(10) [OF assms(1)] assms(4) by (fastforce simp: gen_ack_ok_def containsReplica_def list_ex_iff)
  from large_view [OF assms(1-4) this] show ?thesis
    by (simp add: client_receive_def writeSignedState_def gen_Snapshot_def Let_def)
qed

theorem large_fleet_unreadable_witness:
  "client_receive ex_cp_principal [] (writeSignedState (ex_server (ex_draining\<lparr>st_state := ex_many\<rparr>)) 200 ex_cp_principal []) = Inl ClientFailed"
proof -
  let ?s = "ex_server (ex_draining\<lparr>st_state := ex_many\<rparr>)"
  have s: "st_state (as_Store ?s) = ex_many" by (simp add: ex_server_def)
  have "length (gs_replicas ex_many) = 64" "length (gs_acks ex_many) = 64" by (simp_all add: ex_many_def)
  moreover have "\<forall>r \<in> set (gs_replicas ex_many). 20 \<le> length (rr_ID r)" by (simp add: ex_many_def ex_many_id_def ex_suffix_def)
  ultimately show ?thesis using large_fleet_unreadable [of ?s ex_cp_principal "[]"] ex_many_valid unfolding s by blast
qed

end
