(* ===== verification/Keyring.thy ===== *)
theory Keyring
  imports GoTime Sha256 Json "HOL-Library.List_Lexorder" "HOL-Library.Char_ord"
begin

text \<open>
  \<^verbatim>\<open>internal/auth/managed_keyring.go\<close> and \<^verbatim>\<open>managed_transition.go\<close>: the managed ring of HMAC token keys,
  read from a canonical JSON document without duplicate fields (\<^verbatim>\<open>internal/strictjson\<close>), and the check
  that a target ring may replace the current one. Times are wall instants; the zero instant is
  Go's zero time. Secrets are wiped after errors in the source, which the model has no use for.
\<close>

section \<open>Definitions\<close>

subsection \<open>Duplicate fields\<close>

text \<open>The decoder's token stream of one value is a traversal of that value, without a nesting limit.\<close>

fun strict_value :: "json \<Rightarrow> bool" and strict_members :: "string list \<Rightarrow> (string \<times> json) list \<Rightarrow> bool"
  and strict_elements :: "json list \<Rightarrow> bool" where
  "strict_value (JObj ms) = strict_members [] ms"
| "strict_value (JArr vs) = strict_elements vs"
| "strict_value j = True"
| "strict_members seen [] = True"
| "strict_members seen ((k, v) # ms) =
     (if k \<in> set seen then False else if \<not> strict_value v then False else strict_members (k # seen) ms)"
| "strict_elements [] = True"
| "strict_elements (v # vs) = (if \<not> strict_value v then False else strict_elements vs)"

definition RejectDuplicateFields :: "string \<Rightarrow> bool" where
  "RejectDuplicateFields payload =
     (case json_parse_depth (length payload) payload of None \<Rightarrow> False | Some j \<Rightarrow> strict_value j)"

subsection \<open>Data\<close>

definition ManagedTokenKeyringSchema :: string where "ManagedTokenKeyringSchema = ''xz-hmac-token-keyring-v1''"
definition maximumManagedKeyringBytes :: nat where "maximumManagedKeyringBytes = 32 * 1024"
definition maximumManagedTokenKeyLength :: nat where "maximumManagedTokenKeyLength = 128"
definition maximumManagedTokenKeys :: nat where "maximumManagedTokenKeys = 3"

record keyring_entry =
  ke_KeyID :: string
  ke_HMACKeyB64URL :: string
  ke_State :: string
  ke_IssueBeforeUnix :: int
  ke_VerifyUntilUnix :: int

record keyring_document =
  kd_Schema :: string
  kd_Revision :: "64 word"
  kd_ActiveKeyID :: string
  kd_LegacyUnkeyedKeyID :: string
  kd_LegacyUnkeyedVerifyUntilUnix :: int
  kd_Keys :: "keyring_entry slice"

record managed_key =
  mk_id :: string
  mk_secret :: "byte list"
  mk_state :: string
  mk_issueBefore :: wall_time
  mk_verifyUntil :: wall_time

record managed_keyring =
  kr_revision :: "64 word"
  kr_activeKeyID :: string
  kr_legacyUnkeyedKeyID :: string
  kr_legacyVerifyUntil :: wall_time
  kr_keys :: "(string, managed_key) gomap"

subsection \<open>Building a ring\<close>

definition validManagedTime :: "int \<Rightarrow> bool" where
  "validManagedTime value \<longleftrightarrow> value \<ge> 1577836800 \<and> value < 4102444800"

text \<open>The key of an entry, when its state allows it; the strict decoder refuses only material that the
  comparison with its canonical encoding refuses as well.\<close>

definition keyring_key :: "keyring_document \<Rightarrow> wall_time \<Rightarrow> keyring_entry \<Rightarrow> byte list \<Rightarrow> managed_key option" where
  "keyring_key document now entry secret =
     (let verifyUntil = wall_of_unix (ke_VerifyUntilUnix entry);
          key = \<lparr>mk_id = ke_KeyID entry, mk_secret = secret, mk_state = ke_State entry, mk_issueBefore = 0,
                 mk_verifyUntil = verifyUntil\<rparr> in
      if ke_State entry = ''active'' then
        (if ke_KeyID entry \<noteq> kd_ActiveKeyID document \<or> ke_IssueBeforeUnix entry \<noteq> 0 \<or> \<not> verifyUntil > now
         then None else Some key)
      else if ke_State entry = ''retiring'' then
        (if ke_KeyID entry = kd_ActiveKeyID document \<or> \<not> validManagedTime (ke_IssueBeforeUnix entry) \<or>
            ke_VerifyUntilUnix entry \<le> ke_IssueBeforeUnix entry \<or> \<not> verifyUntil > now
         then None else Some (key\<lparr>mk_issueBefore := wall_of_unix (ke_IssueBeforeUnix entry)\<rparr>))
      else None)"

fun keyring_entries ::
  "keyring_document \<Rightarrow> wall_time \<Rightarrow> keyring_entry list \<Rightarrow> (string, managed_key) gomap \<Rightarrow> byte list list \<Rightarrow> string \<Rightarrow> nat \<Rightarrow>
   ((string, managed_key) gomap \<times> nat) option" where
  "keyring_entries document now [] keys seenMaterial previousID activeCount = Some (keys, activeCount)"
| "keyring_entries document now (entry # entries) keys seenMaterial previousID activeCount =
     (if \<not> ValidIdentifier (ke_KeyID entry) 64 \<or> (previousID \<noteq> [] \<and> ke_KeyID entry \<le> previousID) \<or>
         \<not> validManagedTime (ke_VerifyUntilUnix entry)
      then None
      else case b64_decode (ke_HMACKeyB64URL entry) of
        None \<Rightarrow> None
      | Some secret \<Rightarrow>
          if length secret < 32 \<or> length secret > maximumManagedTokenKeyLength \<or>
             b64_encode secret \<noteq> ke_HMACKeyB64URL entry
          then None
          else if list_ex (\<lambda>prior. prior = secret) seenMaterial then None
          else case keyring_key document now entry secret of
            None \<Rightarrow> None
          | Some key \<Rightarrow>
              keyring_entries document now entries (AList.update (ke_KeyID entry) key keys)
                (seenMaterial @ [secret]) (ke_KeyID entry)
                (if ke_State entry = ''active'' then Suc activeCount else activeCount))"

definition buildManagedTokenKeyring :: "keyring_document \<Rightarrow> 64 word \<Rightarrow> wall_time \<Rightarrow> managed_keyring option" where
  "buildManagedTokenKeyring document minimumRevision now =
     (let entries = slice_list (kd_Keys document);
          legacyConfigured = (kd_LegacyUnkeyedKeyID document \<noteq> [] \<or> kd_LegacyUnkeyedVerifyUntilUnix document \<noteq> 0) in
      if kd_Schema document \<noteq> ManagedTokenKeyringSchema \<or> kd_Revision document < minimumRevision \<or>
         kd_Revision document = 0 \<or> \<not> ValidIdentifier (kd_ActiveKeyID document) 64 \<or> length entries < 1 \<or>
         length entries > maximumManagedTokenKeys
      then None
      else if legacyConfigured \<and> (\<not> ValidIdentifier (kd_LegacyUnkeyedKeyID document) 64 \<or>
         \<not> validManagedTime (kd_LegacyUnkeyedVerifyUntilUnix document))
      then None
      else case keyring_entries document now entries [] [] [] 0 of
        None \<Rightarrow> None
      | Some (keys, activeCount) \<Rightarrow>
          if activeCount \<noteq> 1 then None
          else
            let keyring = \<lparr>kr_revision = kd_Revision document, kr_activeKeyID = kd_ActiveKeyID document,
                  kr_legacyUnkeyedKeyID = kd_LegacyUnkeyedKeyID document,
                  kr_legacyVerifyUntil = (if legacyConfigured then wall_of_unix (kd_LegacyUnkeyedVerifyUntilUnix document) else 0),
                  kr_keys = keys\<rparr> in
            if legacyConfigured \<and>
               (case map_of keys (kr_legacyUnkeyedKeyID keyring) of
                  None \<Rightarrow> True
                | Some legacy \<Rightarrow> mk_state legacy \<noteq> ''retiring'' \<or> kr_legacyVerifyUntil keyring > mk_verifyUntil legacy \<or>
                    \<not> kr_legacyVerifyUntil keyring > now)
            then None
            else Some keyring)"

subsection \<open>The document\<close>

definition entry_zero :: keyring_entry where
  "entry_zero = \<lparr>ke_KeyID = [], ke_HMACKeyB64URL = [], ke_State = [], ke_IssueBeforeUnix = 0, ke_VerifyUntilUnix = 0\<rparr>"

definition document_zero :: keyring_document where
  "document_zero = \<lparr>kd_Schema = [], kd_Revision = 0, kd_ActiveKeyID = [], kd_LegacyUnkeyedKeyID = [],
     kd_LegacyUnkeyedVerifyUntilUnix = 0, kd_Keys = None\<rparr>"

definition entry_json :: "keyring_entry \<Rightarrow> json" where
  "entry_json e = JObj [(''key_id'', JStr (ke_KeyID e)), (''hmac_key_b64url'', JStr (ke_HMACKeyB64URL e)),
     (''state'', JStr (ke_State e)), (''issue_before_unix'', JNum (json_int (ke_IssueBeforeUnix e))),
     (''verify_until_unix'', JNum (json_int (ke_VerifyUntilUnix e)))]"

definition document_json :: "keyring_document \<Rightarrow> json" where
  "document_json d = JObj [(''schema'', JStr (kd_Schema d)), (''revision'', JNum (json_nat (unat (kd_Revision d)))),
     (''active_key_id'', JStr (kd_ActiveKeyID d)), (''legacy_unkeyed_key_id'', JStr (kd_LegacyUnkeyedKeyID d)),
     (''legacy_unkeyed_verify_until_unix'', JNum (json_int (kd_LegacyUnkeyedVerifyUntilUnix d))),
     (''keys'', json_slice entry_json (kd_Keys d))]"

definition entry_fields :: "keyring_entry json_fields" where
  "entry_fields =
     [(''key_id'', \<lambda>j e. map_option (\<lambda>v. e\<lparr>ke_KeyID := v\<rparr>) (json_to_string j (ke_KeyID e))),
      (''hmac_key_b64url'', \<lambda>j e. map_option (\<lambda>v. e\<lparr>ke_HMACKeyB64URL := v\<rparr>) (json_to_string j (ke_HMACKeyB64URL e))),
      (''state'', \<lambda>j e. map_option (\<lambda>v. e\<lparr>ke_State := v\<rparr>) (json_to_string j (ke_State e))),
      (''issue_before_unix'', \<lambda>j e. map_option (\<lambda>v. e\<lparr>ke_IssueBeforeUnix := v\<rparr>) (json_to_int64 j (ke_IssueBeforeUnix e))),
      (''verify_until_unix'', \<lambda>j e. map_option (\<lambda>v. e\<lparr>ke_VerifyUntilUnix := v\<rparr>) (json_to_int64 j (ke_VerifyUntilUnix e)))]"

definition json_to_entry :: "json \<Rightarrow> keyring_entry \<Rightarrow> keyring_entry option" where
  "json_to_entry = json_struct True entry_fields"

definition document_fields :: "keyring_document json_fields" where
  "document_fields =
     [(''schema'', \<lambda>j d. map_option (\<lambda>v. d\<lparr>kd_Schema := v\<rparr>) (json_to_string j (kd_Schema d))),
      (''revision'', \<lambda>j d. map_option (\<lambda>v. d\<lparr>kd_Revision := v\<rparr>) (json_to_word j (kd_Revision d))),
      (''active_key_id'', \<lambda>j d. map_option (\<lambda>v. d\<lparr>kd_ActiveKeyID := v\<rparr>) (json_to_string j (kd_ActiveKeyID d))),
      (''legacy_unkeyed_key_id'', \<lambda>j d. map_option (\<lambda>v. d\<lparr>kd_LegacyUnkeyedKeyID := v\<rparr>) (json_to_string j (kd_LegacyUnkeyedKeyID d))),
      (''legacy_unkeyed_verify_until_unix'', \<lambda>j d. map_option (\<lambda>v. d\<lparr>kd_LegacyUnkeyedVerifyUntilUnix := v\<rparr>)
         (json_to_int64 j (kd_LegacyUnkeyedVerifyUntilUnix d))),
      (''keys'', \<lambda>j d. map_option (\<lambda>v. d\<lparr>kd_Keys := v\<rparr>) (json_to_slice json_to_entry entry_zero j (kd_Keys d)))]"

text \<open>\<open>payload\<close> is the content of the private regular file that the path names.\<close>

definition LoadManagedTokenKeyring :: "string \<Rightarrow> 64 word \<Rightarrow> wall_time \<Rightarrow> managed_keyring option" where
  "LoadManagedTokenKeyring payload minimumRevision now =
     (if minimumRevision = 0 \<or> now = 0 then None
      else if length payload < 1 \<or> length payload > maximumManagedKeyringBytes then None
      else if \<not> RejectDuplicateFields payload then None
      else case json_parse payload of
        None \<Rightarrow> None
      | Some j \<Rightarrow>
          (case json_struct True document_fields j document_zero of
             None \<Rightarrow> None
           | Some document \<Rightarrow>
               if json_print (document_json document) \<noteq> payload then None
               else buildManagedTokenKeyring document minimumRevision now))"

subsection \<open>Separate rings\<close>

fun fresh_materials :: "byte list list \<Rightarrow> byte list list \<Rightarrow> byte list list option" where
  "fresh_materials materials [] = Some materials"
| "fresh_materials materials (secret # secrets) =
     (if list_ex (\<lambda>prior. prior = secret) materials then None else fresh_materials (materials @ [secret]) secrets)"

fun keyrings_materials :: "byte list list \<Rightarrow> managed_keyring list \<Rightarrow> byte list list option" where
  "keyrings_materials materials [] = Some materials"
| "keyrings_materials materials (keyring # keyrings) =
     (if kr_keys keyring = [] then None
      else case fresh_materials materials
          (map (\<lambda>i. mk_secret (the (map_of (kr_keys keyring) i))) (sort (map fst (kr_keys keyring)))) of
        None \<Rightarrow> None
      | Some materials' \<Rightarrow> keyrings_materials materials' keyrings)"

fun secrets_fresh :: "byte list list \<Rightarrow> byte list list \<Rightarrow> bool" where
  "secrets_fresh materials [] = True"
| "secrets_fresh materials (secret # secrets) =
     (if length secret < 32 then False
      else if list_ex (\<lambda>prior. prior = secret) materials then False
      else secrets_fresh (materials @ [secret]) secrets)"

definition ManagedTokenKeyringsDisjointFromSecrets :: "managed_keyring list \<Rightarrow> byte list list \<Rightarrow> bool" where
  "ManagedTokenKeyringsDisjointFromSecrets keyrings secrets =
     (case keyrings_materials [] keyrings of
        None \<Rightarrow> False
      | Some materials \<Rightarrow> secrets_fresh materials secrets)"

definition ManagedTokenKeyringsDisjoint :: "managed_keyring list \<Rightarrow> bool" where
  "ManagedTokenKeyringsDisjoint keyrings = ManagedTokenKeyringsDisjointFromSecrets keyrings []"

subsection \<open>Transitions\<close>

definition minimumIssuedTTL :: duration where "minimumIssuedTTL = minute"
definition maximumIssuedTTL :: duration where "maximumIssuedTTL = hour"
definition ManagedTokenTransitionRotate :: string where "ManagedTokenTransitionRotate = ''rotate''"
definition ManagedTokenTransitionForwardRecover :: string where "ManagedTokenTransitionForwardRecover = ''forward-recovery''"
definition managedTokenTransitionSkew :: duration where "managedTokenTransitionSkew = 30 * second"

record transition_summary =
  ts_Transition :: string
  ts_CurrentRevision :: "64 word"
  ts_TargetRevision :: "64 word"
  ts_CurrentActiveKeyID :: string
  ts_TargetActiveKeyID :: string
  ts_CutoverUnix :: int
  ts_MinimumDrainUntilUnix :: int
  ts_OldKeyVerifyUntilUnix :: int

definition sameManagedSecret :: "byte list \<Rightarrow> byte list \<Rightarrow> bool" where
  "sameManagedSecret first second' \<longleftrightarrow> length first = length second' \<and> length first \<ge> 32 \<and> first = second'"

text \<open>The switch on the kind of transition.\<close>

definition transition_kind_ok :: "managed_keyring \<Rightarrow> managed_keyring \<Rightarrow> string \<Rightarrow> managed_key \<Rightarrow> bool" where
  "transition_kind_ok current target transition targetActive =
     (if transition = ManagedTokenTransitionRotate then
        \<not> (map_of (kr_keys current) (kr_activeKeyID target) \<noteq> None \<or>
           length (kr_keys target) \<noteq> length (kr_keys current) + 1)
      else case map_of (kr_keys current) (kr_activeKeyID target) of
        None \<Rightarrow> False
      | Some prior \<Rightarrow>
          \<not> (mk_state prior \<noteq> ''retiring'' \<or> kr_legacyUnkeyedKeyID current = kr_activeKeyID target \<or>
             length (kr_keys target) \<noteq> length (kr_keys current) \<or>
             \<not> sameManagedSecret (mk_secret prior) (mk_secret targetActive) \<or>
             mk_verifyUntil targetActive < mk_verifyUntil prior))"

text \<open>The body of the loop over the current keys.\<close>

definition transition_key_ok :: "managed_keyring \<Rightarrow> managed_keyring \<Rightarrow> string \<Rightarrow> wall_time \<Rightarrow> string \<times> managed_key \<Rightarrow> bool" where
  "transition_key_ok current target transition cutover = (\<lambda>(i, currentKey).
     case map_of (kr_keys target) i of
       None \<Rightarrow> False
     | Some targetKey \<Rightarrow>
         if \<not> sameManagedSecret (mk_secret currentKey) (mk_secret targetKey) then False
         else if i = kr_activeKeyID current then
           \<not> (mk_state targetKey \<noteq> ''retiring'' \<or> mk_issueBefore targetKey \<noteq> cutover \<or>
              mk_verifyUntil targetKey \<noteq> mk_verifyUntil currentKey)
         else if transition = ManagedTokenTransitionForwardRecover \<and> i = kr_activeKeyID target then
           \<not> (mk_state targetKey \<noteq> ''active'' \<or> mk_issueBefore targetKey \<noteq> 0 \<or>
              mk_verifyUntil targetKey < mk_verifyUntil currentKey)
         else
           \<not> (mk_state targetKey \<noteq> mk_state currentKey \<or> mk_issueBefore targetKey \<noteq> mk_issueBefore currentKey \<or>
              mk_verifyUntil targetKey \<noteq> mk_verifyUntil currentKey))"

definition ValidateManagedTokenTransition ::
  "managed_keyring \<Rightarrow> managed_keyring \<Rightarrow> string \<Rightarrow> duration \<Rightarrow> wall_time \<Rightarrow> transition_summary option" where
  "ValidateManagedTokenTransition current target transition maxTTL now =
     (if now = 0 \<or> maxTTL < minimumIssuedTTL \<or> maxTTL > maximumIssuedTTL \<or>
         (transition \<noteq> ManagedTokenTransitionRotate \<and> transition \<noteq> ManagedTokenTransitionForwardRecover)
      then None
      else if kr_revision target \<le> kr_revision current then None
      else case (map_of (kr_keys current) (kr_activeKeyID current), map_of (kr_keys target) (kr_activeKeyID target),
                 map_of (kr_keys target) (kr_activeKeyID current)) of
        (Some currentActive, Some targetActive, Some oldInTarget) \<Rightarrow>
          if mk_state currentActive \<noteq> ''active'' \<or> mk_state targetActive \<noteq> ''active'' \<or> mk_state oldInTarget \<noteq> ''retiring'' \<or>
             \<not> sameManagedSecret (mk_secret currentActive) (mk_secret oldInTarget)
          then None
          else
            let cutover = mk_issueBefore oldInTarget;
                minimumDrain = cutover + (maxTTL + managedTokenTransitionSkew) in
            if \<not> cutover > now + managedTokenTransitionSkew \<or> mk_verifyUntil currentActive < minimumDrain \<or>
               mk_verifyUntil oldInTarget < minimumDrain \<or> mk_verifyUntil targetActive < minimumDrain \<or>
               mk_verifyUntil oldInTarget < mk_verifyUntil currentActive
            then None
            else if \<not> transition_kind_ok current target transition targetActive then None
            else if kr_legacyUnkeyedKeyID current \<noteq> kr_legacyUnkeyedKeyID target \<or>
               kr_legacyVerifyUntil current \<noteq> kr_legacyVerifyUntil target
            then None
            else if \<not> list_all (transition_key_ok current target transition cutover) (kr_keys current) then None
            else Some \<lparr>ts_Transition = transition, ts_CurrentRevision = kr_revision current,
              ts_TargetRevision = kr_revision target, ts_CurrentActiveKeyID = kr_activeKeyID current,
              ts_TargetActiveKeyID = kr_activeKeyID target, ts_CutoverUnix = unix_of_wall cutover,
              ts_MinimumDrainUntilUnix = unix_of_wall minimumDrain,
              ts_OldKeyVerifyUntilUnix = unix_of_wall (mk_verifyUntil oldInTarget)\<rparr>
      | _ \<Rightarrow> None)"

section \<open>Lemmas\<close>

subsection \<open>Built rings\<close>

text \<open>Well-formed keys of a document at the time \<open>now\<close>.\<close>

definition key_wf :: "string \<Rightarrow> wall_time \<Rightarrow> string \<times> managed_key \<Rightarrow> bool" where
  "key_wf active now = (\<lambda>(i, k). mk_id k = i \<and> ValidIdentifier i 64 \<and> 32 \<le> length (mk_secret k) \<and> length (mk_secret k) \<le> 128 \<and>
     now < mk_verifyUntil k \<and>
     (if i = active then mk_state k = ''active'' \<and> mk_issueBefore k = 0
      else mk_state k = ''retiring'' \<and> 0 < mk_issueBefore k \<and> mk_issueBefore k < mk_verifyUntil k))"

definition keyring_wf :: "wall_time \<Rightarrow> managed_keyring \<Rightarrow> bool" where
  "keyring_wf now K \<longleftrightarrow> kr_revision K \<noteq> 0 \<and> wf_map (kr_keys K) \<and> 1 \<le> length (kr_keys K) \<and> length (kr_keys K) \<le> 3 \<and>
     (\<forall>e \<in> set (kr_keys K). key_wf (kr_activeKeyID K) now e) \<and> distinct (map (\<lambda>e. mk_secret (snd e)) (kr_keys K)) \<and>
     map_of (kr_keys K) (kr_activeKeyID K) \<noteq> None \<and>
     (if kr_legacyUnkeyedKeyID K = [] then kr_legacyVerifyUntil K = 0
      else kr_legacyUnkeyedKeyID K \<noteq> kr_activeKeyID K \<and> now < kr_legacyVerifyUntil K \<and>
        (\<exists>k. map_of (kr_keys K) (kr_legacyUnkeyedKeyID K) = Some k \<and> kr_legacyVerifyUntil K \<le> mk_verifyUntil k))"

lemma keyring_key_wf:
  assumes "keyring_key doc now entry secret = Some key" and "ValidIdentifier (ke_KeyID entry) 64"
    and "32 \<le> length secret" and "length secret \<le> 128"
  shows "key_wf (kd_ActiveKeyID doc) now (ke_KeyID entry, key)" and "mk_secret key = secret"
    and "ke_State entry = ''active'' \<longleftrightarrow> ke_KeyID entry = kd_ActiveKeyID doc"
  using assms by (auto simp: keyring_key_def key_wf_def Let_def validManagedTime_def wall_of_unix_def split: if_splits)

lemma keyring_entries_wf:
  assumes "keyring_entries doc now entries keys seen prev n = Some (keys', n')"
    and "\<forall>e \<in> set keys. key_wf (kd_ActiveKeyID doc) now e" and "wf_map keys"
    and "distinct (map (\<lambda>e. mk_secret (snd e)) keys)" and "seen = map (\<lambda>e. mk_secret (snd e)) keys"
    and "\<forall>e \<in> set keys. prev \<noteq> [] \<and> fst e \<le> prev"
    and "n = length (filter (\<lambda>e. fst e = kd_ActiveKeyID doc) keys)"
  shows "(\<forall>e \<in> set keys'. key_wf (kd_ActiveKeyID doc) now e) \<and> wf_map keys' \<and> distinct (map (\<lambda>e. mk_secret (snd e)) keys') \<and>
    length keys' = length keys + length entries \<and> n' = length (filter (\<lambda>e. fst e = kd_ActiveKeyID doc) keys')"
  using assms
proof (induction entries arbitrary: keys seen prev n)
  case Nil
  then show ?case by auto
next
  case (Cons entry entries)
  note prems = Cons.prems
  from prems(1) obtain secret key where
    e: "ValidIdentifier (ke_KeyID entry) 64" "\<not> (prev \<noteq> [] \<and> ke_KeyID entry \<le> prev)"
    and sec: "32 \<le> length secret" "length secret \<le> 128" "secret \<notin> set seen"
    and key: "keyring_key doc now entry secret = Some key"
    and rest: "keyring_entries doc now entries (AList.update (ke_KeyID entry) key keys) (seen @ [secret]) (ke_KeyID entry)
        (if ke_State entry = ''active'' then Suc n else n) = Some (keys', n')"
    by (auto simp: maximumManagedTokenKeyLength_def list_ex_iff not_less split: if_splits option.splits)
  note k = keyring_key_wf [OF key e(1) sec(1,2)]
  have new: "map_of keys (ke_KeyID entry) = None"
    using prems(6) e(2) by (auto simp: map_of_eq_None_iff)
  then have upd: "AList.update (ke_KeyID entry) key keys = keys @ [(ke_KeyID entry, key)]" by (rule update_new)
  have ne: "ke_KeyID entry \<noteq> []" using e(1) by auto
  have le: "fst x \<le> ke_KeyID entry" if "x \<in> set keys" for x
    using prems(6) that e(2) by (meson le_cases order.trans)
  have "(\<forall>e \<in> set keys'. key_wf (kd_ActiveKeyID doc) now e) \<and> wf_map keys' \<and> distinct (map (\<lambda>e. mk_secret (snd e)) keys') \<and>
    length keys' = length (keys @ [(ke_KeyID entry, key)]) + length entries \<and> n' = length (filter (\<lambda>e. fst e = kd_ActiveKeyID doc) keys')"
  proof (rule Cons.IH [OF rest [unfolded upd]])
    show "\<forall>e \<in> set (keys @ [(ke_KeyID entry, key)]). key_wf (kd_ActiveKeyID doc) now e" using prems(2) k(1) by auto
    show "wf_map (keys @ [(ke_KeyID entry, key)])" using prems(3) new by (auto simp: map_of_eq_None_iff)
    show "distinct (map (\<lambda>e. mk_secret (snd e)) (keys @ [(ke_KeyID entry, key)]))" using prems(4,5) sec(3) k(2) by (auto simp: comp_def)
    show "seen @ [secret] = map (\<lambda>e. mk_secret (snd e)) (keys @ [(ke_KeyID entry, key)])" using prems(5) k(2) by simp
    show "\<forall>e \<in> set (keys @ [(ke_KeyID entry, key)]). ke_KeyID entry \<noteq> [] \<and> fst e \<le> ke_KeyID entry" using ne le by auto
    show "(if ke_State entry = ''active'' then Suc n else n) =
        length (filter (\<lambda>e. fst e = kd_ActiveKeyID doc) (keys @ [(ke_KeyID entry, key)]))" using prems(7) k(3) by simp
  qed
  then show ?case by simp
qed

lemma buildManagedTokenKeyring_wf:
  assumes "buildManagedTokenKeyring doc minimum now = Some K" and "0 \<le> now"
  shows "keyring_wf now K \<and> minimum \<le> kr_revision K \<and> kr_revision K = kd_Revision doc"
proof -
  define legacy where "legacy = (kd_LegacyUnkeyedKeyID doc \<noteq> [] \<or> kd_LegacyUnkeyedVerifyUntilUnix doc \<noteq> 0)"
  note def = assms(1) [unfolded buildManagedTokenKeyring_def Let_def, folded legacy_def]
  from def obtain keys where
    head: "kd_Revision doc \<noteq> 0" "minimum \<le> kd_Revision doc" "length (slice_list (kd_Keys doc)) \<le> 3" "slice_list (kd_Keys doc) \<noteq> []"
    and leg: "legacy \<Longrightarrow> ValidIdentifier (kd_LegacyUnkeyedKeyID doc) 64"
    and entries: "keyring_entries doc now (slice_list (kd_Keys doc)) [] [] [] 0 = Some (keys, 1)"
    and K: "K = \<lparr>kr_revision = kd_Revision doc, kr_activeKeyID = kd_ActiveKeyID doc,
        kr_legacyUnkeyedKeyID = kd_LegacyUnkeyedKeyID doc,
        kr_legacyVerifyUntil = (if legacy then wall_of_unix (kd_LegacyUnkeyedVerifyUntilUnix doc) else 0), kr_keys = keys\<rparr>"
    and legkey: "legacy \<Longrightarrow> \<exists>k. map_of keys (kd_LegacyUnkeyedKeyID doc) = Some k \<and> mk_state k = ''retiring'' \<and>
        wall_of_unix (kd_LegacyUnkeyedVerifyUntilUnix doc) \<le> mk_verifyUntil k \<and> now < wall_of_unix (kd_LegacyUnkeyedVerifyUntilUnix doc)"
    by (auto simp: maximumManagedTokenKeys_def not_less split: if_splits option.splits)
  have wf: "(\<forall>e \<in> set keys. key_wf (kd_ActiveKeyID doc) now e) \<and> wf_map keys \<and> distinct (map (\<lambda>e. mk_secret (snd e)) keys) \<and>
    length keys = length (slice_list (kd_Keys doc)) \<and> 1 = length (filter (\<lambda>e. fst e = kd_ActiveKeyID doc) keys)"
    using keyring_entries_wf [OF entries] by simp
  then have "filter (\<lambda>e. fst e = kd_ActiveKeyID doc) keys \<noteq> []" by auto
  then obtain e where "e \<in> set keys" "fst e = kd_ActiveKeyID doc" by (auto simp: filter_empty_conv)
  then have active: "map_of keys (kd_ActiveKeyID doc) \<noteq> None" unfolding map_of_eq_None_iff by (metis imageI)
  have "if kd_LegacyUnkeyedKeyID doc = [] then kr_legacyVerifyUntil K = 0
      else kd_LegacyUnkeyedKeyID doc \<noteq> kd_ActiveKeyID doc \<and> now < kr_legacyVerifyUntil K \<and>
        (\<exists>k. map_of keys (kd_LegacyUnkeyedKeyID doc) = Some k \<and> kr_legacyVerifyUntil K \<le> mk_verifyUntil k)"
  proof (cases legacy)
    case True
    from legkey [OF True] obtain k where k: "map_of keys (kd_LegacyUnkeyedKeyID doc) = Some k" "mk_state k = ''retiring''"
      "wall_of_unix (kd_LegacyUnkeyedVerifyUntilUnix doc) \<le> mk_verifyUntil k" "now < wall_of_unix (kd_LegacyUnkeyedVerifyUntilUnix doc)" by blast
    have "key_wf (kd_ActiveKeyID doc) now (kd_LegacyUnkeyedKeyID doc, k)" using wf map_of_SomeD [OF k(1)] by blast
    then have "kd_LegacyUnkeyedKeyID doc \<noteq> kd_ActiveKeyID doc" using k(2) by (auto simp: key_wf_def)
    with True k leg K show ?thesis by auto
  next
    case False
    then show ?thesis by (simp add: legacy_def K)
  qed
  moreover have "1 \<le> length keys" using wf length_filter_le [of "\<lambda>e. fst e = kd_ActiveKeyID doc" keys] by linarith
  moreover have sel: "kr_keys K = keys" "kr_revision K = kd_Revision doc" "kr_activeKeyID K = kd_ActiveKeyID doc"
    "kr_legacyUnkeyedKeyID K = kd_LegacyUnkeyedKeyID doc" by (simp_all add: K)
  moreover have "length keys \<le> 3" using wf head(3) by simp
  ultimately show ?thesis unfolding keyring_wf_def sel using wf active head(1,2) by blast
qed

subsection \<open>Separate rings\<close>

lemma fresh_materials_iff:
  "fresh_materials ms ss = (if distinct ss \<and> set ss \<inter> set ms = {} then Some (ms @ ss) else None)"
  by (induction ss arbitrary: ms) (auto simp: list_ex_iff)

lemma secrets_fresh_iff:
  "secrets_fresh ms ss \<longleftrightarrow> (\<forall>s \<in> set ss. 32 \<le> length s) \<and> distinct ss \<and> set ss \<inter> set ms = {}"
  by (induction ss arbitrary: ms) (auto simp: list_ex_iff)

text \<open>The secrets of a ring, in the order of their key IDs.\<close>

definition ring_secrets :: "managed_keyring \<Rightarrow> byte list list" where
  "ring_secrets K = map (\<lambda>i. mk_secret (the (map_of (kr_keys K) i))) (sort (map fst (kr_keys K)))"

lemma keyrings_materials_iff:
  "keyrings_materials ms Ks = (if (\<forall>K \<in> set Ks. kr_keys K \<noteq> []) \<and> distinct (concat (map ring_secrets Ks)) \<and>
      set (concat (map ring_secrets Ks)) \<inter> set ms = {} then Some (ms @ concat (map ring_secrets Ks)) else None)"
proof (induction Ks arbitrary: ms)
  case (Cons K Ks)
  show ?case
    by (simp add: fresh_materials_iff ring_secrets_def [symmetric] Cons.IH) blast
qed simp

subsection \<open>The document\<close>

text \<open>The fields of the Go struct are \<^verbatim>\<open>int64\<close>.\<close>

definition document_typed :: "keyring_document \<Rightarrow> bool" where
  "document_typed d \<longleftrightarrow> in_int64 (kd_LegacyUnkeyedVerifyUntilUnix d) \<and>
     (\<forall>e \<in> set (slice_list (kd_Keys d)). in_int64 (ke_IssueBeforeUnix e) \<and> in_int64 (ke_VerifyUntilUnix e))"

lemma entry_json_roundtrip:
  "in_int64 (ke_IssueBeforeUnix e) \<Longrightarrow> in_int64 (ke_VerifyUntilUnix e) \<Longrightarrow> json_to_entry (entry_json e) z = Some e"
  by (simp add: json_to_entry_def entry_json_def json_struct_def entry_fields_def json_field_def in_int64_def)

lemma document_json_roundtrip:
  assumes "document_typed d" and "slice_list (kd_Keys d) \<noteq> []"
  shows "json_struct True document_fields (document_json d) z = Some d"
proof -
  from assms(2) obtain es where es: "kd_Keys d = Some es" by (cases "kd_Keys d") simp_all
  have "json_to_slice json_to_entry entry_zero (json_slice entry_json (Some es)) old = Some (Some es)" for old
    by (rule json_to_slice_json) (rule entry_json_roundtrip, use assms(1) es in \<open>simp_all add: document_typed_def\<close>)
  with assms(1) es show ?thesis
    by (simp add: document_json_def json_struct_def document_fields_def json_field_def document_typed_def in_int64_def
        json_to_word_nat)
qed

text \<open>The entries of a document from which a ring was built.\<close>

definition entry_ok :: "keyring_entry \<Rightarrow> bool" where
  "entry_ok e \<longleftrightarrow> ValidIdentifier (ke_KeyID e) 64 \<and> (ke_State e = ''active'' \<or> ke_State e = ''retiring'') \<and>
     (\<exists>secret. length secret \<le> 128 \<and> ke_HMACKeyB64URL e = b64_encode secret)"

lemma keyring_entries_ok:
  "keyring_entries doc now entries keys seen prev n = Some r \<Longrightarrow> \<forall>e \<in> set entries. entry_ok e"
proof (induction entries arbitrary: keys seen prev n)
  case (Cons entry entries)
  from Cons.prems obtain secret key keys' seen' prev' n' where
    "ValidIdentifier (ke_KeyID entry) 64" "length secret \<le> 128" "b64_encode secret = ke_HMACKeyB64URL entry"
    and key: "keyring_key doc now entry secret = Some key"
    and rest: "keyring_entries doc now entries keys' seen' prev' n' = Some r"
    by (auto simp: maximumManagedTokenKeyLength_def not_less split: if_splits option.splits)
  moreover have "ke_State entry = ''active'' \<or> ke_State entry = ''retiring''"
    using key by (auto simp: keyring_key_def Let_def split: if_splits)
  ultimately have "entry_ok entry" unfolding entry_ok_def by metis
  with Cons.IH [OF rest] show ?case by simp
qed simp

lemma buildManagedTokenKeyring_document:
  assumes "buildManagedTokenKeyring doc minimum now = Some K"
  shows "kd_Schema doc = ManagedTokenKeyringSchema" and "ValidIdentifier (kd_ActiveKeyID doc) 64"
    and "kd_LegacyUnkeyedKeyID doc = [] \<or> ValidIdentifier (kd_LegacyUnkeyedKeyID doc) 64"
    and "slice_list (kd_Keys doc) \<noteq> []" and "length (slice_list (kd_Keys doc)) \<le> 3"
    and "\<forall>e \<in> set (slice_list (kd_Keys doc)). entry_ok e"
proof -
  note def = assms [unfolded buildManagedTokenKeyring_def Let_def]
  from def show "kd_Schema doc = ManagedTokenKeyringSchema" and "ValidIdentifier (kd_ActiveKeyID doc) 64"
    and "kd_LegacyUnkeyedKeyID doc = [] \<or> ValidIdentifier (kd_LegacyUnkeyedKeyID doc) 64"
    and "slice_list (kd_Keys doc) \<noteq> []" and "length (slice_list (kd_Keys doc)) \<le> 3"
    by (auto simp: maximumManagedTokenKeys_def split: if_splits)
  from def obtain r where "keyring_entries doc now (slice_list (kd_Keys doc)) [] [] [] 0 = Some r"
    by (cases "keyring_entries doc now (slice_list (kd_Keys doc)) [] [] [] 0") (auto split: if_splits)
  then show "\<forall>e \<in> set (slice_list (kd_Keys doc)). entry_ok e" by (rule keyring_entries_ok)
qed

lemma entry_ok_json: "entry_ok e \<Longrightarrow> json_ok (Suc 0) (entry_json e)"
  by (auto simp: entry_ok_def entry_json_def b64_encode_ascii dest: ValidIdentifier_ascii)

lemma entry_size:
  assumes "entry_ok e" and "in_int64 (ke_IssueBeforeUnix e)" and "in_int64 (ke_VerifyUntilUnix e)"
  shows "json_size (entry_json e) \<le> 3000"
proof -
  from assms(1) have "length (ke_KeyID e) \<le> 64" "length (ke_State e) \<le> 8" "length (ke_HMACKeyB64URL e) \<le> 171"
    by (auto simp: entry_ok_def length_b64_encode dest: ValidIdentifier_length)
  with length_json_int [of "ke_IssueBeforeUnix e"] length_json_int [of "ke_VerifyUntilUnix e"] assms(2,3)
  show ?thesis by (simp add: entry_json_def in_int64_def)
qed

lemma strict_document: "slice_list (kd_Keys d) \<noteq> [] \<Longrightarrow> strict_value (document_json d)"
proof -
  have "strict_elements (map entry_json es)" for es by (induction es) (simp_all add: entry_json_def)
  then show "slice_list (kd_Keys d) \<noteq> [] \<Longrightarrow> strict_value (document_json d)"
    by (cases "kd_Keys d") (simp_all add: document_json_def json_slice_def)
qed

lemma Load_document:
  assumes "buildManagedTokenKeyring doc minimum now = Some K" and "document_typed doc" and "minimum \<noteq> 0" and "now \<noteq> 0"
  shows "LoadManagedTokenKeyring (json_print (document_json doc)) minimum now = Some K"
proof -
  note B = buildManagedTokenKeyring_document [OF assms(1)]
  from B(4) obtain es where es: "kd_Keys doc = Some es" by (cases "kd_Keys doc") simp_all
  have "json_ok (Suc (Suc 0)) (json_slice entry_json (kd_Keys doc))"
    using B(6) es entry_ok_json by (simp add: json_slice_def list_all_iff)
  then have ok: "json_ok 3 (document_json doc)"
    using B(1-3) by (auto simp: document_json_def numeral_3_eq_3 ManagedTokenKeyringSchema_def dest: ValidIdentifier_ascii)
  have "json_size (json_slice entry_json (kd_Keys doc)) \<le> length (slice_list (kd_Keys doc)) * Suc 3000 + 5"
    by (rule json_size_slice, rule entry_size) (use B(6) assms(2) in \<open>simp_all add: document_typed_def\<close>)
  moreover have "length (kd_ActiveKeyID doc) \<le> 64" "length (kd_LegacyUnkeyedKeyID doc) \<le> 64"
    using B(2,3) by (auto dest: ValidIdentifier_length)
  moreover have "length (json_int (kd_LegacyUnkeyedVerifyUntilUnix doc)) \<le> 21"
    using assms(2) by (simp add: document_typed_def in_int64_def length_json_int)
  ultimately have "json_size (document_json doc) \<le> 20000"
    using B(1,5) length_json_word [of "kd_Revision doc"] by (simp add: document_json_def ManagedTokenKeyringSchema_def)
  with json_size_bound [OF ok] have len: "length (json_print (document_json doc)) \<le> maximumManagedKeyringBytes"
    by (simp add: maximumManagedKeyringBytes_def)
  have long: "3 \<le> length (json_print (document_json doc))"
    by (simp add: document_json_def)
  have parse: "json_parse (json_print (document_json doc)) = Some (document_json doc)"
    using json_parse_print [OF ok, of "[]"] by (simp add: json_max_depth_def json_stop_def)
  have dup: "RejectDuplicateFields (json_print (document_json doc))"
    using json_parse_depth_print [OF ok long, of "[]"] strict_document [OF B(4)]
    by (simp add: RejectDuplicateFields_def json_stop_def)
  have "json_print (document_json doc) \<noteq> []" using long by auto
  then show ?thesis
    using len dup parse document_json_roundtrip [OF assms(2) B(4)] assms(1,3,4)
    by (simp add: LoadManagedTokenKeyring_def)
qed

text \<open>An example document with an active and a retiring key.\<close>

definition ex_document :: keyring_document where
  "ex_document = \<lparr>kd_Schema = ManagedTokenKeyringSchema, kd_Revision = 7, kd_ActiveKeyID = ''key-b'',
     kd_LegacyUnkeyedKeyID = ''key-a'', kd_LegacyUnkeyedVerifyUntilUnix = 1800000000,
     kd_Keys = Some [\<lparr>ke_KeyID = ''key-a'', ke_HMACKeyB64URL = b64_encode (replicate 32 1), ke_State = ''retiring'',
         ke_IssueBeforeUnix = 1750000000, ke_VerifyUntilUnix = 1900000000\<rparr>,
       \<lparr>ke_KeyID = ''key-b'', ke_HMACKeyB64URL = b64_encode (replicate 32 2), ke_State = ''active'',
         ke_IssueBeforeUnix = 0, ke_VerifyUntilUnix = 2000000000\<rparr>]\<rparr>"

definition ex_keyring :: managed_keyring where
  "ex_keyring = \<lparr>kr_revision = 7, kr_activeKeyID = ''key-b'', kr_legacyUnkeyedKeyID = ''key-a'',
     kr_legacyVerifyUntil = wall_of_unix 1800000000,
     kr_keys = [(''key-a'', \<lparr>mk_id = ''key-a'', mk_secret = replicate 32 1, mk_state = ''retiring'',
         mk_issueBefore = wall_of_unix 1750000000, mk_verifyUntil = wall_of_unix 1900000000\<rparr>),
       (''key-b'', \<lparr>mk_id = ''key-b'', mk_secret = replicate 32 2, mk_state = ''active'',
         mk_issueBefore = 0, mk_verifyUntil = wall_of_unix 2000000000\<rparr>)]\<rparr>"

lemma ex_document_facts:
  "buildManagedTokenKeyring ex_document 5 (wall_of_unix 1760000000) = Some ex_keyring" "document_typed ex_document"
  by code_simp+

section \<open>Properties\<close>

text \<open>C25. Round trip of the keyring file: a document from which a ring can be built, written as canonical
  JSON, is within the size limit, has no duplicate fields, and loads as exactly that ring.\<close>

theorem LoadManagedTokenKeyring_roundtrip:
  assumes "buildManagedTokenKeyring doc minimum now = Some K" and "document_typed doc" and "minimum \<noteq> 0" and "now \<noteq> 0"
  shows "LoadManagedTokenKeyring (json_print (document_json doc)) minimum now = Some K"
  by (rule Load_document [OF assms])

theorem LoadManagedTokenKeyring_roundtrip_witness:
  "LoadManagedTokenKeyring (json_print (document_json ex_document)) 5 (wall_of_unix 1760000000) = Some ex_keyring"
  by (rule LoadManagedTokenKeyring_roundtrip [OF ex_document_facts]) (simp_all add: wall_of_unix_def)

text \<open>C24. A ring that \<^verbatim>\<open>LoadManagedTokenKeyring\<close> accepts is well formed and not rolled back: its revision is at
  least the approved minimum, it has one to three keys with unique IDs and pairwise different secrets of 32
  to 128 bytes that are not expired, exactly the active key is active and every other one is retiring
  with an issue cutover before its expiry, and an unkeyed legacy key is a retiring one.\<close>

theorem LoadManagedTokenKeyring_wf:
  assumes "LoadManagedTokenKeyring payload minimum now = Some K" and "0 \<le> now"
  shows "keyring_wf now K \<and> minimum \<le> kr_revision K"
proof -
  from assms(1) obtain doc where "buildManagedTokenKeyring doc minimum now = Some K"
    by (auto simp: LoadManagedTokenKeyring_def split: if_splits option.splits)
  from buildManagedTokenKeyring_wf [OF this assms(2)] show ?thesis by blast
qed

theorem LoadManagedTokenKeyring_wf_witness:
  "keyring_wf (wall_of_unix 1760000000) ex_keyring \<and> 5 \<le> kr_revision ex_keyring"
proof -
  have "LoadManagedTokenKeyring (json_print (document_json ex_document)) 5 (wall_of_unix 1760000000) = Some ex_keyring"
    by (rule Load_document [OF ex_document_facts]) (simp_all add: wall_of_unix_def)
  from LoadManagedTokenKeyring_wf [OF this] show ?thesis by (simp add: wall_of_unix_def)
qed

text \<open>C26. Domain separation: \<^verbatim>\<open>ManagedTokenKeyringsDisjointFromSecrets\<close> accepts exactly when every ring has a
  key, every further secret has at least 32 bytes, and no secret occurs twice anywhere, in a ring, in
  two rings, or among the further secrets.\<close>

theorem keyrings_disjoint_exact:
  "ManagedTokenKeyringsDisjointFromSecrets Ks secrets =
    (list_all (\<lambda>K. kr_keys K \<noteq> []) Ks \<and> list_all (\<lambda>s. 32 \<le> length s) secrets \<and>
     distinct (concat (map ring_secrets Ks) @ secrets))"
  by (auto simp: ManagedTokenKeyringsDisjointFromSecrets_def keyrings_materials_iff secrets_fresh_iff list_all_iff)

end
