(* ===== verification/Token.thy ===== *)
theory Token
  imports Keyring
begin

text \<open>
  \<^verbatim>\<open>internal/auth/token.go\<close> and \<^verbatim>\<open>issuer.go\<close>: HMAC bearer tokens for devices and the companion app, with a
  fixed list of secrets or a managed ring. All clock readings of one call are one instant \<open>now\<close> (wall
  time); an issuer's random source is a finite list of bytes whose exhaustion is an error.
\<close>

section \<open>Definitions\<close>

subsection \<open>Data\<close>

definition VoiceAudience :: string where "VoiceAudience = ''xiaozhi-agent-gateway''"
definition AgentAudience :: string where "AgentAudience = ''xiaozhi-agent-proxy''"
definition OTAAudience :: string where "OTAAudience = ''xiaozhi-product-ota''"
definition CompanionAudience :: string where "CompanionAudience = ''xiaozhi-companion-claim''"
definition CompanionClaimAction :: string where "CompanionClaimAction = ''device:claim''"
definition CompanionReleaseAction :: string where "CompanionReleaseAction = ''device:release''"
definition CompanionConsentAction :: string where "CompanionConsentAction = ''device:action-consent''"
definition maxTokenBytes :: nat where "maxTokenBytes = 2048"
definition maxDeviceID :: nat where "maxDeviceID = 64"

datatype token_error = TokMalformed | TokSignature | TokClaims | TokExpired | TokKeyRetired | TokRandom

record claims =
  cm_DeviceID :: string
  cm_Subject :: string
  cm_Issuer :: string
  cm_OwnerID :: string
  cm_TenantID :: string
  cm_BindingID :: string
  cm_BindingRevision :: "64 word"
  cm_Action :: string
  cm_Audience :: string
  cm_IssuedAt :: int
  cm_Expires :: int
  cm_TokenID :: string
  cm_ReleaseID :: string
  cm_ImageSHA256 :: string
  cm_SigningKeyID :: string

definition claims_zero :: claims where
  "claims_zero = \<lparr>cm_DeviceID = [], cm_Subject = [], cm_Issuer = [], cm_OwnerID = [], cm_TenantID = [], cm_BindingID = [],
     cm_BindingRevision = 0, cm_Action = [], cm_Audience = [], cm_IssuedAt = 0, cm_Expires = 0, cm_TokenID = [],
     cm_ReleaseID = [], cm_ImageSHA256 = [], cm_SigningKeyID = []\<rparr>"

text \<open>A string member with \<^verbatim>\<open>omitempty\<close> in front of the others.\<close>

definition omit_empty :: "string \<Rightarrow> string \<Rightarrow> (string \<times> json) list \<Rightarrow> (string \<times> json) list" where
  "omit_empty name v ms = (if v = [] then ms else (name, JStr v) # ms)"

definition claims_json :: "claims \<Rightarrow> json" where
  "claims_json c = JObj
     (omit_empty ''device_id'' (cm_DeviceID c)
     (omit_empty ''sub'' (cm_Subject c)
     (omit_empty ''iss'' (cm_Issuer c)
     (omit_empty ''owner_id'' (cm_OwnerID c)
     (omit_empty ''tenant_id'' (cm_TenantID c)
     (omit_empty ''binding_id'' (cm_BindingID c)
     ((if cm_BindingRevision c = 0 then (\<lambda>ms. ms)
       else (#) (''binding_revision'', JNum (json_nat (unat (cm_BindingRevision c)))))
     (omit_empty ''action'' (cm_Action c)
     ((''aud'', JStr (cm_Audience c)) # (''iat'', JNum (json_int (cm_IssuedAt c))) # (''exp'', JNum (json_int (cm_Expires c))) #
     (omit_empty ''jti'' (cm_TokenID c)
     (omit_empty ''release_id'' (cm_ReleaseID c)
     (omit_empty ''image_sha256'' (cm_ImageSHA256 c) []))))))))))))"

definition claims_fields :: "claims json_fields" where
  "claims_fields =
     [(''device_id'', \<lambda>j c. map_option (\<lambda>v. c\<lparr>cm_DeviceID := v\<rparr>) (json_to_string j (cm_DeviceID c))),
      (''sub'', \<lambda>j c. map_option (\<lambda>v. c\<lparr>cm_Subject := v\<rparr>) (json_to_string j (cm_Subject c))),
      (''iss'', \<lambda>j c. map_option (\<lambda>v. c\<lparr>cm_Issuer := v\<rparr>) (json_to_string j (cm_Issuer c))),
      (''owner_id'', \<lambda>j c. map_option (\<lambda>v. c\<lparr>cm_OwnerID := v\<rparr>) (json_to_string j (cm_OwnerID c))),
      (''tenant_id'', \<lambda>j c. map_option (\<lambda>v. c\<lparr>cm_TenantID := v\<rparr>) (json_to_string j (cm_TenantID c))),
      (''binding_id'', \<lambda>j c. map_option (\<lambda>v. c\<lparr>cm_BindingID := v\<rparr>) (json_to_string j (cm_BindingID c))),
      (''binding_revision'', \<lambda>j c. map_option (\<lambda>v. c\<lparr>cm_BindingRevision := v\<rparr>) (json_to_word j (cm_BindingRevision c))),
      (''action'', \<lambda>j c. map_option (\<lambda>v. c\<lparr>cm_Action := v\<rparr>) (json_to_string j (cm_Action c))),
      (''aud'', \<lambda>j c. map_option (\<lambda>v. c\<lparr>cm_Audience := v\<rparr>) (json_to_string j (cm_Audience c))),
      (''iat'', \<lambda>j c. map_option (\<lambda>v. c\<lparr>cm_IssuedAt := v\<rparr>) (json_to_int64 j (cm_IssuedAt c))),
      (''exp'', \<lambda>j c. map_option (\<lambda>v. c\<lparr>cm_Expires := v\<rparr>) (json_to_int64 j (cm_Expires c))),
      (''jti'', \<lambda>j c. map_option (\<lambda>v. c\<lparr>cm_TokenID := v\<rparr>) (json_to_string j (cm_TokenID c))),
      (''release_id'', \<lambda>j c. map_option (\<lambda>v. c\<lparr>cm_ReleaseID := v\<rparr>) (json_to_string j (cm_ReleaseID c))),
      (''image_sha256'', \<lambda>j c. map_option (\<lambda>v. c\<lparr>cm_ImageSHA256 := v\<rparr>) (json_to_string j (cm_ImageSHA256 c)))]"

subsection \<open>The verifier\<close>

record verifier =
  vf_secrets :: "byte list list"
  vf_managed :: "managed_keyring option"
  vf_audience :: string
  vf_maxTTL :: duration
  vf_skew :: duration

definition NewKeyringVerifierForAudience :: "byte list list \<Rightarrow> duration \<Rightarrow> string \<Rightarrow> verifier option" where
  "NewKeyringVerifierForAudience secrets maxTTL audience =
     (if secrets = [] \<or> length secrets > 3 then None
      else if maxTTL \<le> 0 \<or> \<not> ValidIdentifier audience 64 then None
      else if list_ex (\<lambda>secret. length secret < 32) secrets then None
      else Some \<lparr>vf_secrets = secrets, vf_managed = None, vf_audience = audience, vf_maxTTL = maxTTL, vf_skew = 30 * second\<rparr>)"

definition NewManagedKeyringVerifierForAudience :: "managed_keyring \<Rightarrow> duration \<Rightarrow> string \<Rightarrow> wall_time \<Rightarrow> verifier option" where
  "NewManagedKeyringVerifierForAudience keyring maxTTL audience now =
     (if length (kr_keys keyring) < 1 \<or> maxTTL \<le> 0 \<or> \<not> ValidIdentifier audience 64 then None
      else case map_of (kr_keys keyring) (kr_activeKeyID keyring) of
        None \<Rightarrow> None
      | Some active \<Rightarrow>
          if mk_state active \<noteq> ''active'' \<or> mk_verifyUntil active < now + i64 (maxTTL + 30 * second) then None
          else if list_ex (\<lambda>(i, key). mk_state key = ''retiring'' \<and>
              mk_verifyUntil key < mk_issueBefore key + i64 (maxTTL + 30 * second)) (kr_keys keyring)
          then None
          else Some \<lparr>vf_secrets = [], vf_managed = Some keyring, vf_audience = audience, vf_maxTTL = maxTTL,
            vf_skew = 30 * second\<rparr>)"

definition NewKeyringVerifier :: "byte list list \<Rightarrow> duration \<Rightarrow> verifier option" where
  "NewKeyringVerifier secrets maxTTL = NewKeyringVerifierForAudience secrets maxTTL VoiceAudience"

definition NewVerifier :: "byte list \<Rightarrow> duration \<Rightarrow> verifier option" where
  "NewVerifier secret maxTTL = NewKeyringVerifier [secret] maxTTL"

definition NewVerifierForAudience :: "byte list \<Rightarrow> duration \<Rightarrow> string \<Rightarrow> verifier option" where
  "NewVerifierForAudience secret maxTTL audience = NewKeyringVerifierForAudience [secret] maxTTL audience"

definition NewManagedKeyringVerifier :: "managed_keyring \<Rightarrow> duration \<Rightarrow> wall_time \<Rightarrow> verifier option" where
  "NewManagedKeyringVerifier keyring maxTTL now = NewManagedKeyringVerifierForAudience keyring maxTTL VoiceAudience now"

definition AcceptsAudience :: "verifier \<Rightarrow> string \<Rightarrow> bool" where
  "AcceptsAudience V audience \<longleftrightarrow> vf_audience V = audience"

text \<open>\<^verbatim>\<open>strings.Split\<close> and \<^verbatim>\<open>strings.Join\<close> at dots.\<close>

fun split_dots :: "string \<Rightarrow> string list" where
  "split_dots [] = [[]]"
| "split_dots (c # cs) =
     (if c = CHR ''.'' then [] # split_dots cs
      else case split_dots cs of [] \<Rightarrow> [[c]] | part # parts \<Rightarrow> (c # part) # parts)"

fun join_dots :: "string list \<Rightarrow> string" where
  "join_dots [] = []"
| "join_dots [part] = part"
| "join_dots (part # parts) = part @ CHR ''.'' # join_dots parts"

definition validCompanionActionDevice :: "string \<Rightarrow> string \<Rightarrow> bool" where
  "validCompanionActionDevice action deviceID =
     (if action = CompanionClaimAction then deviceID = []
      else if action = CompanionReleaseAction \<or> action = CompanionConsentAction then ValidIdentifier deviceID maxDeviceID
      else False)"

text \<open>The switch of \<^verbatim>\<open>validateClaims\<close> on the audience.\<close>

definition claims_scope_ok :: "string \<Rightarrow> claims \<Rightarrow> bool" where
  "claims_scope_ok version c =
     (if cm_Audience c = CompanionAudience then
        \<not> ((version \<noteq> ''v1'' \<and> version \<noteq> ''v2'') \<or> \<not> ValidIdentifier (cm_Subject c) 128 \<or>
           \<not> ValidIdentifier (cm_TenantID c) 128 \<or> cm_Issuer c \<noteq> [] \<or> cm_OwnerID c \<noteq> [] \<or> cm_BindingID c \<noteq> [] \<or>
           cm_BindingRevision c \<noteq> 0 \<or> cm_TokenID c = [] \<or> cm_ReleaseID c \<noteq> [] \<or> cm_ImageSHA256 c \<noteq> [] \<or>
           \<not> validCompanionActionDevice (cm_Action c) (cm_DeviceID c))
      else if cm_Audience c = VoiceAudience \<or> cm_Audience c = AgentAudience then
        \<not> ((version \<noteq> ''v3'' \<and> version \<noteq> ''v4'') \<or> \<not> ValidIdentifier (cm_DeviceID c) maxDeviceID \<or>
           \<not> ValidIdentifier (cm_OwnerID c) 128 \<or> \<not> ValidIdentifier (cm_TenantID c) 128 \<or>
           \<not> ValidBindingID (cm_BindingID c) \<or> \<not> ValidBindingRevision (cm_BindingRevision c) \<or> cm_TokenID c = [] \<or>
           cm_Subject c \<noteq> [] \<or> cm_Issuer c \<noteq> [] \<or> cm_Action c \<noteq> [] \<or> cm_ReleaseID c \<noteq> [] \<or> cm_ImageSHA256 c \<noteq> [])
      else if cm_Audience c = OTAAudience then
        \<not> ((version \<noteq> ''v1'' \<and> version \<noteq> ''v2'') \<or> \<not> ValidIdentifier (cm_DeviceID c) maxDeviceID \<or>
           cm_Subject c \<noteq> [] \<or> cm_Issuer c \<noteq> [] \<or> cm_OwnerID c \<noteq> [] \<or> cm_TenantID c \<noteq> [] \<or> cm_BindingID c \<noteq> [] \<or>
           cm_BindingRevision c \<noteq> 0 \<or> cm_Action c \<noteq> [] \<or> \<not> ValidIdentifier (cm_ReleaseID c) 64 \<or>
           \<not> validSHA256 (cm_ImageSHA256 c) \<or> cm_TokenID c = [])
      else
        \<not> ((version \<noteq> ''v1'' \<and> version \<noteq> ''v2'') \<or> \<not> ValidIdentifier (cm_DeviceID c) maxDeviceID \<or>
           cm_Subject c \<noteq> [] \<or> cm_Issuer c \<noteq> [] \<or> cm_OwnerID c \<noteq> [] \<or> cm_TenantID c \<noteq> [] \<or> cm_BindingID c \<noteq> [] \<or>
           cm_BindingRevision c \<noteq> 0 \<or> cm_ReleaseID c \<noteq> [] \<or> cm_Action c \<noteq> [] \<or> cm_ImageSHA256 c \<noteq> []))"

definition tok_validateClaims :: "verifier \<Rightarrow> wall_time \<Rightarrow> string \<Rightarrow> claims \<Rightarrow> token_error option" where
  "tok_validateClaims V t version c =
     (let now = unix_of_wall t;
          skewSeconds = vf_skew V sdiv second;
          maxTTLSeconds = vf_maxTTL V sdiv second in
      if cm_Audience c \<noteq> vf_audience V \<or> cm_IssuedAt c \<le> 0 \<or> cm_Expires c \<le> cm_IssuedAt c \<or>
         i64 (cm_Expires c - cm_IssuedAt c) > maxTTLSeconds
      then Some TokClaims
      else if cm_IssuedAt c > i64 (now + skewSeconds) then Some TokClaims
      else if cm_Expires c \<le> i64 (now - skewSeconds) then Some TokExpired
      else if cm_TokenID c \<noteq> [] \<and> \<not> ValidIdentifier (cm_TokenID c) 128 then Some TokClaims
      else if \<not> claims_scope_ok version c then Some TokClaims
      else None)"

text \<open>The first part of \<^verbatim>\<open>Verify\<close>: the key of a managed verifier, whether the token is an unkeyed one under
  a managed ring, and the index of the payload.\<close>

definition tok_select :: "verifier \<Rightarrow> wall_time \<Rightarrow> string list \<Rightarrow> token_error + (managed_key option \<times> bool \<times> nat)" where
  "tok_select V now parts =
     (let version = parts ! 0 in
      if length parts = 4 then
        (case vf_managed V of
           None \<Rightarrow> Inl TokMalformed
         | Some keyring \<Rightarrow>
             if (version \<noteq> ''v2'' \<and> version \<noteq> ''v4'') \<or> \<not> ValidIdentifier (parts ! 1) 64 \<or> parts ! 2 = [] \<or> parts ! 3 = []
             then Inl TokMalformed
             else (case map_of (kr_keys keyring) (parts ! 1) of
                     None \<Rightarrow> Inl TokSignature
                   | Some key \<Rightarrow> Inr (Some key, False, 2)))
      else if (version \<noteq> ''v1'' \<and> version \<noteq> ''v3'') \<or> parts ! 1 = [] \<or> parts ! 2 = [] then Inl TokMalformed
      else (case vf_managed V of
              Some keyring \<Rightarrow>
                if kr_legacyUnkeyedKeyID keyring = [] \<or> \<not> now < kr_legacyVerifyUntil keyring then Inl TokKeyRetired
                else (case map_of (kr_keys keyring) (kr_legacyUnkeyedKeyID keyring) of
                        None \<Rightarrow> Inl TokKeyRetired
                      | Some key \<Rightarrow> if mk_state key \<noteq> ''retiring'' then Inl TokKeyRetired else Inr (Some key, True, 1))
            | None \<Rightarrow> if vf_secrets V = [] then Inl TokMalformed else Inr (None, False, 1)))"

definition tok_hmac :: "byte list \<Rightarrow> string \<Rightarrow> byte list" where
  "tok_hmac secret signingInput = hmac_sha256 secret (bytes_of signingInput)"

definition tok_signed :: "verifier \<Rightarrow> managed_key option \<Rightarrow> string \<Rightarrow> byte list \<Rightarrow> bool" where
  "tok_signed V verificationKey signingInput signature =
     ((case verificationKey of None \<Rightarrow> False | Some key \<Rightarrow> signature = tok_hmac (mk_secret key) signingInput) \<or>
      list_ex (\<lambda>secret. signature = tok_hmac secret signingInput) (vf_secrets V))"

text \<open>The checks of the claims against the window of the managed key.\<close>

definition tok_key_window :: "verifier \<Rightarrow> managed_key \<Rightarrow> bool \<Rightarrow> claims \<Rightarrow> bool" where
  "tok_key_window V key legacyManaged c =
     (\<not> (cm_Expires c > unix_of_wall (mk_verifyUntil key) \<or>
         (mk_state key = ''retiring'' \<and>
          (cm_IssuedAt c \<ge> unix_of_wall (mk_issueBefore key) \<or>
           (legacyManaged \<and> cm_Expires c > unix_of_wall (kr_legacyVerifyUntil (the (vf_managed V))))))))"

definition tok_Verify :: "verifier \<Rightarrow> wall_time \<Rightarrow> string \<Rightarrow> token_error + claims" where
  "tok_Verify V now token =
     (if length token = 0 \<or> length token > maxTokenBytes then Inl TokMalformed
      else
        let parts = split_dots token in
        if length parts \<noteq> 3 \<and> length parts \<noteq> 4 then Inl TokMalformed
        else case tok_select V now parts of
          Inl e \<Rightarrow> Inl e
        | Inr (verificationKey, legacyManaged, payloadIndex) \<Rightarrow>
            (case b64_decode (parts ! payloadIndex) of
               None \<Rightarrow> Inl TokMalformed
             | Some payload \<Rightarrow>
                 (case b64_decode (parts ! Suc payloadIndex) of
                    None \<Rightarrow> Inl TokMalformed
                  | Some signature \<Rightarrow>
                      if length signature \<noteq> 32 then Inl TokMalformed
                      else if (case verificationKey of None \<Rightarrow> False | Some key \<Rightarrow> \<not> now < mk_verifyUntil key)
                      then Inl TokKeyRetired
                      else if \<not> tok_signed V verificationKey (join_dots (take (Suc payloadIndex) parts)) signature
                      then Inl TokSignature
                      else case json_parse (string_of_bytes payload) of
                        None \<Rightarrow> Inl TokClaims
                      | Some j \<Rightarrow>
                          (case json_struct True claims_fields j claims_zero of
                             None \<Rightarrow> Inl TokClaims
                           | Some c \<Rightarrow>
                               (case tok_validateClaims V now (parts ! 0) c of
                                  Some e \<Rightarrow> Inl e
                                | None \<Rightarrow>
                                    (case verificationKey of
                                       None \<Rightarrow> Inr c
                                     | Some key \<Rightarrow>
                                         if \<not> tok_key_window V key legacyManaged c then Inl TokKeyRetired
                                         else Inr (c\<lparr>cm_SigningKeyID := mk_id key\<rparr>)))))))"

text \<open>\<^verbatim>\<open>strings.TrimSpace\<close>: the UTF-8 encodings of Unicode white space at both ends.\<close>

definition unicode_spaces :: "string list" where
  "unicode_spaces = map utf8_encode ([9, 10, 11, 12, 13, 32, 133, 160, 5760] @ [8192..<8203] @ [8232, 8233, 8239, 8287, 12288])"

function trim_left :: "string \<Rightarrow> string" where
  "trim_left s = (case filter (\<lambda>w. w \<noteq> [] \<and> take (length w) s = w) unicode_spaces of
     [] \<Rightarrow> s | w # _ \<Rightarrow> trim_left (drop (length w) s))"
  by pat_completeness auto

termination trim_left
proof (relation "measure length", simp)
  fix s w ws
  assume "filter (\<lambda>w. w \<noteq> [] \<and> take (length w) s = w) unicode_spaces = w # ws"
  then have "w \<in> set (filter (\<lambda>w. w \<noteq> [] \<and> take (length w) s = w) unicode_spaces)" by simp
  then have "w \<noteq> []" "take (length w) s = w" by simp_all
  then have "s \<noteq> []" by auto
  with \<open>w \<noteq> []\<close> show "(drop (length w) s, s) \<in> measure length" by simp
qed

function trim_right :: "string \<Rightarrow> string" where
  "trim_right s = (case filter (\<lambda>w. w \<noteq> [] \<and> take (length w) (rev s) = rev w) unicode_spaces of
     [] \<Rightarrow> s | w # _ \<Rightarrow> trim_right (rev (drop (length w) (rev s))))"
  by pat_completeness auto

termination trim_right
proof (relation "measure length", simp)
  fix s w ws
  assume "filter (\<lambda>w. w \<noteq> [] \<and> take (length w) (rev s) = rev w) unicode_spaces = w # ws"
  then have "w \<in> set (filter (\<lambda>w. w \<noteq> [] \<and> take (length w) (rev s) = rev w) unicode_spaces)" by simp
  then have "w \<noteq> []" "take (length w) (rev s) = rev w" by simp_all
  then have "s \<noteq> []" by auto
  with \<open>w \<noteq> []\<close> show "(rev (drop (length w) (rev s)), s) \<in> measure length" by simp
qed

definition VerifyAuthorization :: "verifier \<Rightarrow> wall_time \<Rightarrow> string \<Rightarrow> token_error + claims" where
  "VerifyAuthorization V now header =
     (if take 7 header \<noteq> ''Bearer '' \<or> length header \<le> 7 then Inl TokMalformed
      else tok_Verify V now (trim_right (trim_left (drop 7 header))))"

definition VerifyAuthorizationForRelease :: "verifier \<Rightarrow> wall_time \<Rightarrow> string \<Rightarrow> string \<Rightarrow> string \<Rightarrow> token_error + claims" where
  "VerifyAuthorizationForRelease V now header releaseID imageSHA256 =
     (if vf_audience V \<noteq> OTAAudience \<or> \<not> ValidIdentifier releaseID 64 \<or> \<not> validSHA256 imageSHA256 then Inl TokClaims
      else case VerifyAuthorization V now header of
        Inl e \<Rightarrow> Inl e
      | Inr c \<Rightarrow> if cm_ReleaseID c \<noteq> releaseID \<or> cm_ImageSHA256 c \<noteq> imageSHA256 then Inl TokClaims else Inr c)"

definition OwnedDeviceScope :: "claims \<Rightarrow> string option" where
  "OwnedDeviceScope c =
     (if (cm_Audience c \<noteq> VoiceAudience \<and> cm_Audience c \<noteq> AgentAudience) \<or> \<not> ValidIdentifier (cm_DeviceID c) maxDeviceID \<or>
         \<not> ValidIdentifier (cm_OwnerID c) 128 \<or> \<not> ValidIdentifier (cm_TenantID c) 128 \<or> \<not> ValidBindingID (cm_BindingID c) \<or>
         \<not> ValidBindingRevision (cm_BindingRevision c)
      then None
      else Some (cm_BindingID c @ CHR 0x00 # json_nat (unat (cm_BindingRevision c)) @ CHR 0x00 # cm_DeviceID c))"

section \<open>Lemmas\<close>

subsection \<open>Parts of a token\<close>

lemma split_dots_nonempty [simp]: "split_dots s \<noteq> []"
  by (induction s) (auto split: list.splits)

lemma split_dots_plain: "CHR ''.'' \<notin> set s \<Longrightarrow> split_dots s = [s]"
  by (induction s) auto

lemma split_dots_append:
  "CHR ''.'' \<notin> set s \<Longrightarrow> split_dots (s @ CHR ''.'' # t) = s # split_dots t"
  by (induction s) auto

lemma length_split_dots: "length (split_dots s) = Suc (length (filter (\<lambda>c. c = CHR ''.'') s))"
  by (induction s) (auto split: list.splits)

lemma join_dots_Cons: "ps \<noteq> [] \<Longrightarrow> join_dots (p # ps) = p @ CHR ''.'' # join_dots ps"
  by (cases ps) simp_all

lemma join_split_dots: "join_dots (split_dots s) = s"
proof (induction s)
  case (Cons c s)
  show ?case
  proof (cases "split_dots s")
    case Nil
    then show ?thesis by simp
  next
    case (Cons p ps)
    then show ?thesis using Cons.IH by (cases ps) (auto simp: join_dots_Cons)
  qed
qed simp

lemma join_dots_snoc: "ps \<noteq> [] \<Longrightarrow> join_dots (ps @ [p]) = join_dots ps @ CHR ''.'' # p"
  by (induction ps rule: join_dots.induct) (simp_all add: join_dots_Cons)

lemma b64_char_no_dot: "k < 64 \<Longrightarrow> b64_char k \<noteq> CHR ''.''"
  using b64_val_char [of k] by (auto simp: b64_val_def)

lemma b64_encode_no_dot: "CHR ''.'' \<notin> set (b64_encode bs)"
proof
  assume "CHR ''.'' \<in> set (b64_encode bs)"
  then obtain k where k: "k \<in> set (b64_sextets (map unat bs))" "b64_char k = CHR ''.''"
    by (auto simp: b64_encode_def)
  moreover have "k < 64" using b64_sextets_bound [of "map unat bs"] k(1) by (auto intro: unat_byte_bound)
  ultimately show False using b64_char_no_dot by blast
qed

subsection \<open>Accepted tokens\<close>

definition key_open :: "wall_time \<Rightarrow> managed_key option \<Rightarrow> bool" where
  "key_open now vk = (case vk of None \<Rightarrow> True | Some key \<Rightarrow> now < mk_verifyUntil key)"

definition key_admits :: "verifier \<Rightarrow> managed_key option \<Rightarrow> bool \<Rightarrow> claims \<Rightarrow> claims \<Rightarrow> bool" where
  "key_admits V vk legacy c0 c = (case vk of None \<Rightarrow> c = c0
     | Some key \<Rightarrow> tok_key_window V key legacy c0 \<and> c = c0\<lparr>cm_SigningKeyID := mk_id key\<rparr>)"

lemma tok_Verify_accepts:
  "tok_Verify V now token = Inr c \<longleftrightarrow>
     token \<noteq> [] \<and> length token \<le> maxTokenBytes \<and> (length (split_dots token) = 3 \<or> length (split_dots token) = 4) \<and>
     (\<exists>vk legacy i payload signature j c0. tok_select V now (split_dots token) = Inr (vk, legacy, i) \<and>
        b64_decode (split_dots token ! i) = Some payload \<and> b64_decode (split_dots token ! Suc i) = Some signature \<and>
        length signature = 32 \<and> key_open now vk \<and>
        tok_signed V vk (join_dots (take (Suc i) (split_dots token))) signature \<and>
        json_parse (string_of_bytes payload) = Some j \<and> json_struct True claims_fields j claims_zero = Some c0 \<and>
        tok_validateClaims V now (split_dots token ! 0) c0 = None \<and> key_admits V vk legacy c0 c)"
  unfolding tok_Verify_def Let_def key_open_def key_admits_def
  by (auto split: if_splits sum.splits option.splits prod.splits)

lemma tok_VerifyI:
  assumes "token \<noteq> []" and "length token \<le> maxTokenBytes"
    and "length (split_dots token) = 3 \<or> length (split_dots token) = 4"
    and "tok_select V now (split_dots token) = Inr (vk, legacy, i)"
    and "b64_decode (split_dots token ! i) = Some payload" and "b64_decode (split_dots token ! Suc i) = Some signature"
    and "length signature = 32" and "key_open now vk"
    and "tok_signed V vk (join_dots (take (Suc i) (split_dots token))) signature"
    and "json_parse (string_of_bytes payload) = Some j" and "json_struct True claims_fields j claims_zero = Some c0"
    and "tok_validateClaims V now (split_dots token ! 0) c0 = None" and "key_admits V vk legacy c0 c"
  shows "tok_Verify V now token = Inr c"
  using assms unfolding tok_Verify_accepts by blast

definition selected_key :: "verifier \<Rightarrow> wall_time \<Rightarrow> managed_key option \<Rightarrow> bool \<Rightarrow> bool" where
  "selected_key V now vk legacy = (case vk of
     None \<Rightarrow> vf_managed V = None
   | Some key \<Rightarrow> \<exists>K i. vf_managed V = Some K \<and> map_of (kr_keys K) i = Some key \<and>
       (legacy \<longrightarrow> i = kr_legacyUnkeyedKeyID K \<and> now < kr_legacyVerifyUntil K \<and> mk_state key = ''retiring''))"

lemma tok_select_key:
  assumes "tok_select V now parts = Inr (vk, legacy, i)" and "length parts = 3 \<or> length parts = 4"
  shows "Suc (Suc i) = length parts" and "selected_key V now vk legacy"
  using assms by (auto simp: tok_select_def selected_key_def Let_def split: if_splits option.splits; metis)+

lemma tok_parts:
  assumes "Suc (Suc i) = length (split_dots token)"
  shows "token = join_dots (take (Suc i) (split_dots token)) @ CHR ''.'' # split_dots token ! Suc i"
proof -
  have "split_dots token = take (Suc i) (split_dots token) @ [split_dots token ! Suc i]"
    using assms take_Suc_conv_app_nth [of "Suc i" "split_dots token"] by simp
  then have "join_dots (split_dots token) =
      join_dots (take (Suc i) (split_dots token)) @ CHR ''.'' # split_dots token ! Suc i"
    using join_dots_snoc [of "take (Suc i) (split_dots token)" "split_dots token ! Suc i"] by simp
  then show ?thesis by (simp add: join_split_dots)
qed

text \<open>A secret the verifier holds and trusts for the claims at the time.\<close>

definition trusted_secret :: "verifier \<Rightarrow> wall_time \<Rightarrow> claims \<Rightarrow> byte list \<Rightarrow> bool" where
  "trusted_secret V now c secret \<longleftrightarrow> secret \<in> set (vf_secrets V) \<or>
     (\<exists>K i key. vf_managed V = Some K \<and> map_of (kr_keys K) i = Some key \<and> secret = mk_secret key \<and>
        cm_SigningKeyID c = mk_id key \<and> now < mk_verifyUntil key \<and> cm_Expires c \<le> unix_of_wall (mk_verifyUntil key) \<and>
        (mk_state key = ''retiring'' \<longrightarrow> cm_IssuedAt c < unix_of_wall (mk_issueBefore key)))"

lemma tok_signed_trusted:
  assumes "tok_signed V vk input signature" and "selected_key V now vk legacy" and "key_open now vk"
    and "key_admits V vk legacy c0 c"
  shows "\<exists>secret. trusted_secret V now c secret \<and> signature = tok_hmac secret input"
proof (cases "\<exists>secret \<in> set (vf_secrets V). signature = tok_hmac secret input")
  case True
  then show ?thesis by (auto simp: trusted_secret_def)
next
  case False
  with assms(1) obtain key where key: "vk = Some key" "signature = tok_hmac (mk_secret key) input"
    by (auto simp: tok_signed_def list_ex_iff split: option.splits)
  from assms(2) key(1) obtain K i where "vf_managed V = Some K" "map_of (kr_keys K) i = Some key"
    by (auto simp: selected_key_def)
  moreover have "cm_SigningKeyID c = mk_id key" "now < mk_verifyUntil key" "cm_Expires c \<le> unix_of_wall (mk_verifyUntil key)"
    "mk_state key = ''retiring'' \<longrightarrow> cm_IssuedAt c < unix_of_wall (mk_issueBefore key)"
    using assms(3,4) key(1) by (auto simp: key_open_def key_admits_def tok_key_window_def)
  ultimately have "trusted_secret V now c (mk_secret key)" unfolding trusted_secret_def by blast
  with key(2) show ?thesis by blast
qed

lemma claims_scope_ok_signing [simp]: "claims_scope_ok v (c\<lparr>cm_SigningKeyID := x\<rparr>) = claims_scope_ok v c"
  by (simp add: claims_scope_ok_def)

lemma tok_validateClaims_signing [simp]:
  "tok_validateClaims V now v (c\<lparr>cm_SigningKeyID := x\<rparr>) = tok_validateClaims V now v c"
  by (simp add: tok_validateClaims_def Let_def)

lemma key_admits_validate: "key_admits V vk legacy c0 c \<Longrightarrow> tok_validateClaims V now v c = tok_validateClaims V now v c0"
  by (auto simp: key_admits_def split: option.splits)

lemma tok_validateClaims_None:
  "tok_validateClaims V t v c = None \<longleftrightarrow>
     cm_Audience c = vf_audience V \<and> 0 < cm_IssuedAt c \<and> cm_IssuedAt c < cm_Expires c \<and>
     i64 (cm_Expires c - cm_IssuedAt c) \<le> vf_maxTTL V sdiv second \<and>
     cm_IssuedAt c \<le> i64 (unix_of_wall t + vf_skew V sdiv second) \<and>
     i64 (unix_of_wall t - vf_skew V sdiv second) < cm_Expires c \<and>
     (cm_TokenID c = [] \<or> ValidIdentifier (cm_TokenID c) 128) \<and> claims_scope_ok v c"
  unfolding tok_validateClaims_def Let_def by (simp only: if_split_eq1 not_le not_less de_Morgan_disj) auto

subsection \<open>Reading back signed claims\<close>

definition claims_clean :: "claims \<Rightarrow> bool" where
  "claims_clean c \<longleftrightarrow> in_int64 (cm_IssuedAt c) \<and> in_int64 (cm_Expires c) \<and>
     list_all (\<lambda>f. ascii (f c)) [cm_DeviceID, cm_Subject, cm_Issuer, cm_OwnerID, cm_TenantID, cm_BindingID, cm_Action, cm_Audience,
       cm_TokenID, cm_ReleaseID, cm_ImageSHA256]"

lemma claims_field:
  "json_field claims_fields ''device_id'' = Some (\<lambda>j c. map_option (\<lambda>v. c\<lparr>cm_DeviceID := v\<rparr>) (json_to_string j (cm_DeviceID c)))"
  "json_field claims_fields ''sub'' = Some (\<lambda>j c. map_option (\<lambda>v. c\<lparr>cm_Subject := v\<rparr>) (json_to_string j (cm_Subject c)))"
  "json_field claims_fields ''iss'' = Some (\<lambda>j c. map_option (\<lambda>v. c\<lparr>cm_Issuer := v\<rparr>) (json_to_string j (cm_Issuer c)))"
  "json_field claims_fields ''owner_id'' = Some (\<lambda>j c. map_option (\<lambda>v. c\<lparr>cm_OwnerID := v\<rparr>) (json_to_string j (cm_OwnerID c)))"
  "json_field claims_fields ''tenant_id'' = Some (\<lambda>j c. map_option (\<lambda>v. c\<lparr>cm_TenantID := v\<rparr>) (json_to_string j (cm_TenantID c)))"
  "json_field claims_fields ''binding_id'' = Some (\<lambda>j c. map_option (\<lambda>v. c\<lparr>cm_BindingID := v\<rparr>) (json_to_string j (cm_BindingID c)))"
  "json_field claims_fields ''binding_revision'' = Some (\<lambda>j c. map_option (\<lambda>v. c\<lparr>cm_BindingRevision := v\<rparr>) (json_to_word j (cm_BindingRevision c)))"
  "json_field claims_fields ''action'' = Some (\<lambda>j c. map_option (\<lambda>v. c\<lparr>cm_Action := v\<rparr>) (json_to_string j (cm_Action c)))"
  "json_field claims_fields ''aud'' = Some (\<lambda>j c. map_option (\<lambda>v. c\<lparr>cm_Audience := v\<rparr>) (json_to_string j (cm_Audience c)))"
  "json_field claims_fields ''iat'' = Some (\<lambda>j c. map_option (\<lambda>v. c\<lparr>cm_IssuedAt := v\<rparr>) (json_to_int64 j (cm_IssuedAt c)))"
  "json_field claims_fields ''exp'' = Some (\<lambda>j c. map_option (\<lambda>v. c\<lparr>cm_Expires := v\<rparr>) (json_to_int64 j (cm_Expires c)))"
  "json_field claims_fields ''jti'' = Some (\<lambda>j c. map_option (\<lambda>v. c\<lparr>cm_TokenID := v\<rparr>) (json_to_string j (cm_TokenID c)))"
  "json_field claims_fields ''release_id'' = Some (\<lambda>j c. map_option (\<lambda>v. c\<lparr>cm_ReleaseID := v\<rparr>) (json_to_string j (cm_ReleaseID c)))"
  "json_field claims_fields ''image_sha256'' = Some (\<lambda>j c. map_option (\<lambda>v. c\<lparr>cm_ImageSHA256 := v\<rparr>) (json_to_string j (cm_ImageSHA256 c)))"
  by (simp_all add: json_field_def claims_fields_def)

text \<open>Reading a member that may have been omitted sets the field that was zero.\<close>

lemma members_omit_empty:
  "cm_DeviceID a = [] \<Longrightarrow> json_members True claims_fields (omit_empty ''device_id'' v ms) a =
     json_members True claims_fields ms (a\<lparr>cm_DeviceID := v\<rparr>)"
  "cm_Subject a = [] \<Longrightarrow> json_members True claims_fields (omit_empty ''sub'' v ms) a =
     json_members True claims_fields ms (a\<lparr>cm_Subject := v\<rparr>)"
  "cm_Issuer a = [] \<Longrightarrow> json_members True claims_fields (omit_empty ''iss'' v ms) a =
     json_members True claims_fields ms (a\<lparr>cm_Issuer := v\<rparr>)"
  "cm_OwnerID a = [] \<Longrightarrow> json_members True claims_fields (omit_empty ''owner_id'' v ms) a =
     json_members True claims_fields ms (a\<lparr>cm_OwnerID := v\<rparr>)"
  "cm_TenantID a = [] \<Longrightarrow> json_members True claims_fields (omit_empty ''tenant_id'' v ms) a =
     json_members True claims_fields ms (a\<lparr>cm_TenantID := v\<rparr>)"
  "cm_BindingID a = [] \<Longrightarrow> json_members True claims_fields (omit_empty ''binding_id'' v ms) a =
     json_members True claims_fields ms (a\<lparr>cm_BindingID := v\<rparr>)"
  "cm_Action a = [] \<Longrightarrow> json_members True claims_fields (omit_empty ''action'' v ms) a =
     json_members True claims_fields ms (a\<lparr>cm_Action := v\<rparr>)"
  "cm_TokenID a = [] \<Longrightarrow> json_members True claims_fields (omit_empty ''jti'' v ms) a =
     json_members True claims_fields ms (a\<lparr>cm_TokenID := v\<rparr>)"
  "cm_ReleaseID a = [] \<Longrightarrow> json_members True claims_fields (omit_empty ''release_id'' v ms) a =
     json_members True claims_fields ms (a\<lparr>cm_ReleaseID := v\<rparr>)"
  "cm_ImageSHA256 a = [] \<Longrightarrow> json_members True claims_fields (omit_empty ''image_sha256'' v ms) a =
     json_members True claims_fields ms (a\<lparr>cm_ImageSHA256 := v\<rparr>)"
  by (cases a; simp add: omit_empty_def claims_field)+

lemma members_revision:
  "cm_BindingRevision a = 0 \<Longrightarrow> json_members True claims_fields
     ((if r = 0 then (\<lambda>ms. ms) else (#) (''binding_revision'', JNum (json_nat (unat r)))) ms) a =
     json_members True claims_fields ms (a\<lparr>cm_BindingRevision := r\<rparr>)"
  by (cases a) (simp add: claims_field)

lemma members_plain:
  "json_members True claims_fields ((''aud'', JStr v) # ms) a = json_members True claims_fields ms (a\<lparr>cm_Audience := v\<rparr>)"
  "in_int64 i \<Longrightarrow> json_members True claims_fields ((''iat'', JNum (json_int i)) # ms) a =
     json_members True claims_fields ms (a\<lparr>cm_IssuedAt := i\<rparr>)"
  "in_int64 i \<Longrightarrow> json_members True claims_fields ((''exp'', JNum (json_int i)) # ms) a =
     json_members True claims_fields ms (a\<lparr>cm_Expires := i\<rparr>)"
  by (simp_all add: claims_field in_int64_def)

lemma claims_json_roundtrip:
  assumes "in_int64 (cm_IssuedAt c)" and "in_int64 (cm_Expires c)"
  shows "json_struct True claims_fields (claims_json c) claims_zero = Some (c\<lparr>cm_SigningKeyID := []\<rparr>)"
  unfolding claims_json_def json_struct_def json.case
  by (simp add: members_omit_empty members_revision members_plain assms claims_zero_def del: json_members.simps(2))

lemma omit_empty_all: "list_all P (omit_empty n v ms) \<longleftrightarrow> (v = [] \<or> P (n, JStr v)) \<and> list_all P ms"
  by (simp add: omit_empty_def)

lemma revision_all:
  "list_all P ((if r = 0 then (\<lambda>ms. ms) else (#) (n, JNum (json_nat (unat r)))) ms) \<longleftrightarrow>
     (r = 0 \<or> P (n, JNum (json_nat (unat (r :: 64 word))))) \<and> list_all P ms"
  by simp

lemma claims_json_ok: "claims_clean c \<Longrightarrow> json_ok (Suc 0) (claims_json c)"
  unfolding claims_json_def json_ok_simps(2)
  by (simp add: omit_empty_all revision_all claims_clean_def del: split_paired_All)

lemma claims_parse: "claims_clean c \<Longrightarrow> json_parse (json_print (claims_json c)) = Some (claims_json c)"
  using json_parse_print [OF claims_json_ok, of c "[]"] by (simp add: json_max_depth_def json_lex.simps)

lemma split_join_dots: "ps \<noteq> [] \<Longrightarrow> \<forall>p \<in> set ps. CHR ''.'' \<notin> set p \<Longrightarrow> split_dots (join_dots ps) = ps"
  by (induction ps rule: join_dots.induct) (simp_all add: split_dots_plain split_dots_append)

text \<open>The token with the parts \<open>pre\<close> (version, key ID) before the payload.\<close>

definition signing_input :: "string list \<Rightarrow> claims \<Rightarrow> string" where
  "signing_input pre c = join_dots (pre @ [b64_encode (bytes_of (json_print (claims_json c)))])"

definition signed_token :: "string list \<Rightarrow> byte list \<Rightarrow> claims \<Rightarrow> string" where
  "signed_token pre secret c = signing_input pre c @ CHR ''.'' # b64_encode (tok_hmac secret (signing_input pre c))"

lemma length_tok_hmac [simp]: "length (tok_hmac secret input) = 32"
  by (simp add: tok_hmac_def)

lemma signed_token_parts:
  assumes "\<forall>p \<in> set pre. CHR ''.'' \<notin> set p"
  shows "split_dots (signed_token pre secret c) = pre @ [b64_encode (bytes_of (json_print (claims_json c))),
    b64_encode (tok_hmac secret (signing_input pre c))]"
proof -
  let ?ps = "pre @ [b64_encode (bytes_of (json_print (claims_json c)))]"
  let ?sig = "b64_encode (tok_hmac secret (signing_input pre c))"
  have "signed_token pre secret c = join_dots (?ps @ [?sig])"
    unfolding signed_token_def by (subst join_dots_snoc) (simp_all add: signing_input_def)
  then show ?thesis using split_join_dots [of "?ps @ [?sig]"] assms by (simp add: b64_encode_no_dot ball_Un)
qed

lemma b64_encode_empty [simp]: "b64_encode bs = [] \<longleftrightarrow> bs = []"
  using b64_encode_inject [of bs "[]"] by (simp add: b64_encode_def)

lemma signed_token_verifies:
  assumes pre: "\<forall>p \<in> set pre. CHR ''.'' \<notin> set p" "length pre = 1 \<or> length pre = 2"
    and len: "length (signed_token pre secret c) \<le> maxTokenBytes"
    and sel: "tok_select V now (split_dots (signed_token pre secret c)) = Inr (vk, legacy, length pre)"
    and key: "key_open now vk" "key_admits V vk legacy (c\<lparr>cm_SigningKeyID := []\<rparr>) c"
    and mac: "tok_signed V vk (signing_input pre c) (tok_hmac secret (signing_input pre c))"
    and clean: "claims_clean c" and val: "tok_validateClaims V now (pre ! 0) c = None"
  shows "tok_Verify V now (signed_token pre secret c) = Inr c"
proof -
  have nth: "split_dots (signed_token pre secret c) ! length pre = b64_encode (bytes_of (json_print (claims_json c)))"
    "split_dots (signed_token pre secret c) ! Suc (length pre) = b64_encode (tok_hmac secret (signing_input pre c))"
    "split_dots (signed_token pre secret c) ! 0 = pre ! 0"
    "join_dots (take (Suc (length pre)) (split_dots (signed_token pre secret c))) = signing_input pre c"
    using pre(2) by (auto simp: signed_token_parts [OF pre(1)] nth_append signing_input_def)
  have "json_struct True claims_fields (claims_json c) claims_zero = Some (c\<lparr>cm_SigningKeyID := []\<rparr>)"
    using clean by (intro claims_json_roundtrip) (simp_all add: claims_clean_def)
  moreover have "signed_token pre secret c \<noteq> []" by (simp add: signed_token_def)
  moreover have "length (split_dots (signed_token pre secret c)) = 3 \<or> length (split_dots (signed_token pre secret c)) = 4"
    using pre(2) by (auto simp: signed_token_parts [OF pre(1)])
  moreover note sel [unfolded nth] b64_decode_encode [of "bytes_of (json_print (claims_json c))"]
    b64_decode_encode [of "tok_hmac secret (signing_input pre c)"]
  moreover have "tok_validateClaims V now (pre ! 0) (c\<lparr>cm_SigningKeyID := []\<rparr>) = None" using val by simp
  moreover have "json_parse (string_of_bytes (bytes_of (json_print (claims_json c)))) = Some (claims_json c)"
    using claims_parse [OF clean] by simp
  ultimately show ?thesis
    using len key mac length_tok_hmac [of secret "signing_input pre c"]
    by (intro tok_VerifyI [where payload = "bytes_of (json_print (claims_json c))" and i = "length pre"
          and signature = "tok_hmac secret (signing_input pre c)" and vk = vk and legacy = legacy]) (simp_all only: nth simp_thms)
qed

subsection \<open>Ring transitions\<close>

text \<open>What an accepted transition keeps of a key of the current ring.\<close>

definition key_kept :: "managed_keyring \<Rightarrow> int \<Rightarrow> string \<Rightarrow> managed_key \<Rightarrow> managed_key \<Rightarrow> bool" where
  "key_kept current cutover i key key' \<longleftrightarrow> mk_secret key' = mk_secret key \<and> mk_verifyUntil key \<le> mk_verifyUntil key' \<and>
     (i = kr_activeKeyID current \<longrightarrow> unix_of_wall (mk_issueBefore key') = cutover) \<and>
     (i \<noteq> kr_activeKeyID current \<longrightarrow> mk_state key' = ''retiring'' \<longrightarrow>
        mk_state key = ''retiring'' \<and> mk_issueBefore key' = mk_issueBefore key) \<and>
     (i = kr_legacyUnkeyedKeyID current \<longrightarrow> mk_state key = ''retiring'' \<longrightarrow> mk_state key' = ''retiring'')"

lemma transition_facts:
  assumes "ValidateManagedTokenTransition current target transition maxTTL t = Some s"
  obtains old active where "map_of (kr_keys target) (kr_activeKeyID current) = Some old"
    and "ts_CutoverUnix s = unix_of_wall (mk_issueBefore old)" and "transition_kind_ok current target transition active"
    and "kr_legacyUnkeyedKeyID current = kr_legacyUnkeyedKeyID target" and "kr_legacyVerifyUntil current = kr_legacyVerifyUntil target"
    and "list_all (transition_key_ok current target transition (mk_issueBefore old)) (kr_keys current)"
    and "transition = ManagedTokenTransitionRotate \<or> transition = ManagedTokenTransitionForwardRecover"
  using assms unfolding ValidateManagedTokenTransition_def Let_def
  by (auto split: if_splits option.splits)

lemma transition_kinds_differ: "ManagedTokenTransitionForwardRecover \<noteq> ManagedTokenTransitionRotate"
  by (simp add: ManagedTokenTransitionForwardRecover_def ManagedTokenTransitionRotate_def)

lemma transition_keeps_key:
  assumes val: "ValidateManagedTokenTransition current target transition maxTTL t = Some s"
    and key: "map_of (kr_keys current) i = Some key"
  obtains key' where "map_of (kr_keys target) i = Some key'" and "key_kept current (ts_CutoverUnix s) i key key'"
proof -
  obtain old active :: managed_key where old: "ts_CutoverUnix s = unix_of_wall (mk_issueBefore old)"
      "transition_kind_ok current target transition active"
      "list_all (transition_key_ok current target transition (mk_issueBefore old)) (kr_keys current)"
    by (rule transition_facts [OF val]) blast
  have "transition_key_ok current target transition (mk_issueBefore old) (i, key)"
    using old(3) map_of_SomeD [OF key] by (auto simp: list_all_iff)
  then obtain key' where key': "map_of (kr_keys target) i = Some key'" and "mk_secret key' = mk_secret key"
    and cases: "if i = kr_activeKeyID current then mk_state key' = ''retiring'' \<and> mk_issueBefore key' = mk_issueBefore old \<and>
        mk_verifyUntil key' = mk_verifyUntil key
      else if transition = ManagedTokenTransitionForwardRecover \<and> i = kr_activeKeyID target then
        mk_state key' = ''active'' \<and> mk_verifyUntil key \<le> mk_verifyUntil key'
      else mk_state key' = mk_state key \<and> mk_issueBefore key' = mk_issueBefore key \<and> mk_verifyUntil key' = mk_verifyUntil key"
    by (simp add: transition_key_ok_def sameManagedSecret_def not_less split: option.splits if_splits)
  moreover have "i \<noteq> kr_legacyUnkeyedKeyID current"
    if "transition = ManagedTokenTransitionForwardRecover" "i = kr_activeKeyID target"
    using old(2) that transition_kinds_differ by (auto simp: transition_kind_ok_def split: option.splits)
  ultimately have "key_kept current (ts_CutoverUnix s) i key key'"
    by (auto simp: key_kept_def old(1) split: if_splits)
  with key' show ?thesis by (rule that)
qed

lemma tok_select_transition:
  assumes val: "ValidateManagedTokenTransition current target transition maxTTL t = Some s"
    and V: "vf_managed V = Some current" and sel: "tok_select V now parts = Inr (vk, legacy, n)"
  obtains i key key' where "vk = Some key" and "map_of (kr_keys current) i = Some key" and "map_of (kr_keys target) i = Some key'"
    and "key_kept current (ts_CutoverUnix s) i key key'"
    and "tok_select (V\<lparr>vf_managed := Some target\<rparr>) now parts = Inr (Some key', legacy, n)"
proof -
  have legacy: "kr_legacyUnkeyedKeyID current = kr_legacyUnkeyedKeyID target" "kr_legacyVerifyUntil current = kr_legacyVerifyUntil target"
    by (rule transition_facts [OF val]; simp)+
  define i where "i = (if length parts = 4 then parts ! 1 else kr_legacyUnkeyedKeyID current)"
  from sel V have "map_of (kr_keys current) i = vk \<and> vk \<noteq> None"
    by (auto simp: tok_select_def Let_def i_def split: if_splits option.splits; metis)
  then obtain key where vk: "vk = Some key" and key: "map_of (kr_keys current) i = Some key" by auto
  obtain key' where key': "map_of (kr_keys target) i = Some key'" "key_kept current (ts_CutoverUnix s) i key key'"
    by (rule transition_keeps_key [OF val key])
  have "tok_select (V\<lparr>vf_managed := Some target\<rparr>) now parts = Inr (Some key', legacy, n)"
  proof (cases "length parts = 4")
    case True
    with sel V key key'(1) show ?thesis by (auto simp: tok_select_def Let_def i_def split: if_splits)
  next
    case False
    with sel V key have "mk_state key = ''retiring''" by (auto simp: tok_select_def Let_def i_def split: if_splits)
    with key'(2) False have "mk_state key' = ''retiring''" by (simp add: key_kept_def i_def)
    with False sel V key key'(1) legacy show ?thesis by (auto simp: tok_select_def Let_def i_def split: if_splits)
  qed
  with vk key key' show ?thesis by (rule that)
qed

lemma key_window_transition:
  assumes kept: "key_kept current cutover i key key'" and window: "tok_key_window V key legacy c"
    and V: "vf_managed V = Some current" "kr_legacyVerifyUntil current = kr_legacyVerifyUntil target"
    and retired: "legacy \<longrightarrow> mk_state key = ''retiring''" and cut: "i = kr_activeKeyID current \<longrightarrow> cm_IssuedAt c < cutover"
  shows "tok_key_window (V\<lparr>vf_managed := Some target\<rparr>) key' legacy c"
proof -
  have "cm_Expires c \<le> unix_of_wall (mk_verifyUntil key')"
    using window kept unix_of_wall_mono [of "mk_verifyUntil key" "mk_verifyUntil key'"]
    by (simp add: tok_key_window_def key_kept_def)
  moreover have "cm_IssuedAt c < unix_of_wall (mk_issueBefore key')" if "mk_state key' = ''retiring''"
    using window kept cut that by (cases "i = kr_activeKeyID current") (auto simp: tok_key_window_def key_kept_def)
  moreover have "cm_Expires c \<le> unix_of_wall (kr_legacyVerifyUntil target)" if legacy
    using window retired V that by (auto simp: tok_key_window_def)
  ultimately show ?thesis by (auto simp: tok_key_window_def not_le)
qed

lemma tok_select_legacy:
  "tok_select V now parts = Inr (Some key, legacy, n) \<Longrightarrow> legacy \<Longrightarrow> mk_state key = ''retiring''"
  by (auto simp: tok_select_def Let_def split: if_splits option.splits)

lemma keyring_wf_id: "keyring_wf t K \<Longrightarrow> map_of (kr_keys K) i = Some key \<Longrightarrow> mk_id key = i"
  by (auto simp: keyring_wf_def key_wf_def dest!: map_of_SomeD)

subsection \<open>Scopes\<close>

lemma digits_no_NUL: "CHR 0x00 \<notin> set (json_nat n)"
  using json_nat_digits [of n] by (auto simp: list_all_iff is_digit_def)

lemma json_nat_inject: "json_nat m = json_nat n \<longleftrightarrow> m = n"
  by (metis digits_value_nat)

lemma b64_encode_no_NUL: "CHR 0x00 \<notin> set (b64_encode bs)"
proof
  assume "CHR 0x00 \<in> set (b64_encode bs)"
  then obtain k where "b64_char k = CHR 0x00" by (auto simp: b64_encode_def)
  with b64_char_ident [of k] show False by simp
qed

lemma append_NUL_inject:
  "CHR 0x00 \<notin> set s \<Longrightarrow> CHR 0x00 \<notin> set s' \<Longrightarrow> s @ CHR 0x00 # t = s' @ CHR 0x00 # t' \<longleftrightarrow> s = s' \<and> t = t'"
proof (induction s arbitrary: s')
  case Nil
  then show ?case by (cases s') auto
next
  case (Cons c s)
  then show ?case by (cases s') auto
qed

lemma ValidBindingID_no_NUL: "ValidBindingID v \<Longrightarrow> CHR 0x00 \<notin> set v"
  by (auto simp: ValidBindingID_def canonical_bytes_iff b64_encode_no_NUL)

end
