(* ===== verification/TokenSafety.thy ===== *)
theory TokenSafety
  imports Token
begin

text \<open>
  Properties of the token verifier of \<^verbatim>\<open>internal/auth/token.go\<close>, with a concrete ring, verifier and token on which
  they apply.
\<close>

section \<open>Tokens with and without a key ID\<close>

lemma payload_nonempty: "bytes_of (json_print (claims_json c)) \<noteq> []"
  by (simp add: claims_json_def bytes_of_def)

lemma tok_hmac_nonempty: "tok_hmac secret input \<noteq> []"
  using length_tok_hmac [of secret input] by (metis length_0_conv zero_neq_numeral)

lemma tok_signed_key: "mk_secret key = secret \<Longrightarrow> tok_signed V (Some key) input (tok_hmac secret input)"
  by (auto simp: tok_signed_def)

lemma tok_signed_secret: "secret \<in> set (vf_secrets V) \<Longrightarrow> tok_signed V vk input (tok_hmac secret input)"
  by (auto simp: tok_signed_def list_ex_iff)

lemma tok_select_keyed:
  assumes "vf_managed V = Some K" and "version = ''v2'' \<or> version = ''v4''" and "ValidIdentifier i 64" and "CHR ''.'' \<notin> set i"
    and "map_of (kr_keys K) i = Some key"
  shows "tok_select V now (split_dots (signed_token [version, i] secret c)) = Inr (Some key, False, length [version, i])"
proof -
  have pre: "\<forall>p \<in> set [version, i]. CHR ''.'' \<notin> set p" using assms(2,4) by auto
  show ?thesis
    using assms by (auto simp: signed_token_parts [OF pre] tok_select_def Let_def payload_nonempty tok_hmac_nonempty)
qed

lemma tok_select_unkeyed:
  assumes "vf_managed V = None" and "version = ''v1'' \<or> version = ''v3''" and "vf_secrets V \<noteq> []"
  shows "tok_select V now (split_dots (signed_token [version] secret c)) = Inr (None, False, length [version])"
proof -
  have pre: "\<forall>p \<in> set [version]. CHR ''.'' \<notin> set p" using assms(2) by auto
  show ?thesis
    using assms by (auto simp: signed_token_parts [OF pre] tok_select_def Let_def payload_nonempty tok_hmac_nonempty)
qed

section \<open>Examples\<close>

definition ex_claims :: claims where
  "ex_claims = claims_zero\<lparr>cm_DeviceID := ''dev-1'', cm_OwnerID := ''owner'', cm_TenantID := ''tenant'',
     cm_BindingID := b64_encode (replicate 16 3), cm_BindingRevision := 4, cm_Audience := VoiceAudience,
     cm_IssuedAt := 1760000000, cm_Expires := 1760000600, cm_TokenID := b64_encode (replicate 16 9), cm_SigningKeyID := ''key-b''\<rparr>"

definition ex_verifier :: verifier where
  "ex_verifier = \<lparr>vf_secrets = [], vf_managed = Some ex_keyring, vf_audience = VoiceAudience, vf_maxTTL = hour, vf_skew = 30 * second\<rparr>"

definition ex_token :: string where
  "ex_token = signed_token [''v4'', ''key-b''] (replicate 32 2) ex_claims"

lemma ex_valid: "ValidIdentifier ''dev-1'' 64" "ValidIdentifier ''owner'' 128" "ValidIdentifier ''tenant'' 128"
  by code_simp+

lemma ex_claims_clean: "claims_clean ex_claims"
  using ex_valid by (simp add: claims_clean_def ex_claims_def claims_zero_def VoiceAudience_def in_int64_def)

lemma ex_claims_valid: "tok_validateClaims ex_verifier (wall_of_unix 1760000100) ''v4'' ex_claims = None"
  unfolding tok_validateClaims_None
  by (simp add: ex_claims_def ex_verifier_def claims_zero_def claims_scope_ok_def VoiceAudience_def CompanionAudience_def
      maxDeviceID_def ex_valid ValidBindingID_def ValidBindingRevision_def MaximumBindingRevision_def ValidIdentifier_b64
      sdiv_nonneg i64_def)

lemma ex_claims_size: "length (json_print (claims_json ex_claims)) \<le> 1400"
  by (rule order_trans [OF json_size_bound [OF claims_json_ok [OF ex_claims_clean]]])
    (simp add: ex_claims_def claims_zero_def claims_json_def omit_empty_def VoiceAudience_def length_b64_encode json_int_def
      json_nat.simps)

lemma ex_token_length: "length ex_token \<le> maxTokenBytes"
  using ex_claims_size by (simp add: ex_token_def signed_token_def signing_input_def length_b64_encode maxTokenBytes_def)

text \<open>The ring after a rotation to a new key, with the cutover a day later.\<close>

definition ex_target :: managed_keyring where
  "ex_target = ex_keyring\<lparr>kr_revision := 8, kr_activeKeyID := ''key-c'',
     kr_keys := [(''key-a'', \<lparr>mk_id = ''key-a'', mk_secret = replicate 32 1, mk_state = ''retiring'',
         mk_issueBefore = wall_of_unix 1750000000, mk_verifyUntil = wall_of_unix 1900000000\<rparr>),
       (''key-b'', \<lparr>mk_id = ''key-b'', mk_secret = replicate 32 2, mk_state = ''retiring'',
         mk_issueBefore = wall_of_unix 1760100000, mk_verifyUntil = wall_of_unix 2000000000\<rparr>),
       (''key-c'', \<lparr>mk_id = ''key-c'', mk_secret = replicate 32 3, mk_state = ''active'',
         mk_issueBefore = 0, mk_verifyUntil = wall_of_unix 2000000000\<rparr>)]\<rparr>"

lemma ex_target_facts:
  "map_option ts_CutoverUnix (ValidateManagedTokenTransition ex_keyring ex_target ManagedTokenTransitionRotate hour
     (wall_of_unix 1760000000)) = Some 1760100000"
  "keyring_wf (wall_of_unix 1760000000) ex_keyring" "keyring_wf (wall_of_unix 1760000000) ex_target"
proof -
  show "map_option ts_CutoverUnix (ValidateManagedTokenTransition ex_keyring ex_target ManagedTokenTransitionRotate hour
     (wall_of_unix 1760000000)) = Some 1760100000" by code_simp
  show "keyring_wf (wall_of_unix 1760000000) ex_keyring" "keyring_wf (wall_of_unix 1760000000) ex_target"
    by (simp_all add: keyring_wf_def key_wf_def ex_keyring_def ex_target_def ValidIdentifier_def ident_char_def wall_of_unix_def)
qed

lemma ex_token_verifies: "tok_Verify ex_verifier (wall_of_unix 1760000100) ex_token = Inr ex_claims"
proof -
  let ?key = "\<lparr>mk_id = ''key-b'', mk_secret = replicate 32 2, mk_state = ''active'', mk_issueBefore = 0,
    mk_verifyUntil = wall_of_unix 2000000000\<rparr>"
  have pre: "\<forall>p \<in> set [''v4'', ''key-b'']. CHR ''.'' \<notin> set p" by simp
  have "tok_select ex_verifier (wall_of_unix 1760000100) (split_dots ex_token) = Inr (Some ?key, False, length [''v4'', ''key-b''])"
    unfolding ex_token_def
    by (rule tok_select_keyed [of _ ex_keyring])
      (simp_all add: ex_verifier_def ex_keyring_def ValidIdentifier_def ident_char_def)
  moreover have "key_admits ex_verifier (Some ?key) False (ex_claims\<lparr>cm_SigningKeyID := []\<rparr>) ex_claims"
    by (simp add: key_admits_def tok_key_window_def ex_claims_def)
  moreover have "key_open (wall_of_unix 1760000100) (Some ?key)" by (simp add: key_open_def wall_of_unix_def)
  moreover have "tok_signed ex_verifier (Some ?key) input (tok_hmac (replicate 32 2) input)" for input
    by (rule tok_signed_key) simp
  ultimately show ?thesis unfolding ex_token_def
    using ex_claims_clean ex_claims_valid ex_token_length
    by (intro signed_token_verifies [OF pre, where vk = "Some ?key" and legacy = False]) (simp_all add: ex_token_def)
qed

section \<open>Properties\<close>

text \<open>C7. An accepted token ends in a MAC over everything before its last dot under a secret the verifier trusts at
  that moment: one of its fixed secrets or a ring key that is still open, that outlives the token and that, when it
  retires, was still allowed to issue it. Its claims are for the verifier's audience, within the clock skew, not
  expired and of the shape of that audience.\<close>

theorem tok_Verify_sound:
  assumes "tok_Verify V now token = Inr c"
  shows "(\<exists>input sig secret. token = input @ CHR ''.'' # sig \<and> b64_decode sig = Some (tok_hmac secret input) \<and>
      trusted_secret V now c secret) \<and> tok_validateClaims V now (split_dots token ! 0) c = None"
proof -
  obtain vk legacy i payload signature j c0 where
    len: "length (split_dots token) = 3 \<or> length (split_dots token) = 4" and
    sel: "tok_select V now (split_dots token) = Inr (vk, legacy, i)" and
    sig: "b64_decode (split_dots token ! Suc i) = Some signature" and
    opn: "key_open now vk" and
    mac: "tok_signed V vk (join_dots (take (Suc i) (split_dots token))) signature" and
    val: "tok_validateClaims V now (split_dots token ! 0) c0 = None" and
    adm: "key_admits V vk legacy c0 c"
    using assms unfolding tok_Verify_accepts by blast
  note key = tok_select_key [OF sel len]
  from tok_signed_trusted [OF mac key(2) opn adm] tok_parts [OF key(1)] sig
  have "\<exists>input sig secret. token = input @ CHR ''.'' # sig \<and> b64_decode sig = Some (tok_hmac secret input) \<and>
      trusted_secret V now c secret" by blast
  with val key_admits_validate [OF adm] show ?thesis by simp
qed

theorem tok_Verify_sound_witness:
  "(\<exists>input sig secret. ex_token = input @ CHR ''.'' # sig \<and> b64_decode sig = Some (tok_hmac secret input) \<and>
      trusted_secret ex_verifier (wall_of_unix 1760000100) ex_claims secret) \<and>
   tok_validateClaims ex_verifier (wall_of_unix 1760000100) (split_dots ex_token ! 0) ex_claims = None"
  by (rule tok_Verify_sound [OF ex_token_verifies])

text \<open>C8. A validated rotation or forward recovery interrupts no token: after a transition that
  \<^verbatim>\<open>ValidateManagedTokenTransition\<close> accepts, every token the old ring verifies, keyed or unkeyed, verifies under the
  new ring with the same claims, provided the old active key issued it before the cutover.\<close>

theorem transition_keeps_tokens:
  assumes "ValidateManagedTokenTransition current target transition maxTTL t = Some s"
    and "keyring_wf t1 current" and "keyring_wf t2 target" and "vf_managed V = Some current"
    and "tok_Verify V now token = Inr c"
    and "cm_SigningKeyID c = kr_activeKeyID current \<longrightarrow> cm_IssuedAt c < ts_CutoverUnix s"
  shows "tok_Verify (V\<lparr>vf_managed := Some target\<rparr>) now token = Inr c"
proof -
  obtain vk legacy n payload signature j c0 where
    tok: "token \<noteq> []" "length token \<le> maxTokenBytes" "length (split_dots token) = 3 \<or> length (split_dots token) = 4" and
    sel: "tok_select V now (split_dots token) = Inr (vk, legacy, n)" and
    dec: "b64_decode (split_dots token ! n) = Some payload" "b64_decode (split_dots token ! Suc n) = Some signature"
      "length signature = 32" and opn: "key_open now vk" and
    mac: "tok_signed V vk (join_dots (take (Suc n) (split_dots token))) signature" and
    js: "json_parse (string_of_bytes payload) = Some j" "json_struct True claims_fields j claims_zero = Some c0" and
    val: "tok_validateClaims V now (split_dots token ! 0) c0 = None" and adm: "key_admits V vk legacy c0 c"
    using assms(5) unfolding tok_Verify_accepts by blast
  obtain i key key' where vk: "vk = Some key" and key: "map_of (kr_keys current) i = Some key"
    and key': "map_of (kr_keys target) i = Some key'" and kept: "key_kept current (ts_CutoverUnix s) i key key'"
    and sel': "tok_select (V\<lparr>vf_managed := Some target\<rparr>) now (split_dots token) = Inr (Some key', legacy, n)"
    by (rule tok_select_transition [OF assms(1,4) sel])
  have ids: "mk_id key = i" "mk_id key' = i" by (rule keyring_wf_id [OF assms(2) key], rule keyring_wf_id [OF assms(3) key'])
  from adm vk have win: "tok_key_window V key legacy c0" and c: "c = c0\<lparr>cm_SigningKeyID := i\<rparr>"
    by (simp_all add: key_admits_def ids)
  have until: "kr_legacyVerifyUntil current = kr_legacyVerifyUntil target" by (rule transition_facts [OF assms(1)])
  have "tok_key_window (V\<lparr>vf_managed := Some target\<rparr>) key' legacy c0"
    using key_window_transition [OF kept win assms(4) until] tok_select_legacy [OF sel [unfolded vk]] assms(6) c by simp
  then have adm': "key_admits (V\<lparr>vf_managed := Some target\<rparr>) (Some key') legacy c0 c"
    by (simp add: key_admits_def c ids)
  have "key_open now (Some key')" using opn vk kept by (simp add: key_open_def key_kept_def)
  moreover have "tok_signed (V\<lparr>vf_managed := Some target\<rparr>) (Some key') (join_dots (take (Suc n) (split_dots token))) signature"
    using mac vk kept by (simp add: tok_signed_def key_kept_def)
  moreover have "tok_validateClaims (V\<lparr>vf_managed := Some target\<rparr>) now (split_dots token ! 0) c0 = None"
    using val by (simp add: tok_validateClaims_None)
  ultimately show ?thesis using tok dec js sel' adm' by (intro tok_VerifyI)
qed

theorem transition_keeps_tokens_witness:
  "tok_Verify (ex_verifier\<lparr>vf_managed := Some ex_target\<rparr>) (wall_of_unix 1760000100) ex_token = Inr ex_claims"
proof -
  obtain s where s: "ValidateManagedTokenTransition ex_keyring ex_target ManagedTokenTransitionRotate hour (wall_of_unix 1760000000) = Some s"
    "ts_CutoverUnix s = 1760100000" using ex_target_facts(1) by auto
  show ?thesis
    by (rule transition_keeps_tokens [OF s(1) ex_target_facts(2,3) _ ex_token_verifies])
      (simp_all add: ex_verifier_def ex_claims_def s(2))
qed

text \<open>C28. The scope of an owned device identifies it: two sets of claims with the same scope key have the same
  binding, the same revision of it and the same device.\<close>

theorem OwnedDeviceScope_injective:
  assumes "OwnedDeviceScope c = Some k" and "OwnedDeviceScope d = Some k"
  shows "cm_BindingID c = cm_BindingID d \<and> cm_BindingRevision c = cm_BindingRevision d \<and> cm_DeviceID c = cm_DeviceID d"
proof -
  have nul: "CHR 0x00 \<notin> set (cm_BindingID c)" "CHR 0x00 \<notin> set (cm_BindingID d)"
    using assms by (auto simp: OwnedDeviceScope_def dest: ValidBindingID_no_NUL split: if_splits)
  have "cm_BindingID c @ CHR 0x00 # json_nat (unat (cm_BindingRevision c)) @ CHR 0x00 # cm_DeviceID c =
      cm_BindingID d @ CHR 0x00 # json_nat (unat (cm_BindingRevision d)) @ CHR 0x00 # cm_DeviceID d"
    using assms by (auto simp: OwnedDeviceScope_def split: if_splits)
  then show ?thesis
    using nul by (simp add: append_NUL_inject digits_no_NUL json_nat_inject word_unat_eq_iff)
qed

theorem OwnedDeviceScope_injective_witness:
  "OwnedDeviceScope ex_claims \<noteq> None \<and> cm_BindingID ex_claims = cm_BindingID (ex_claims\<lparr>cm_OwnerID := ''other''\<rparr>)"
proof -
  let ?k = "b64_encode (replicate 16 3) @ CHR 0x00 # ''4'' @ CHR 0x00 # ''dev-1''"
  have "OwnedDeviceScope ex_claims = Some ?k" "OwnedDeviceScope (ex_claims\<lparr>cm_OwnerID := ''other''\<rparr>) = Some ?k"
    by code_simp+
  from OwnedDeviceScope_injective [OF this] this(1) show ?thesis by simp
qed

end
