(* ===== verification/TokenIssuer.thy ===== *)
theory TokenIssuer
  imports TokenSafety
begin

text \<open>
  \<^verbatim>\<open>internal/auth/issuer.go\<close>: issuing tokens, and the properties that join the issuer with the verifier of
  \<^verbatim>\<open>token.go\<close>. The zero \<^verbatim>\<open>time.Time\<close> is the instant 0; whether a time is in the location \<^verbatim>\<open>time.UTC\<close> is an argument.
\<close>

section \<open>Definitions\<close>

definition tokenIDBytes :: nat where "tokenIDBytes = 16"

record issuer =
  is_secret :: "byte list"
  is_keyID :: string
  is_verifyUntil :: wall_time
  is_managed :: bool
  is_ttl :: duration
  is_audience :: string

definition NewIssuerForAudience :: "byte list \<Rightarrow> duration \<Rightarrow> string \<Rightarrow> issuer option" where
  "NewIssuerForAudience secret ttl audience =
     (if length secret < 32 then None
      else if ttl < minimumIssuedTTL \<or> ttl > maximumIssuedTTL then None
      else if \<not> ValidIdentifier audience 64 then None
      else Some \<lparr>is_secret = secret, is_keyID = [], is_verifyUntil = 0, is_managed = False, is_ttl = ttl, is_audience = audience\<rparr>)"

definition NewIssuer :: "byte list \<Rightarrow> duration \<Rightarrow> issuer option" where
  "NewIssuer secret ttl = NewIssuerForAudience secret ttl VoiceAudience"

definition NewManagedIssuerForAudience :: "managed_keyring \<Rightarrow> duration \<Rightarrow> string \<Rightarrow> wall_time \<Rightarrow> issuer option" where
  "NewManagedIssuerForAudience keyring ttl audience now =
     (if \<not> ValidIdentifier (kr_activeKeyID keyring) 64 then None
      else case map_of (kr_keys keyring) (kr_activeKeyID keyring) of
        None \<Rightarrow> None
      | Some key \<Rightarrow>
          if mk_state key \<noteq> ''active'' then None
          else case NewIssuerForAudience (mk_secret key) ttl audience of
            None \<Rightarrow> None
          | Some I \<Rightarrow>
              if mk_verifyUntil key < now + (ttl + 30 * second) then None
              else Some (I\<lparr>is_keyID := mk_id key, is_verifyUntil := mk_verifyUntil key, is_managed := True\<rparr>))"

definition time_truncate_second :: "wall_time \<Rightarrow> wall_time" where
  "time_truncate_second t = t - t mod second"

type_synonym issue_result = "(token_error + string \<times> claims) \<times> byte list"

definition tok_issueUntil ::
  "issuer \<Rightarrow> wall_time \<Rightarrow> byte list \<Rightarrow> string \<Rightarrow> string \<Rightarrow> string \<Rightarrow> string \<Rightarrow> string \<Rightarrow> 64 word \<Rightarrow> string \<Rightarrow> string \<Rightarrow> string \<Rightarrow>
   wall_time \<Rightarrow> issue_result" where
  "tok_issueUntil I now random deviceID subject ownerID tenantID bindingID bindingRevision releaseID imageSHA256 action validUntil =
     (if (subject = [] \<and> \<not> ValidIdentifier deviceID maxDeviceID) \<or>
         (subject \<noteq> [] \<and> deviceID \<noteq> [] \<and> action \<noteq> CompanionReleaseAction \<and> action \<noteq> CompanionConsentAction)
      then (Inl TokClaims, random)
      else case read_full tokenIDBytes random of
        None \<Rightarrow> (Inl TokRandom, [])
      | Some (tokenID, random') \<Rightarrow>
          let ttlEnd = time_truncate_second (now + is_ttl I);
              expiresAt = (if validUntil \<noteq> 0 \<and> validUntil < ttlEnd then validUntil else ttlEnd) in
          if i64 (unix_of_wall expiresAt - unix_of_wall now) < minimumIssuedTTL sdiv second then (Inl TokClaims, random')
          else if is_managed I \<and> (\<not> ValidIdentifier (is_keyID I) 64 \<or> is_verifyUntil I < expiresAt + 30 * second)
          then (Inl TokKeyRetired, random')
          else
            let c = \<lparr>cm_DeviceID = deviceID, cm_Subject = subject, cm_Issuer = [], cm_OwnerID = ownerID, cm_TenantID = tenantID,
                  cm_BindingID = bindingID, cm_BindingRevision = bindingRevision, cm_Action = action, cm_Audience = is_audience I,
                  cm_IssuedAt = unix_of_wall now, cm_Expires = unix_of_wall expiresAt, cm_TokenID = b64_encode tokenID,
                  cm_ReleaseID = releaseID, cm_ImageSHA256 = imageSHA256, cm_SigningKeyID = is_keyID I\<rparr>;
                encoded = b64_encode (bytes_of (json_print (claims_json c)));
                owned = (is_audience I = VoiceAudience \<or> is_audience I = AgentAudience);
                signingInput =
                  (if is_managed I then (if owned then ''v4'' else ''v2'') @ ''.'' @ is_keyID I @ ''.'' @ encoded
                   else (if owned then ''v3'' else ''v1'') @ ''.'' @ encoded);
                token = signingInput @ ''.'' @ b64_encode (tok_hmac (is_secret I) signingInput) in
            if length token > maxTokenBytes then (Inl TokMalformed, random')
            else (Inr (token, c), random'))"

definition tok_issue ::
  "issuer \<Rightarrow> wall_time \<Rightarrow> byte list \<Rightarrow> string \<Rightarrow> string \<Rightarrow> string \<Rightarrow> string \<Rightarrow> string \<Rightarrow> 64 word \<Rightarrow> string \<Rightarrow> string \<Rightarrow> string \<Rightarrow>
   issue_result" where
  "tok_issue I now random deviceID subject ownerID tenantID bindingID bindingRevision releaseID imageSHA256 action =
     tok_issueUntil I now random deviceID subject ownerID tenantID bindingID bindingRevision releaseID imageSHA256 action 0"

definition Issue :: "issuer \<Rightarrow> wall_time \<Rightarrow> byte list \<Rightarrow> string \<Rightarrow> issue_result" where
  "Issue I now random deviceID =
     (if is_audience I = VoiceAudience \<or> is_audience I = AgentAudience \<or> is_audience I = OTAAudience \<or>
         is_audience I = CompanionAudience
      then (Inl TokClaims, random)
      else tok_issue I now random deviceID [] [] [] [] 0 [] [] [])"

definition IssueCompanion :: "issuer \<Rightarrow> wall_time \<Rightarrow> byte list \<Rightarrow> string \<Rightarrow> string \<Rightarrow> issue_result" where
  "IssueCompanion I now random subject tenantID =
     (if is_audience I \<noteq> CompanionAudience \<or> \<not> ValidIdentifier subject 128 \<or> \<not> ValidIdentifier tenantID 128
      then (Inl TokClaims, random)
      else tok_issue I now random [] subject [] tenantID [] 0 [] [] CompanionClaimAction)"

definition IssueCompanionRelease :: "issuer \<Rightarrow> wall_time \<Rightarrow> byte list \<Rightarrow> string \<Rightarrow> string \<Rightarrow> string \<Rightarrow> issue_result" where
  "IssueCompanionRelease I now random subject tenantID deviceID =
     (if is_audience I \<noteq> CompanionAudience \<or> \<not> ValidIdentifier subject 128 \<or> \<not> ValidIdentifier tenantID 128 \<or>
         \<not> ValidIdentifier deviceID maxDeviceID
      then (Inl TokClaims, random)
      else tok_issue I now random deviceID subject [] tenantID [] 0 [] [] CompanionReleaseAction)"

definition IssueCompanionActionConsent :: "issuer \<Rightarrow> wall_time \<Rightarrow> byte list \<Rightarrow> string \<Rightarrow> string \<Rightarrow> string \<Rightarrow> issue_result" where
  "IssueCompanionActionConsent I now random subject tenantID deviceID =
     (if is_audience I \<noteq> CompanionAudience \<or> \<not> ValidIdentifier subject 128 \<or> \<not> ValidIdentifier tenantID 128 \<or>
         \<not> ValidIdentifier deviceID maxDeviceID
      then (Inl TokClaims, random)
      else tok_issue I now random deviceID subject [] tenantID [] 0 [] [] CompanionConsentAction)"

definition tok_issueOwnedUntil ::
  "issuer \<Rightarrow> wall_time \<Rightarrow> byte list \<Rightarrow> string \<Rightarrow> string \<Rightarrow> string \<Rightarrow> string \<Rightarrow> 64 word \<Rightarrow> wall_time \<Rightarrow> issue_result" where
  "tok_issueOwnedUntil I now random deviceID ownerID tenantID bindingID bindingRevision validUntil =
     (if (is_audience I \<noteq> VoiceAudience \<and> is_audience I \<noteq> AgentAudience) \<or> \<not> ValidIdentifier deviceID maxDeviceID \<or>
         \<not> ValidIdentifier ownerID 128 \<or> \<not> ValidIdentifier tenantID 128 \<or> \<not> ValidBindingID bindingID \<or>
         \<not> ValidBindingRevision bindingRevision
      then (Inl TokClaims, random)
      else tok_issueUntil I now random deviceID [] ownerID tenantID bindingID bindingRevision [] [] [] validUntil)"

definition IssueOwned ::
  "issuer \<Rightarrow> wall_time \<Rightarrow> byte list \<Rightarrow> string \<Rightarrow> string \<Rightarrow> string \<Rightarrow> string \<Rightarrow> 64 word \<Rightarrow> issue_result" where
  "IssueOwned I now random deviceID ownerID tenantID bindingID bindingRevision =
     tok_issueOwnedUntil I now random deviceID ownerID tenantID bindingID bindingRevision 0"

definition IssueOwnedUntil ::
  "issuer \<Rightarrow> wall_time \<Rightarrow> byte list \<Rightarrow> string \<Rightarrow> string \<Rightarrow> string \<Rightarrow> string \<Rightarrow> 64 word \<Rightarrow> wall_time \<Rightarrow> bool \<Rightarrow> issue_result" where
  "IssueOwnedUntil I now random deviceID ownerID tenantID bindingID bindingRevision validUntil utc =
     (if validUntil = 0 \<or> \<not> utc \<or> validUntil mod second \<noteq> 0 then (Inl TokClaims, random)
      else tok_issueOwnedUntil I now random deviceID ownerID tenantID bindingID bindingRevision validUntil)"

definition IssueForRelease :: "issuer \<Rightarrow> wall_time \<Rightarrow> byte list \<Rightarrow> string \<Rightarrow> string \<Rightarrow> string \<Rightarrow> issue_result" where
  "IssueForRelease I now random deviceID releaseID imageSHA256 =
     (if is_audience I \<noteq> OTAAudience \<or> \<not> ValidIdentifier releaseID 64 \<or> \<not> validSHA256 imageSHA256
      then (Inl TokClaims, random)
      else tok_issue I now random deviceID [] [] [] [] 0 releaseID imageSHA256 [])"

section \<open>Lemmas\<close>

subsection \<open>What is issued\<close>

definition issuer_parts :: "issuer \<Rightarrow> string list" where
  "issuer_parts I = (let owned = is_audience I = VoiceAudience \<or> is_audience I = AgentAudience in
     if is_managed I then [if owned then ''v4'' else ''v2'', is_keyID I] else [if owned then ''v3'' else ''v1''])"

text \<open>A token of the issuer \<open>I\<close>, issued at \<open>now\<close> and expiring at \<open>E\<close>.\<close>

definition issued_at :: "issuer \<Rightarrow> wall_time \<Rightarrow> wall_time \<Rightarrow> string \<Rightarrow> claims \<Rightarrow> bool" where
  "issued_at I now E token c \<longleftrightarrow> token = signed_token (issuer_parts I) (is_secret I) c \<and> length token \<le> maxTokenBytes \<and>
     cm_Audience c = is_audience I \<and> cm_IssuedAt c = unix_of_wall now \<and> cm_Expires c = unix_of_wall E \<and>
     cm_SigningKeyID c = is_keyID I \<and> cm_Issuer c = [] \<and> ValidIdentifier (cm_TokenID c) 128 \<and>
     60 \<le> i64 (unix_of_wall E - unix_of_wall now) \<and> E \<le> time_truncate_second (now + is_ttl I) \<and>
     (is_managed I \<longrightarrow> ValidIdentifier (is_keyID I) 64 \<and> E + 30 * second \<le> is_verifyUntil I)"

lemma minimumIssuedTTL_seconds: "minimumIssuedTTL sdiv second = 60"
  by (simp add: minimumIssuedTTL_def sdiv_nonneg)

lemma tok_issueUntil_issued:
  assumes "tok_issueUntil I now random deviceID subject ownerID tenantID bindingID bindingRevision releaseID imageSHA256 action
    validUntil = (Inr (token, c), random')"
  obtains E where "issued_at I now E token c"
    and "E = (if validUntil \<noteq> 0 \<and> validUntil < time_truncate_second (now + is_ttl I) then validUntil
         else time_truncate_second (now + is_ttl I))"
    and "cm_DeviceID c = deviceID" and "cm_Subject c = subject" and "cm_OwnerID c = ownerID" and "cm_TenantID c = tenantID"
    and "cm_BindingID c = bindingID" and "cm_BindingRevision c = bindingRevision" and "cm_Action c = action"
    and "cm_ReleaseID c = releaseID" and "cm_ImageSHA256 c = imageSHA256"
    and "subject = [] \<longrightarrow> ValidIdentifier deviceID maxDeviceID"
proof -
  define E where "E = (if validUntil \<noteq> 0 \<and> validUntil < time_truncate_second (now + is_ttl I) then validUntil
         else time_truncate_second (now + is_ttl I))"
  from assms obtain tid where tid: "read_full tokenIDBytes random = Some (tid, random')"
    by (auto simp: tok_issueUntil_def Let_def split: if_splits option.splits)
  have facts: "60 \<le> i64 (unix_of_wall E - unix_of_wall now)"
      "is_managed I \<longrightarrow> ValidIdentifier (is_keyID I) 64 \<and> E + 30 * second \<le> is_verifyUntil I"
      "subject = [] \<longrightarrow> ValidIdentifier deviceID maxDeviceID"
      "token = signed_token (issuer_parts I) (is_secret I) c"
      "c = \<lparr>cm_DeviceID = deviceID, cm_Subject = subject, cm_Issuer = [], cm_OwnerID = ownerID, cm_TenantID = tenantID,
         cm_BindingID = bindingID, cm_BindingRevision = bindingRevision, cm_Action = action, cm_Audience = is_audience I,
         cm_IssuedAt = unix_of_wall now, cm_Expires = unix_of_wall E, cm_TokenID = b64_encode tid,
         cm_ReleaseID = releaseID, cm_ImageSHA256 = imageSHA256, cm_SigningKeyID = is_keyID I\<rparr>"
    using assms tid unfolding tok_issueUntil_def E_def [symmetric] minimumIssuedTTL_seconds Let_def
    by (simp_all add: issuer_parts_def signed_token_def signing_input_def not_less split: if_splits)
  moreover have "length token \<le> maxTokenBytes"
    using assms tid unfolding tok_issueUntil_def by (auto simp: Let_def not_less split: if_splits)
  moreover have "length tid = 16" using read_full_length [OF tid] by (simp add: tokenIDBytes_def)
  then have "ValidIdentifier (b64_encode tid) 128" using ValidIdentifier_b64 [of tid 128] by fastforce
  ultimately have "issued_at I now E token c" by (auto simp: issued_at_def E_def)
  with facts(3,5) show ?thesis by (intro that [of E]) (simp_all add: E_def)
qed

text \<open>The tokens of the exported operations.\<close>

inductive tok_issued :: "issuer \<Rightarrow> wall_time \<Rightarrow> string \<Rightarrow> claims \<Rightarrow> bool" for I now where
  plain: "Issue I now r d = (Inr (token, c), r') \<Longrightarrow> tok_issued I now token c"
| claim: "IssueCompanion I now r s t = (Inr (token, c), r') \<Longrightarrow> tok_issued I now token c"
| release: "IssueCompanionRelease I now r s t d = (Inr (token, c), r') \<Longrightarrow> tok_issued I now token c"
| consent: "IssueCompanionActionConsent I now r s t d = (Inr (token, c), r') \<Longrightarrow> tok_issued I now token c"
| owned: "IssueOwned I now r d ow t b v = (Inr (token, c), r') \<Longrightarrow> tok_issued I now token c"
| owned_until: "IssueOwnedUntil I now r d ow t b v u utc = (Inr (token, c), r') \<Longrightarrow> 0 \<le> u \<Longrightarrow> tok_issued I now token c"
| image: "IssueForRelease I now r d rel sha = (Inr (token, c), r') \<Longrightarrow> tok_issued I now token c"

lemmas audience_defs = VoiceAudience_def AgentAudience_def OTAAudience_def CompanionAudience_def
lemmas action_defs = CompanionClaimAction_def CompanionReleaseAction_def CompanionConsentAction_def

lemma issuer_version:
  "hd (issuer_parts I) = (if is_audience I = VoiceAudience \<or> is_audience I = AgentAudience
     then (if is_managed I then ''v4'' else ''v3'') else (if is_managed I then ''v2'' else ''v1''))"
  by (simp add: issuer_parts_def)

lemmas scope_simps = claims_scope_ok_def issuer_version validCompanionActionDevice_def audience_defs action_defs

lemma time_truncate_second_nonneg: "0 \<le> t \<Longrightarrow> 0 \<le> time_truncate_second t"
  by (simp add: time_truncate_second_def zmod_le_nonneg_dividend)

lemma issueUntil_scope:
  assumes "tok_issueUntil I now random deviceID subject ownerID tenantID bindingID bindingRevision releaseID imageSHA256 action
      validUntil = (Inr (token, c), random')" and "0 \<le> now + is_ttl I" and "0 \<le> validUntil"
    and scope: "\<lbrakk>cm_Audience c = is_audience I; cm_Issuer c = []; ValidIdentifier (cm_TokenID c) 128; cm_DeviceID c = deviceID;
      cm_Subject c = subject; cm_OwnerID c = ownerID; cm_TenantID c = tenantID; cm_BindingID c = bindingID;
      cm_BindingRevision c = bindingRevision; cm_Action c = action; cm_ReleaseID c = releaseID; cm_ImageSHA256 c = imageSHA256;
      subject = [] \<longrightarrow> ValidIdentifier deviceID maxDeviceID\<rbrakk> \<Longrightarrow> claims_scope_ok (hd (issuer_parts I)) c"
  shows "\<exists>E. issued_at I now E token c \<and> claims_scope_ok (hd (issuer_parts I)) c \<and> 0 \<le> E"
proof (rule tok_issueUntil_issued [OF assms(1)])
  fix E
  assume E: "issued_at I now E token c" "E = (if validUntil \<noteq> 0 \<and> validUntil < time_truncate_second (now + is_ttl I)
      then validUntil else time_truncate_second (now + is_ttl I))"
    and fields: "cm_DeviceID c = deviceID" "cm_Subject c = subject" "cm_OwnerID c = ownerID" "cm_TenantID c = tenantID"
      "cm_BindingID c = bindingID" "cm_BindingRevision c = bindingRevision" "cm_Action c = action" "cm_ReleaseID c = releaseID"
      "cm_ImageSHA256 c = imageSHA256" "subject = [] \<longrightarrow> ValidIdentifier deviceID maxDeviceID"
  have "claims_scope_ok (hd (issuer_parts I)) c"
    using E(1) by (intro scope fields) (simp_all add: issued_at_def)
  moreover have "0 \<le> E" using E(2) assms(3) time_truncate_second_nonneg [OF assms(2)] by simp
  ultimately show ?thesis using E(1) by blast
qed

lemma tok_issued_scope:
  assumes "tok_issued I now token c" and "0 \<le> now + is_ttl I"
  shows "\<exists>E. issued_at I now E token c \<and> claims_scope_ok (hd (issuer_parts I)) c \<and> 0 \<le> E"
  using assms(1)
proof cases
  case (plain r d r')
  then have aud: "is_audience I \<noteq> VoiceAudience" "is_audience I \<noteq> AgentAudience" "is_audience I \<noteq> OTAAudience"
      "is_audience I \<noteq> CompanionAudience"
    and i: "tok_issueUntil I now r d [] [] [] [] 0 [] [] [] 0 = (Inr (token, c), r')"
    by (auto simp: Issue_def tok_issue_def split: if_splits)
  show ?thesis
    by (rule issueUntil_scope [OF i assms(2)]) (use aud in \<open>auto simp: scope_simps dest: ValidIdentifier_nonempty\<close>)
next
  case (claim r s t r')
  then have aud: "is_audience I = CompanionAudience" "ValidIdentifier s 128" "ValidIdentifier t 128"
    and i: "tok_issueUntil I now r [] s [] t [] 0 [] [] CompanionClaimAction 0 = (Inr (token, c), r')"
    by (auto simp: IssueCompanion_def tok_issue_def split: if_splits)
  show ?thesis
    by (rule issueUntil_scope [OF i assms(2)]) (use aud in \<open>auto simp: scope_simps dest: ValidIdentifier_nonempty\<close>)
next
  case (release r s t d r')
  then have aud: "is_audience I = CompanionAudience" "ValidIdentifier s 128" "ValidIdentifier t 128" "ValidIdentifier d maxDeviceID"
    and i: "tok_issueUntil I now r d s [] t [] 0 [] [] CompanionReleaseAction 0 = (Inr (token, c), r')"
    by (auto simp: IssueCompanionRelease_def tok_issue_def split: if_splits)
  show ?thesis
    by (rule issueUntil_scope [OF i assms(2)]) (use aud in \<open>auto simp: scope_simps dest: ValidIdentifier_nonempty\<close>)
next
  case (consent r s t d r')
  then have aud: "is_audience I = CompanionAudience" "ValidIdentifier s 128" "ValidIdentifier t 128" "ValidIdentifier d maxDeviceID"
    and i: "tok_issueUntil I now r d s [] t [] 0 [] [] CompanionConsentAction 0 = (Inr (token, c), r')"
    by (auto simp: IssueCompanionActionConsent_def tok_issue_def split: if_splits)
  show ?thesis
    by (rule issueUntil_scope [OF i assms(2)]) (use aud in \<open>auto simp: scope_simps dest: ValidIdentifier_nonempty\<close>)
next
  case (owned r d ow t b v r')
  then have aud: "is_audience I = VoiceAudience \<or> is_audience I = AgentAudience" "ValidIdentifier d maxDeviceID"
      "ValidIdentifier ow 128" "ValidIdentifier t 128" "ValidBindingID b" "ValidBindingRevision v"
    and i: "tok_issueUntil I now r d [] ow t b v [] [] [] 0 = (Inr (token, c), r')"
    by (auto simp: IssueOwned_def tok_issueOwnedUntil_def split: if_splits)
  show ?thesis
    by (rule issueUntil_scope [OF i assms(2)]) (use aud in \<open>auto simp: scope_simps dest: ValidIdentifier_nonempty\<close>)
next
  case (owned_until r d ow t b v u utc r')
  then have aud: "is_audience I = VoiceAudience \<or> is_audience I = AgentAudience" "ValidIdentifier d maxDeviceID"
      "ValidIdentifier ow 128" "ValidIdentifier t 128" "ValidBindingID b" "ValidBindingRevision v"
    and i: "tok_issueUntil I now r d [] ow t b v [] [] [] u = (Inr (token, c), r')"
    by (auto simp: IssueOwnedUntil_def tok_issueOwnedUntil_def split: if_splits)
  show ?thesis
    by (rule issueUntil_scope [OF i assms(2)]) (use aud owned_until(2) in \<open>auto simp: scope_simps dest: ValidIdentifier_nonempty\<close>)
next
  case (image r d rel sha r')
  then have aud: "is_audience I = OTAAudience" "ValidIdentifier rel 64" "validSHA256 sha"
    and i: "tok_issueUntil I now r d [] [] [] [] 0 rel sha [] 0 = (Inr (token, c), r')"
    by (auto simp: IssueForRelease_def tok_issue_def split: if_splits)
  show ?thesis
    by (rule issueUntil_scope [OF i assms(2)]) (use aud in \<open>auto simp: scope_simps dest: ValidIdentifier_nonempty\<close>)
qed

subsection \<open>Issuer and verifier\<close>

text \<open>The verifier knows the issuer's key, and allows its lifetime.\<close>

definition same_key :: "issuer \<Rightarrow> verifier \<Rightarrow> bool" where
  "same_key I V \<longleftrightarrow> (if is_managed I then
     (\<exists>K key. vf_managed V = Some K \<and> map_of (kr_keys K) (is_keyID I) = Some key \<and> mk_id key = is_keyID I \<and>
        mk_secret key = is_secret I \<and> mk_verifyUntil key = is_verifyUntil I \<and> mk_state key = ''active'') \<and>
        CHR ''.'' \<notin> set (is_keyID I)
     else vf_managed V = None \<and> is_secret I \<in> set (vf_secrets V) \<and> is_keyID I = [])"

definition agrees :: "issuer \<Rightarrow> verifier \<Rightarrow> bool" where
  "agrees I V \<longleftrightarrow> vf_audience V = is_audience I \<and> ValidIdentifier (is_audience I) 64 \<and> vf_skew V = 30 * second \<and>
     minute \<le> is_ttl I \<and> is_ttl I \<le> hour \<and> is_ttl I mod second = 0 \<and> is_ttl I \<le> vf_maxTTL V \<and> same_key I V"

lemma unix_truncate: "unix_of_wall (time_truncate_second t) = unix_of_wall t"
  unfolding unix_of_wall_def time_truncate_second_def by (simp add: minus_mod_eq_mult_div)

lemma issued_times:
  assumes "issued_at I now E token c" and "0 \<le> E" and "0 < unix_of_wall now" and "unix_of_wall now < 2 ^ 62"
    and "is_ttl I \<le> hour" and "is_ttl I mod second = 0"
  shows "cm_IssuedAt c + 60 \<le> cm_Expires c" and "cm_Expires c \<le> cm_IssuedAt c + is_ttl I div second"
    and "cm_Expires c \<le> cm_IssuedAt c + 3600"
proof -
  have E: "cm_IssuedAt c = unix_of_wall now" "cm_Expires c = unix_of_wall E" "60 \<le> i64 (unix_of_wall E - unix_of_wall now)"
    "E \<le> time_truncate_second (now + is_ttl I)" using assms(1) by (simp_all add: issued_at_def)
  have ttl: "is_ttl I = (is_ttl I div second) * second"
    using div_mult_mod_eq [of "is_ttl I" second] assms(6) by simp
  have "unix_of_wall E \<le> unix_of_wall (now + (is_ttl I div second) * second)"
    using unix_of_wall_mono [OF E(4)] unfolding unix_truncate using ttl by simp
  also have "\<dots> = unix_of_wall now + is_ttl I div second" by (rule unix_of_wall_add_seconds)
  finally show up: "cm_Expires c \<le> cm_IssuedAt c + is_ttl I div second" by (simp add: E)
  have "is_ttl I div second \<le> hour div second" using assms(5) by (rule zdiv_mono1) simp
  then show hour: "cm_Expires c \<le> cm_IssuedAt c + 3600" using up by simp
  have "- 62135596800 \<le> unix_of_wall E" using assms(2) by (simp add: unix_of_wall_def)
  then have "i64 (unix_of_wall E - unix_of_wall now) = unix_of_wall E - unix_of_wall now"
    using hour assms(3,4) by (intro i64_id) (simp_all add: E)
  then show "cm_IssuedAt c + 60 \<le> cm_Expires c" using E by simp
qed

lemma claims_scope_ascii:
  assumes "claims_scope_ok v c" and "ValidIdentifier (cm_Audience c) 64" and "ValidIdentifier (cm_TokenID c) 128"
  shows "list_all (\<lambda>f. ascii (f c)) [cm_DeviceID, cm_Subject, cm_Issuer, cm_OwnerID, cm_TenantID, cm_BindingID, cm_Action, cm_Audience,
       cm_TokenID, cm_ReleaseID, cm_ImageSHA256]"
proof -
  have "ascii x" if "ValidBindingID x" for x using that by (auto simp: ValidBindingID_def canonical_bytes_iff)
  moreover have "ascii x" if "validCompanionActionDevice x y" for x y
    using that by (auto simp: validCompanionActionDevice_def action_defs split: if_splits)
  moreover have "ascii y" if "validCompanionActionDevice x y" for x y
    using that by (auto simp: validCompanionActionDevice_def dest: ValidIdentifier_ascii split: if_splits)
  ultimately show ?thesis
    using assms by (auto simp: claims_scope_ok_def dest: ValidIdentifier_ascii validSHA256_ascii split: if_splits)
qed

text \<open>At the time \<open>now'\<close> a token with these claims is current.\<close>

definition current_at :: "wall_time \<Rightarrow> claims \<Rightarrow> bool" where
  "current_at now' c \<longleftrightarrow> cm_IssuedAt c \<le> unix_of_wall now' + 30 \<and> unix_of_wall now' - 30 < cm_Expires c"

lemma issuer_parts_plain: "same_key I V \<Longrightarrow> \<forall>p \<in> set (issuer_parts I). CHR ''.'' \<notin> set p"
  by (auto simp: issuer_parts_def Let_def same_key_def split: if_splits)

lemma issued_validates:
  assumes "issued_at I now E token c" and "0 \<le> E" and "claims_scope_ok v c" and "agrees I V"
    and "0 < unix_of_wall now" and "unix_of_wall now < 2 ^ 62" and "current_at now' c"
  shows "tok_validateClaims V now' v c = None"
proof -
  have ttl: "is_ttl I \<le> hour" "is_ttl I mod second = 0" "is_ttl I \<le> vf_maxTTL V" "minute \<le> is_ttl I" and
    V: "vf_audience V = is_audience I" "vf_skew V = 30 * second" using assms(4) by (simp_all add: agrees_def)
  note times = issued_times [OF assms(1,2,5,6) ttl(1,2)]
  have iat: "cm_IssuedAt c = unix_of_wall now" using assms(1) by (simp add: issued_at_def)
  have small: "- 100 < unix_of_wall now'" "unix_of_wall now' < 2 ^ 62 + 4000"
    using assms(5-7) times(3) iat by (simp_all add: current_at_def)
  have "is_ttl I div second \<le> vf_maxTTL V div second" using ttl(3) by (rule zdiv_mono1) simp
  moreover have "vf_maxTTL V sdiv second = vf_maxTTL V div second" using ttl(3,4) by (intro sdiv_nonneg) simp_all
  ultimately have "cm_Expires c - cm_IssuedAt c \<le> vf_maxTTL V sdiv second" using times(2) by linarith
  moreover have "i64 (cm_Expires c - cm_IssuedAt c) = cm_Expires c - cm_IssuedAt c" using times by (intro i64_id) simp_all
  moreover have "i64 (unix_of_wall now' + 30) = unix_of_wall now' + 30" "i64 (unix_of_wall now' - 30) = unix_of_wall now' - 30"
    using small by (simp_all add: i64_id)
  moreover have "vf_skew V sdiv second = 30" by (simp add: V sdiv_nonneg)
  moreover have "ValidIdentifier (cm_TokenID c) 128" "cm_Audience c = vf_audience V"
    using assms(1) V by (simp_all add: issued_at_def)
  ultimately show ?thesis
    unfolding tok_validateClaims_None using assms(3,5,7) times(1) iat by (simp add: current_at_def)
qed

lemma issued_clean:
  assumes "issued_at I now E token c" and "0 \<le> E" and "claims_scope_ok v c" and "agrees I V"
    and "0 < unix_of_wall now" and "unix_of_wall now < 2 ^ 62"
  shows "claims_clean c"
proof -
  have "cm_IssuedAt c = unix_of_wall now" "ValidIdentifier (cm_Audience c) 64" "ValidIdentifier (cm_TokenID c) 128"
    using assms(1,4) by (simp_all add: issued_at_def agrees_def)
  moreover have "is_ttl I \<le> hour" "is_ttl I mod second = 0" using assms(4) by (simp_all add: agrees_def)
  note issued_times [OF assms(1,2,5,6) this]
  ultimately show ?thesis
    using claims_scope_ascii [OF assms(3)] assms(5,6) unfolding claims_clean_def by (simp add: in_int64_def)
qed

lemma issued_open:
  assumes "issued_at I now E token c" and "is_managed I" and "current_at now' c"
  shows "now' < is_verifyUntil I" and "cm_Expires c \<le> unix_of_wall (is_verifyUntil I)"
proof -
  have E: "cm_Expires c = unix_of_wall E" "E + 30 * second \<le> is_verifyUntil I"
    using assms(1,2) by (simp_all add: issued_at_def)
  have "unix_of_wall now' < unix_of_wall E + 30" using assms(3) by (simp add: current_at_def E)
  then have "now' < wall_of_unix (unix_of_wall E + 30)" by (rule unix_le_wall_le)
  also have "\<dots> = wall_of_unix (unix_of_wall E) + 30 * second" by (simp add: wall_of_unix_def)
  also have "wall_of_unix (unix_of_wall E) \<le> E" unfolding wall_of_unix_def unix_of_wall_def
    using div_mult_mod_eq [of E second] pos_mod_sign [of second E] by simp
  finally show "now' < is_verifyUntil I" using E(2) by simp
  have "E \<le> is_verifyUntil I" using E(2) by simp
  from unix_of_wall_mono [OF this] show "cm_Expires c \<le> unix_of_wall (is_verifyUntil I)" by (simp add: E(1))
qed

lemma issued_verifies:
  assumes "tok_issued I now token c" and "agrees I V" and "0 < unix_of_wall now" and "unix_of_wall now < 2 ^ 62"
    and "current_at now' c"
  shows "tok_Verify V now' token = Inr c"
proof -
  have "0 \<le> now + is_ttl I" using assms(2,3) by (auto simp: agrees_def unix_of_wall_def)
  from tok_issued_scope [OF assms(1) this] obtain E where
    E: "issued_at I now E token c" "claims_scope_ok (hd (issuer_parts I)) c" "0 \<le> E" by blast
  note val = issued_validates [OF E(1,3,2) assms(2-5)]
  note clean = issued_clean [OF E(1,3,2) assms(2-4)]
  have tok: "token = signed_token (issuer_parts I) (is_secret I) c" "length token \<le> maxTokenBytes" "cm_SigningKeyID c = is_keyID I"
    using E(1) unfolding issued_at_def by blast+
  have same: "same_key I V" using assms(2) by (simp add: agrees_def)
  have parts: "length (issuer_parts I) = 1 \<or> length (issuer_parts I) = 2" "hd (issuer_parts I) = issuer_parts I ! 0"
    by (simp_all add: issuer_parts_def Let_def)
  have "\<exists>vk. tok_select V now' (split_dots token) = Inr (vk, False, length (issuer_parts I)) \<and> key_open now' vk \<and>
    key_admits V vk False (c\<lparr>cm_SigningKeyID := []\<rparr>) c \<and> (\<forall>input. tok_signed V vk input (tok_hmac (is_secret I) input))"
  proof (cases "is_managed I")
    case True
    with same obtain K key where K: "vf_managed V = Some K" "map_of (kr_keys K) (is_keyID I) = Some key" "mk_id key = is_keyID I"
      "mk_secret key = is_secret I" "mk_verifyUntil key = is_verifyUntil I" "mk_state key = ''active''" "CHR ''.'' \<notin> set (is_keyID I)"
      by (auto simp: same_key_def)
    have "ValidIdentifier (is_keyID I) 64" using E(1) True by (simp add: issued_at_def)
    from tok_select_keyed [OF K(1) _ this K(7,2)]
    have "tok_select V now' (split_dots token) = Inr (Some key, False, length (issuer_parts I))"
      using True by (simp add: tok(1) issuer_parts_def Let_def)
    moreover have "key_open now' (Some key)" using issued_open(1) [OF E(1) True assms(5)] K(5) by (simp add: key_open_def)
    moreover have "key_admits V (Some key) False (c\<lparr>cm_SigningKeyID := []\<rparr>) c"
      using issued_open(2) [OF E(1) True assms(5)] K(3,5,6) tok(3) by (simp add: key_admits_def tok_key_window_def)
    ultimately show ?thesis using tok_signed_key [OF K(4)] by blast
  next
    case False
    with same have V: "vf_managed V = None" "is_secret I \<in> set (vf_secrets V)" "is_keyID I = []" by (simp_all add: same_key_def)
    then have "vf_secrets V \<noteq> []" by auto
    from tok_select_unkeyed [OF V(1) _ this]
    have "tok_select V now' (split_dots token) = Inr (None, False, length (issuer_parts I))"
      using False by (simp add: tok(1) issuer_parts_def Let_def)
    moreover have "key_admits V None False (c\<lparr>cm_SigningKeyID := []\<rparr>) c" using tok(3) V(3) by (simp add: key_admits_def)
    ultimately show ?thesis using tok_signed_secret [OF V(2)] by (auto simp: key_open_def)
  qed
  then show ?thesis
    using issuer_parts_plain [OF same] parts tok val clean unfolding tok(1)
    by (auto intro: signed_token_verifies)
qed

lemma length_tok_token:
  "length (s @ ''.'' @ b64_encode (tok_hmac k s)) = length s + 44"
  by (simp add: length_b64_encode)

lemma NewIssuerForAudience_Some:
  "NewIssuerForAudience secret ttl audience = Some I \<longleftrightarrow> 32 \<le> length secret \<and> minute \<le> ttl \<and> ttl \<le> hour \<and>
     ValidIdentifier audience 64 \<and>
     I = \<lparr>is_secret = secret, is_keyID = [], is_verifyUntil = 0, is_managed = False, is_ttl = ttl, is_audience = audience\<rparr>"
  by (auto simp: NewIssuerForAudience_def minimumIssuedTTL_def maximumIssuedTTL_def)

lemma managed_agrees:
  assumes "NewManagedIssuerForAudience K ttl audience t0 = Some I"
    and "NewManagedKeyringVerifierForAudience K maxTTL audience t1 = Some V"
    and "keyring_wf t K" and "CHR ''.'' \<notin> set (kr_activeKeyID K)" and "ttl mod second = 0" and "ttl \<le> maxTTL"
  shows "agrees I V"
proof -
  from assms(1) obtain key I0 where key: "map_of (kr_keys K) (kr_activeKeyID K) = Some key" "mk_state key = ''active''"
    and I0: "NewIssuerForAudience (mk_secret key) ttl audience = Some I0"
    and I: "I = I0\<lparr>is_keyID := mk_id key, is_verifyUntil := mk_verifyUntil key, is_managed := True\<rparr>"
    by (auto simp: NewManagedIssuerForAudience_def split: if_splits option.splits)
  have V: "V = \<lparr>vf_secrets = [], vf_managed = Some K, vf_audience = audience, vf_maxTTL = maxTTL, vf_skew = 30 * second\<rparr>"
    using assms(2) by (auto simp: NewManagedKeyringVerifierForAudience_def split: if_splits option.splits)
  have "mk_id key = kr_activeKeyID K" by (rule keyring_wf_id [OF assms(3) key(1)])
  with I0 key assms(4-6) show ?thesis by (simp add: NewIssuerForAudience_Some agrees_def same_key_def I V)
qed

lemma fixed_agrees:
  assumes "NewIssuerForAudience secret ttl audience = Some I" and "NewKeyringVerifierForAudience secrets maxTTL audience = Some V"
    and "secret \<in> set secrets" and "ttl mod second = 0" and "ttl \<le> maxTTL"
  shows "agrees I V"
  using assms by (auto simp: NewIssuerForAudience_Some NewKeyringVerifierForAudience_def agrees_def same_key_def split: if_splits)

section \<open>Examples\<close>

lemma owned_claims_size:
  assumes "claims_clean c" and "length (cm_DeviceID c) + length (cm_OwnerID c) + length (cm_TenantID c) + length (cm_BindingID c) +
      length (cm_Audience c) + length (cm_TokenID c) \<le> 100"
    and "cm_Subject c = []" and "cm_Issuer c = []" and "cm_Action c = []" and "cm_ReleaseID c = []" and "cm_ImageSHA256 c = []"
  shows "length (json_print (claims_json c)) \<le> 1400"
proof -
  have "length (json_int (cm_IssuedAt c)) \<le> 21" "length (json_int (cm_Expires c)) \<le> 21"
    using assms(1) by (auto simp: claims_clean_def in_int64_def intro: length_json_int)
  moreover have "length (json_nat (unat (cm_BindingRevision c))) \<le> 20" by (rule length_json_word) simp
  ultimately have "json_size (claims_json c) \<le> 1400"
    using assms(2-) by (simp add: claims_json_def omit_empty_def)
  with json_size_bound [OF claims_json_ok [OF assms(1)]] show ?thesis by (rule order_trans)
qed

definition ex_issued :: "issuer \<Rightarrow> wall_time \<Rightarrow> claims" where
  "ex_issued I validUntil = \<lparr>cm_DeviceID = ''dev-1'', cm_Subject = [], cm_Issuer = [], cm_OwnerID = ''owner'', cm_TenantID = ''tenant'',
     cm_BindingID = b64_encode (replicate 16 3), cm_BindingRevision = 4, cm_Action = [], cm_Audience = VoiceAudience,
     cm_IssuedAt = 1760000000, cm_Expires = unix_of_wall validUntil, cm_TokenID = b64_encode (replicate 16 9),
     cm_ReleaseID = [], cm_ImageSHA256 = [], cm_SigningKeyID = is_keyID I\<rparr>"

lemma ex_issue:
  assumes "is_audience I = VoiceAudience" and "is_ttl I = hour" and "is_keyID I = [] \<or> ValidIdentifier (is_keyID I) 64"
    and "is_managed I \<longrightarrow> ValidIdentifier (is_keyID I) 64 \<and> wall_of_unix 1770000000 \<le> is_verifyUntil I"
  shows "\<exists>token. IssueOwnedUntil I (wall_of_unix 1760000000) (replicate 16 9) ''dev-1'' ''owner'' ''tenant''
    (b64_encode (replicate 16 3)) 4 (wall_of_unix 1760000600) True = (Inr (token, ex_issued I (wall_of_unix 1760000600)), [])"
proof -
  let ?c = "ex_issued I (wall_of_unix 1760000600)"
  have "claims_clean ?c"
    using ex_valid by (auto simp: ex_issued_def claims_clean_def in_int64_def VoiceAudience_def)
  then have "length (json_print (claims_json ?c)) \<le> 1400"
    by (rule owned_claims_size) (simp_all add: ex_issued_def VoiceAudience_def length_b64_encode)
  then have "length (b64_encode (bytes_of (json_print (claims_json ?c)))) \<le> 1867" by (simp add: length_b64_encode)
  moreover have "length (is_keyID I) \<le> 64" using assms(3) by (auto dest: ValidIdentifier_length)
  moreover have "time_truncate_second (wall_of_unix 1760000000 + hour) = wall_of_unix 1760003600"
    by (simp add: time_truncate_second_def wall_of_unix_def)
  moreover have "wall_of_unix 1760000600 \<noteq> 0" "wall_of_unix 1760000600 < wall_of_unix 1760003600" "wall_of_unix 1760000600 mod second = 0"
    by (simp_all add: wall_of_unix_def)
  moreover have "is_managed I \<Longrightarrow> ValidIdentifier (is_keyID I) 64 \<and> \<not> is_verifyUntil I < wall_of_unix 1760000600 + 30 * second"
    using assms(4) by (simp add: wall_of_unix_def)
  moreover have "ValidBindingRevision 4" "ValidBindingID (b64_encode (replicate 16 3))"
    by (simp_all add: ValidBindingRevision_def MaximumBindingRevision_def ValidBindingID_def)
  ultimately show ?thesis
    using assms ex_valid
    by (simp add: IssueOwnedUntil_def tok_issueOwnedUntil_def tok_issueUntil_def read_full_def tokenIDBytes_def Let_def
        maxDeviceID_def minimumIssuedTTL_seconds i64_id maxTokenBytes_def length_b64_encode ex_issued_def)
qed

definition ex_issuer :: issuer where
  "ex_issuer = \<lparr>is_secret = replicate 32 2, is_keyID = ''key-b'', is_verifyUntil = wall_of_unix 2000000000, is_managed = True,
     is_ttl = hour, is_audience = VoiceAudience\<rparr>"

definition ex_fixed :: issuer where
  "ex_fixed = \<lparr>is_secret = replicate 32 2, is_keyID = [], is_verifyUntil = 0, is_managed = False, is_ttl = hour,
     is_audience = VoiceAudience\<rparr>"

lemma ex_managed:
  "NewManagedIssuerForAudience ex_keyring hour VoiceAudience (wall_of_unix 1760000000) = Some ex_issuer"
  "NewManagedKeyringVerifierForAudience ex_keyring hour VoiceAudience (wall_of_unix 1760000000) = Some ex_verifier"
  "ValidIdentifier (is_keyID ex_issuer) 64"
  by code_simp+

text \<open>A ring file with one key, whose ID has a dot.\<close>

definition ex_dotted_document :: keyring_document where
  "ex_dotted_document = ex_document\<lparr>kd_ActiveKeyID := ''voice.2026'', kd_LegacyUnkeyedKeyID := [], kd_LegacyUnkeyedVerifyUntilUnix := 0,
     kd_Keys := Some [\<lparr>ke_KeyID = ''voice.2026'', ke_HMACKeyB64URL = b64_encode (replicate 32 2), ke_State = ''active'',
       ke_IssueBeforeUnix = 0, ke_VerifyUntilUnix = 2000000000\<rparr>]\<rparr>"

definition ex_dotted :: managed_keyring where
  "ex_dotted = \<lparr>kr_revision = 7, kr_activeKeyID = ''voice.2026'', kr_legacyUnkeyedKeyID = [], kr_legacyVerifyUntil = 0,
     kr_keys = [(''voice.2026'', \<lparr>mk_id = ''voice.2026'', mk_secret = replicate 32 2, mk_state = ''active'', mk_issueBefore = 0,
       mk_verifyUntil = wall_of_unix 2000000000\<rparr>)]\<rparr>"

lemma ex_dotted_facts:
  "buildManagedTokenKeyring ex_dotted_document 5 (wall_of_unix 1760000000) = Some ex_dotted"
  "NewManagedIssuerForAudience ex_dotted hour VoiceAudience (wall_of_unix 1760000000) = Some (ex_issuer\<lparr>is_keyID := ''voice.2026''\<rparr>)"
  "NewManagedKeyringVerifierForAudience ex_dotted hour VoiceAudience (wall_of_unix 1760000000) =
     Some (ex_verifier\<lparr>vf_managed := Some ex_dotted\<rparr>)"
  "ValidIdentifier ''voice.2026'' 64"
  by code_simp+

lemma ex_dotted_load:
  "LoadManagedTokenKeyring (json_print (document_json ex_dotted_document)) 5 (wall_of_unix 1760000000) = Some ex_dotted"
  by (rule Load_document [OF ex_dotted_facts(1)])
    (simp_all add: wall_of_unix_def document_typed_def ex_dotted_document_def ex_document_def in_int64_def)

section \<open>Properties\<close>

text \<open>C6. End to end: whatever one of the exported issue operations issues under the active key of a managed ring, a
  verifier of the same ring and audience accepts with exactly the issued claims, from half a minute before
  it was issued until half a minute after it expires. The ring's active key ID must have no dot, and the
  lifetime is in whole seconds and at most the verifier's.\<close>

theorem managed_issue_verifies:
  assumes "NewManagedIssuerForAudience K ttl audience t0 = Some I"
    and "NewManagedKeyringVerifierForAudience K maxTTL audience t1 = Some V"
    and "keyring_wf t K" and "CHR ''.'' \<notin> set (kr_activeKeyID K)" and "ttl mod second = 0" and "ttl \<le> maxTTL"
    and "tok_issued I now token c" and "0 < unix_of_wall now" and "unix_of_wall now < 2 ^ 62"
    and "cm_IssuedAt c \<le> unix_of_wall now' + 30" and "unix_of_wall now' - 30 < cm_Expires c"
  shows "tok_Verify V now' token = Inr c"
  using issued_verifies [OF assms(7) managed_agrees [OF assms(1-6)] assms(8,9)] assms(10,11) by (simp add: current_at_def)

theorem managed_issue_verifies_witness:
  "\<exists>token. tok_issued ex_issuer (wall_of_unix 1760000000) token (ex_issued ex_issuer (wall_of_unix 1760000600)) \<and>
     tok_Verify ex_verifier (wall_of_unix 1760000100) token = Inr (ex_issued ex_issuer (wall_of_unix 1760000600))"
proof -
  obtain token where token: "IssueOwnedUntil ex_issuer (wall_of_unix 1760000000) (replicate 16 9) ''dev-1'' ''owner'' ''tenant''
    (b64_encode (replicate 16 3)) 4 (wall_of_unix 1760000600) True = (Inr (token, ex_issued ex_issuer (wall_of_unix 1760000600)), [])"
    using ex_issue [of ex_issuer] ex_managed(3) by (auto simp: ex_issuer_def wall_of_unix_def)
  have issued: "tok_issued ex_issuer (wall_of_unix 1760000000) token (ex_issued ex_issuer (wall_of_unix 1760000600))"
    by (rule tok_issued.owned_until [OF token]) (simp add: wall_of_unix_def)
  have "tok_Verify ex_verifier (wall_of_unix 1760000100) token = Inr (ex_issued ex_issuer (wall_of_unix 1760000600))"
    by (rule managed_issue_verifies [OF ex_managed(1,2) ex_target_facts(2) _ _ _ issued])
      (simp_all add: ex_keyring_def ex_issued_def)
  with issued show ?thesis by blast
qed

text \<open>C27. With fixed secrets: whatever an issuer with one of the verifier's secrets issues for the verifier's audience, with
  a lifetime in whole seconds that is at most the verifier's, the verifier accepts with exactly the issued claims,
  from half a minute before it was issued until half a minute after it expires.\<close>

theorem fixed_issue_verifies:
  assumes "NewIssuerForAudience secret ttl audience = Some I"
    and "NewKeyringVerifierForAudience secrets maxTTL audience = Some V"
    and "secret \<in> set secrets" and "ttl mod second = 0" and "ttl \<le> maxTTL"
    and "tok_issued I now token c" and "0 < unix_of_wall now" and "unix_of_wall now < 2 ^ 62"
    and "cm_IssuedAt c \<le> unix_of_wall now' + 30" and "unix_of_wall now' - 30 < cm_Expires c"
  shows "tok_Verify V now' token = Inr c"
  using issued_verifies [OF assms(6) fixed_agrees [OF assms(1-5)] assms(7,8)] assms(9,10) by (simp add: current_at_def)

theorem fixed_issue_verifies_witness:
  "\<exists>token. tok_Verify (ex_verifier\<lparr>vf_secrets := [replicate 32 1, replicate 32 2], vf_managed := None\<rparr>) (wall_of_unix 1760000100) token =
     Inr (ex_issued ex_fixed (wall_of_unix 1760000600))"
proof -
  have I: "NewIssuerForAudience (replicate 32 2) hour VoiceAudience = Some ex_fixed" by code_simp
  have V: "NewKeyringVerifierForAudience [replicate 32 1, replicate 32 2] hour VoiceAudience =
      Some (ex_verifier\<lparr>vf_secrets := [replicate 32 1, replicate 32 2], vf_managed := None\<rparr>)" by code_simp
  obtain token where token: "IssueOwnedUntil ex_fixed (wall_of_unix 1760000000) (replicate 16 9) ''dev-1'' ''owner'' ''tenant''
    (b64_encode (replicate 16 3)) 4 (wall_of_unix 1760000600) True = (Inr (token, ex_issued ex_fixed (wall_of_unix 1760000600)), [])"
    using ex_issue [of ex_fixed] by (auto simp: ex_fixed_def)
  have "tok_issued ex_fixed (wall_of_unix 1760000000) token (ex_issued ex_fixed (wall_of_unix 1760000600))"
    by (rule tok_issued.owned_until [OF token]) (simp add: wall_of_unix_def)
  from fixed_issue_verifies [OF I V _ _ _ this, of "wall_of_unix 1760000100"] show ?thesis by (auto simp: ex_issued_def)
qed

text \<open>C19. A managed key whose ID has a dot signs tokens nobody can verify: such a ring is valid, its issuer issues, and
  every verifier, the one of the same ring included, refuses each of the tokens at every time as malformed.\<close>

theorem dotted_key_tokens_refused:
  assumes "NewManagedIssuerForAudience K ttl audience t0 = Some I" and "keyring_wf t K"
    and "CHR ''.'' \<in> set (kr_activeKeyID K)" and "tok_issued I now token c" and "0 \<le> now"
  shows "tok_Verify V now' token = Inl TokMalformed"
proof -
  from assms(1) obtain key I0 where key: "map_of (kr_keys K) (kr_activeKeyID K) = Some key"
    and I: "is_managed I" "is_keyID I = mk_id key" "60 * second \<le> is_ttl I"
    by (auto simp: NewManagedIssuerForAudience_def NewIssuerForAudience_Some split: if_splits option.splits)
  have id: "is_keyID I = kr_activeKeyID K" using keyring_wf_id [OF assms(2) key] I(2) by simp
  from tok_issued_scope [OF assms(4)] assms(5) I(3) obtain E where "issued_at I now E token c" by auto
  then have "token = signed_token (issuer_parts I) (is_secret I) c" by (simp add: issued_at_def)
  moreover have "filter (\<lambda>c. c = CHR ''.'') (kr_activeKeyID K) \<noteq> []" using assms(3) by (auto simp: filter_empty_conv)
  then have "Suc 0 \<le> length (filter (\<lambda>c. c = CHR ''.'') (kr_activeKeyID K))" by (simp add: Suc_le_eq)
  ultimately have "5 \<le> length (split_dots token)"
    by (auto simp: length_split_dots signed_token_def signing_input_def issuer_parts_def Let_def I(1) id intro: trans_le_add1)
  then show ?thesis by (simp add: tok_Verify_def Let_def)
qed

theorem dotted_key_tokens_refused_witness:
  "LoadManagedTokenKeyring (json_print (document_json ex_dotted_document)) 5 (wall_of_unix 1760000000) = Some ex_dotted \<and>
   (\<exists>I V token c. NewManagedIssuerForAudience ex_dotted hour VoiceAudience (wall_of_unix 1760000000) = Some I \<and>
      NewManagedKeyringVerifierForAudience ex_dotted hour VoiceAudience (wall_of_unix 1760000000) = Some V \<and>
      tok_issued I (wall_of_unix 1760000000) token c \<and> tok_Verify V (wall_of_unix 1760000000) token = Inl TokMalformed)"
proof -
  let ?I = "ex_issuer\<lparr>is_keyID := ''voice.2026''\<rparr>"
  obtain token where token: "IssueOwnedUntil ?I (wall_of_unix 1760000000) (replicate 16 9) ''dev-1'' ''owner'' ''tenant''
    (b64_encode (replicate 16 3)) 4 (wall_of_unix 1760000600) True = (Inr (token, ex_issued ?I (wall_of_unix 1760000600)), [])"
    using ex_issue [of ?I] ex_dotted_facts(4) by (auto simp: ex_issuer_def wall_of_unix_def)
  have issued: "tok_issued ?I (wall_of_unix 1760000000) token (ex_issued ?I (wall_of_unix 1760000600))"
    by (rule tok_issued.owned_until [OF token]) (simp add: wall_of_unix_def)
  have "keyring_wf (wall_of_unix 1760000000) ex_dotted"
    using buildManagedTokenKeyring_wf [OF ex_dotted_facts(1)] by (simp add: wall_of_unix_def)
  from dotted_key_tokens_refused [OF ex_dotted_facts(2) this _ issued]
  have "tok_Verify (ex_verifier\<lparr>vf_managed := Some ex_dotted\<rparr>) (wall_of_unix 1760000000) token = Inl TokMalformed"
    by (simp add: ex_dotted_def wall_of_unix_def)
  with issued ex_dotted_facts(2,3) ex_dotted_load show ?thesis by blast
qed

text \<open>C23. A token issued with \<^verbatim>\<open>IssueOwnedUntil\<close> lives for at least a minute, never past the end of the account's
  commercial window, never past the issuer's lifetime, and under a managed ring never past the key.\<close>

theorem IssueOwnedUntil_bounded:
  assumes "IssueOwnedUntil I now random deviceID ownerID tenantID bindingID bindingRevision validUntil utc = (Inr (token, c), random')"
    and "0 \<le> validUntil" and "0 \<le> now" and "unix_of_wall now < 2 ^ 62" and "0 \<le> is_ttl I" and "is_ttl I \<le> hour"
  shows "cm_IssuedAt c = unix_of_wall now \<and> cm_IssuedAt c + 60 \<le> cm_Expires c \<and> cm_Expires c \<le> unix_of_wall validUntil \<and>
    cm_Expires c \<le> unix_of_wall (now + is_ttl I) \<and> (is_managed I \<longrightarrow> cm_Expires c \<le> unix_of_wall (is_verifyUntil I))"
proof -
  from assms(1) have i: "validUntil \<noteq> 0" "tok_issueUntil I now random deviceID [] ownerID tenantID bindingID bindingRevision [] [] []
      validUntil = (Inr (token, c), random')"
    by (auto simp: IssueOwnedUntil_def tok_issueOwnedUntil_def split: if_splits)
  obtain E where E: "issued_at I now E token c" "E \<le> validUntil" "E \<le> time_truncate_second (now + is_ttl I)" "0 \<le> E"
    using time_truncate_second_nonneg [of "now + is_ttl I"] assms(2,3,5) i(1)
    by (rule_tac tok_issueUntil_issued [OF i(2)]) (auto split: if_splits)
  have c: "cm_IssuedAt c = unix_of_wall now" "cm_Expires c = unix_of_wall E" "60 \<le> i64 (unix_of_wall E - unix_of_wall now)"
    "is_managed I \<longrightarrow> E + 30 * second \<le> is_verifyUntil I" using E(1) by (simp_all add: issued_at_def)
  have ttl: "unix_of_wall E \<le> unix_of_wall (now + is_ttl I)" using unix_of_wall_mono [OF E(3)] by (simp add: unix_truncate)
  also have "\<dots> \<le> unix_of_wall (now + 3600 * second)" using assms(6) by (intro unix_of_wall_mono) simp
  also have "\<dots> = unix_of_wall now + 3600" by (rule unix_of_wall_add_seconds)
  finally have "unix_of_wall E \<le> unix_of_wall now + 3600" .
  moreover have "- 62135596800 \<le> unix_of_wall E" using E(4) by (simp add: unix_of_wall_def)
  ultimately have "i64 (unix_of_wall E - unix_of_wall now) = unix_of_wall E - unix_of_wall now"
    using assms(4) by (intro i64_id) simp_all
  moreover have "unix_of_wall E \<le> unix_of_wall (is_verifyUntil I)" if "is_managed I"
    using c(4) that by (intro unix_of_wall_mono) simp
  ultimately show ?thesis using c ttl unix_of_wall_mono [OF E(2)] by simp
qed

theorem IssueOwnedUntil_bounded_witness:
  "cm_Expires (ex_issued ex_issuer (wall_of_unix 1760000600)) \<le> unix_of_wall (wall_of_unix 1760000600)"
proof -
  obtain token where token: "IssueOwnedUntil ex_issuer (wall_of_unix 1760000000) (replicate 16 9) ''dev-1'' ''owner'' ''tenant''
    (b64_encode (replicate 16 3)) 4 (wall_of_unix 1760000600) True = (Inr (token, ex_issued ex_issuer (wall_of_unix 1760000600)), [])"
    using ex_issue [of ex_issuer] ex_managed(3) by (auto simp: ex_issuer_def wall_of_unix_def)
  have "0 \<le> wall_of_unix 1760000600" "0 \<le> wall_of_unix 1760000000" "0 \<le> is_ttl ex_issuer" "is_ttl ex_issuer \<le> hour"
    by (simp_all add: wall_of_unix_def ex_issuer_def)
  from IssueOwnedUntil_bounded [OF token this(1,2) _ this(3,4)] show ?thesis by simp
qed

end
