(* ===== verification/TokenReplay.thy ===== *)
theory TokenReplay
  imports TokenIssuer
begin

text \<open>
  \<^verbatim>\<open>internal/gateway/token_replay.go\<close> and \<^verbatim>\<open>registry.go\<close>: the voice gateway admits each token once and each device
  one session at a time. Every method holds its mutex while it works on its table, so a run is a sequence of calls. The
  guard reads the clock once per call, before it takes the mutex, so the readings of a run need not be in order.
\<close>

section \<open>Definitions\<close>

definition tokenReplayRetentionSeconds :: int where "tokenReplayRetentionSeconds = 60"

record replay_guard =
  tr_used :: "(string, int) gomap"
  tr_capacity :: int

definition newTokenReplayGuard :: "int \<Rightarrow> replay_guard" where
  "newTokenReplayGuard capacity = \<lparr>tr_used = [], tr_capacity = (if capacity < 1024 then 1024 else capacity)\<rparr>"

definition replay_consume :: "replay_guard \<Rightarrow> wall_time \<Rightarrow> claims \<Rightarrow> bool \<times> replay_guard" where
  "replay_consume G t c =
     (if cm_TokenID c = [] then (False, G)
      else case OwnedDeviceScope c of
        None \<Rightarrow> (False, G)
      | Some scope \<Rightarrow>
          let now = unix_of_wall t;
              key = scope @ CHR 0x00 # cm_TokenID c;
              used = filter (\<lambda>(existing, expires). \<not> expires \<le> now) (tr_used G) in
          if map_of used key \<noteq> None \<or> int (length used) \<ge> tr_capacity G then (False, G\<lparr>tr_used := used\<rparr>)
          else (True, G\<lparr>tr_used := AList.update key (i64 (cm_Expires c + tokenReplayRetentionSeconds)) used\<rparr>))"

record session_registry =
  sr_devices :: "string list"
  sr_limit :: int

definition newRegistry :: "int \<Rightarrow> session_registry" where
  "newRegistry limit = \<lparr>sr_devices = [], sr_limit = limit\<rparr>"

definition registry_acquire :: "session_registry \<Rightarrow> string \<Rightarrow> bool \<times> session_registry" where
  "registry_acquire R deviceID =
     (if deviceID \<in> set (sr_devices R) \<or> (sr_limit R > 0 \<and> int (length (sr_devices R)) \<ge> sr_limit R) then (False, R)
      else (True, R\<lparr>sr_devices := deviceID # sr_devices R\<rparr>))"

definition registry_release :: "session_registry \<Rightarrow> string \<Rightarrow> session_registry" where
  "registry_release R deviceID = R\<lparr>sr_devices := removeAll deviceID (sr_devices R)\<rparr>"

section \<open>Lemmas\<close>

text \<open>Runs of the guard up to the time \<open>u\<close>.\<close>

inductive replay_run :: "wall_time \<Rightarrow> replay_guard \<Rightarrow> replay_guard \<Rightarrow> bool" for u where
  start: "replay_run u G G"
| consume: "replay_run u G H \<Longrightarrow> t \<le> u \<Longrightarrow> replay_run u G (snd (replay_consume H t c))"

definition replay_wf :: "replay_guard \<Rightarrow> bool" where
  "replay_wf G \<longleftrightarrow> wf_map (tr_used G) \<and> 1024 \<le> tr_capacity G \<and> int (length (tr_used G)) \<le> tr_capacity G"

lemma map_of_filter_live:
  "wf_map m \<Longrightarrow> map_of (filter (\<lambda>(k, e). \<not> e \<le> now) m) key = (case map_of m key of None \<Rightarrow> None | Some e \<Rightarrow> if e \<le> now then None else Some e)"
  by (simp add: map_of_filter_wf split: option.splits)

lemma replay_consume_cases:
  "snd (replay_consume G t c) = G \<or>
   (let used = filter (\<lambda>(existing, expires). \<not> expires \<le> unix_of_wall t) (tr_used G) in
    snd (replay_consume G t c) = G\<lparr>tr_used := used\<rparr> \<or>
    (\<exists>key. map_of used key = None \<and> int (length used) < tr_capacity G \<and>
       snd (replay_consume G t c) = G\<lparr>tr_used := AList.update key (i64 (cm_Expires c + tokenReplayRetentionSeconds)) used\<rparr>))"
proof (cases "OwnedDeviceScope c")
  case (Some scope)
  define used where "used = filter (\<lambda>(existing, expires). \<not> expires \<le> unix_of_wall t) (tr_used G)"
  show ?thesis
    unfolding replay_consume_def Some option.case Let_def used_def [symmetric]
    by (cases "map_of used (scope @ CHR 0x00 # cm_TokenID c)") (auto simp: not_le)
qed (simp add: replay_consume_def)

lemma replay_consume_wf:
  assumes "replay_wf G"
  shows "replay_wf (snd (replay_consume G t c))"
proof -
  define used where "used = filter (\<lambda>(existing, expires). \<not> expires \<le> unix_of_wall t) (tr_used G)"
  have "wf_map used" "length used \<le> length (tr_used G)"
    using assms by (simp_all add: used_def replay_wf_def)
  with assms replay_consume_cases [of G t c] show ?thesis
    unfolding Let_def used_def [symmetric]
    by (elim disjE exE conjE) (simp_all add: replay_wf_def update_new map_of_eq_None_iff)
qed

lemma replay_run_wf: "replay_run u G H \<Longrightarrow> replay_wf G \<Longrightarrow> replay_wf H"
  by (induction rule: replay_run.induct) (simp_all add: replay_consume_wf)

text \<open>An entry stays until it expires.\<close>

lemma replay_consume_keeps:
  assumes "replay_wf G" and "map_of (tr_used G) key = Some e" and "unix_of_wall t < e"
  shows "map_of (tr_used (snd (replay_consume G t c))) key = Some e"
proof -
  define used where "used = filter (\<lambda>(existing, expires). \<not> expires \<le> unix_of_wall t) (tr_used G)"
  have live: "map_of used key = Some e"
    unfolding used_def using assms by (subst map_of_filter_live) (simp_all add: replay_wf_def)
  then have "map_of (AList.update k v used) key = Some e" if "map_of used k = None" for k v
    using that by (auto simp del: map_of_eq_None_iff)
  with assms(2) live replay_consume_cases [of G t c] show ?thesis
    unfolding Let_def used_def [symmetric] by (elim disjE exE conjE) simp_all
qed

lemma replay_run_keeps:
  assumes "replay_run u G H" and "replay_wf G" and "map_of (tr_used G) key = Some e" and "unix_of_wall u < e"
  shows "map_of (tr_used H) key = Some e"
  using assms
proof (induction rule: replay_run.induct)
  case (consume G H t c)
  then have "unix_of_wall t < e" using unix_of_wall_mono [of t u] by simp
  with consume show ?case by (intro replay_consume_keeps) (auto dest: replay_run_wf)
qed

lemma replay_consume_True:
  assumes "replay_wf G" and "replay_consume G t c = (True, H)"
  obtains scope where "OwnedDeviceScope c = Some scope" and "cm_TokenID c \<noteq> []"
    and "map_of (tr_used H) (scope @ CHR 0x00 # cm_TokenID c) = Some (i64 (cm_Expires c + 60))"
  using assms by (auto simp: replay_consume_def Let_def tokenReplayRetentionSeconds_def split: if_splits option.splits)

lemma replay_consume_used:
  assumes "replay_wf G" and "OwnedDeviceScope c = Some scope" and "map_of (tr_used G) (scope @ CHR 0x00 # cm_TokenID c) = Some e"
    and "unix_of_wall t < e"
  shows "\<not> fst (replay_consume G t c)"
proof -
  have "map_of (filter (\<lambda>(existing, expires). \<not> expires \<le> unix_of_wall t) (tr_used G)) (scope @ CHR 0x00 # cm_TokenID c) = Some e"
    using assms by (subst map_of_filter_live) (simp_all add: replay_wf_def)
  then show ?thesis by (simp add: replay_consume_def Let_def assms(2) del: not_None_eq map_of_filter_in)
qed

text \<open>Sessions: what the callers hold, as a list with repetitions.\<close>

inductive session_run :: "int \<Rightarrow> session_registry \<Rightarrow> string list \<Rightarrow> bool" for limit where
  start: "session_run limit (newRegistry limit) []"
| acquired: "session_run limit R held \<Longrightarrow> registry_acquire R d = (True, R') \<Longrightarrow> session_run limit R' (d # held)"
| refused: "session_run limit R held \<Longrightarrow> registry_acquire R d = (False, R') \<Longrightarrow> session_run limit R' held"
| release: "session_run limit R held \<Longrightarrow> d \<in> set held \<Longrightarrow> session_run limit (registry_release R d) (remove1 d held)"

lemma session_run_inv:
  "session_run limit R held \<Longrightarrow> sr_devices R = held \<and> distinct held \<and> sr_limit R = limit \<and> (limit > 0 \<longrightarrow> int (length held) \<le> limit)"
proof (induction rule: session_run.induct)
  case (release R held d)
  then show ?case using length_remove1 [of d held] by (auto simp: registry_release_def distinct_remove1_removeAll distinct_removeAll)
qed (auto simp: newRegistry_def registry_acquire_def split: if_splits)

text \<open>One session per device, bounded in number: the devices of the registry are exactly those whose sessions are
  running, no device twice, and with a positive limit never more than that.\<close>

lemma registry_one_session:
  assumes "session_run limit R held"
  shows "set (sr_devices R) = set held \<and> distinct held \<and> (limit > 0 \<longrightarrow> int (length held) \<le> limit) \<and>
    (\<forall>d. fst (registry_acquire R d) \<longleftrightarrow> d \<notin> set held \<and> (limit > 0 \<longrightarrow> int (length held) < limit))"
  using session_run_inv [OF assms] by (auto simp: registry_acquire_def)

section \<open>Properties\<close>

text \<open>C9. Single use of voice tokens: once the replay guard has admitted the claims of a token, it refuses them in every
  later call, whatever was consumed in between, for as long as the verifier accepts the token, with up to half a
  minute between verifying and consuming.\<close>

theorem token_single_use:
  assumes "replay_run t0 (newTokenReplayGuard capacity) G" and "replay_consume G t1 c = (True, G1)"
    and "replay_run t2 G1 G2" and "tok_Verify V tv token = Inr c" and "vf_skew V = 30 * second"
    and "t2 \<le> tv + 30 * second" and "0 \<le> tv" and "unix_of_wall tv < 2 ^ 62" and "cm_Expires c < 2 ^ 62"
  shows "\<not> fst (replay_consume G2 t2 c)"
proof -
  have wf0: "replay_wf G" by (rule replay_run_wf [OF assms(1)]) (simp add: replay_wf_def newTokenReplayGuard_def)
  have wf1: "replay_wf G1" using replay_consume_wf [OF wf0, of t1 c] by (simp add: assms(2))
  obtain scope where scope: "OwnedDeviceScope c = Some scope"
    and entry: "map_of (tr_used G1) (scope @ CHR 0x00 # cm_TokenID c) = Some (i64 (cm_Expires c + 60))"
    by (rule replay_consume_True [OF wf0 assms(2)])
  obtain v where val: "tok_validateClaims V tv v c = None"
    using assms(4) key_admits_validate unfolding tok_Verify_accepts by metis
  have "vf_skew V sdiv second = 30" by (simp add: assms(5) sdiv_nonneg)
  moreover have tv: "i64 (unix_of_wall tv - 30) = unix_of_wall tv - 30"
    using assms(7,8) by (intro i64_id) (simp_all add: unix_of_wall_def)
  ultimately have iat: "0 < cm_IssuedAt c" "cm_IssuedAt c < cm_Expires c" "unix_of_wall tv - 30 < cm_Expires c"
    using val by (simp_all add: tok_validateClaims_None)
  have exp: "i64 (cm_Expires c + 60) = cm_Expires c + 60" using iat(1,2) assms(9) by (intro i64_id) simp_all
  have "unix_of_wall t2 \<le> unix_of_wall tv + 30" using unix_of_wall_mono [OF assms(6)] by (simp only: unix_of_wall_add_seconds)
  then have late: "unix_of_wall t2 < i64 (cm_Expires c + 60)" using iat(3) exp by simp
  show ?thesis
    by (rule replay_consume_used [OF replay_run_wf [OF assms(3) wf1] scope replay_run_keeps [OF assms(3) wf1 entry late] late])
qed

theorem token_single_use_witness:
  "fst (replay_consume (newTokenReplayGuard 8) (wall_of_unix 1760000100) ex_claims) \<and>
   \<not> fst (replay_consume (snd (replay_consume (newTokenReplayGuard 8) (wall_of_unix 1760000100) ex_claims))
      (wall_of_unix 1760000110) ex_claims)"
proof -
  let ?G = "newTokenReplayGuard 8" and ?t = "wall_of_unix 1760000100"
  have ok: "fst (replay_consume ?G ?t ex_claims)" by code_simp
  then have "replay_consume ?G ?t ex_claims = (True, snd (replay_consume ?G ?t ex_claims))" by (simp add: prod_eq_iff)
  from token_single_use [OF replay_run.start this replay_run.start ex_token_verifies, of "wall_of_unix 1760000110"] ok
  show ?thesis by (simp add: ex_verifier_def ex_claims_def wall_of_unix_def unix_of_wall_def)
qed

end
