(* ===== verification/Spec2Isabelle.thy ===== *)
theory Spec2Isabelle
  imports Prelude OpusPacket UsageBudget SpeechBudget DeviceClaim ActionConsent GenService TokenReplay
begin

text \<open>
  Verification of the Go gateway services of the xiaozhi agent platform. All paths below are relative to
  \<^verbatim>\<open>src/gateway/internal/\<close>.

  \<^bold>\<open>The program.\<close> Devices speak to a voice gateway and an Agent proxy, a companion app to a control plane. Access rests
  on HMAC bearer tokens (\<^verbatim>\<open>auth\<close>), spending on ledgers that reserve money before a provider is called
  (\<^verbatim>\<open>usagebudget\<close>, \<^verbatim>\<open>speechbudget\<close>), possession of a device on a claim protocol (\<^verbatim>\<open>deviceclaim\<close>), and sensitive
  actions on consent of the owner (\<^verbatim>\<open>actionconsent\<close>). The voice gateway (\<^verbatim>\<open>gateway\<close>) admits each token once, each device
  with one session, and only well-formed Opus packets (\<^verbatim>\<open>opuspacket\<close>). A coordinator (\<^verbatim>\<open>generation\<close>) moves all
  replicas of the firmware services from one release generation to the next, so that no two of them ever offer
  different firmware.

  \<^bold>\<open>Foundations.\<close>
  \<^item> \<^verbatim>\<open>Prelude\<close>: Go's integers (\<open>i64\<close> wraps an \<^typ>\<open>int\<close> to 64 bits, words for unsigned types), maps as association
    lists, slices, contexts and readers; the locale \<open>go_system\<close> of a transition system with an invariant.
  \<^item> \<^verbatim>\<open>GoTime\<close>: \<^verbatim>\<open>time.Time\<close> with wall and monotonic reading, saturating \<^verbatim>\<open>Sub\<close>, \<^verbatim>\<open>Unix\<close>, \<^verbatim>\<open>Truncate\<close>.
  \<^item> \<^verbatim>\<open>Encoding\<close>, \<^verbatim>\<open>Sha256\<close>, \<^verbatim>\<open>Json\<close>: base64url, hexadecimal, identifiers, SHA-256 and HMAC in full, and reading and
    writing JSON as \<^verbatim>\<open>encoding/json\<close> does, with round trips and size bounds.
  \<^item> \<^verbatim>\<open>Ledger_Spec\<close>: the abstract ledger and the locale \<open>budget_ledger\<close>, in which the bounds on spending are proved.

  \<^bold>\<open>Components.\<close>
  \<^item> \<^verbatim>\<open>OpusPacket\<close> (\<^verbatim>\<open>opuspacket/packet.go\<close>): \<open>opus_Parse\<close> accepts exactly the bytes of the packet layouts of RFC 6716 up to
    120 ms.
  \<^item> \<^verbatim>\<open>UsageBudget\<close>, \<^verbatim>\<open>SpeechBudget\<close> (\<^verbatim>\<open>usagebudget\<close>, \<^verbatim>\<open>speechbudget\<close>: \<^verbatim>\<open>contract.go\<close>, \<^verbatim>\<open>memory.go\<close>): prices at 64-bit
    width and the ledgers with all their operations. Both interpret \<open>budget_ledger\<close>: no account exceeds its daily
    budget, and a reservation is settled once, at the exact price.
  \<^item> \<^verbatim>\<open>DeviceClaim\<close> (\<^verbatim>\<open>deviceclaim/store.go\<close>): claims, ownership, nonces. An owned device cannot be taken over, a revoked
    binding never matches again, a nonce is used once.
  \<^item> \<^verbatim>\<open>ActionConsent\<close> (\<^verbatim>\<open>actionconsent/store.go\<close>, \<^verbatim>\<open>wake.go\<close>): challenges, decisions and the wake outbox. A consumed
    decision was made by the owner for exactly this challenge and is consumed once; leases exclude each other.
  \<^item> \<^verbatim>\<open>Keyring\<close> (\<^verbatim>\<open>auth/managed_keyring.go\<close>, \<^verbatim>\<open>managed_transition.go\<close>, \<^verbatim>\<open>strictjson/duplicates.go\<close>): loading a ring
    of token keys and checking a rotation.
  \<^item> \<^verbatim>\<open>Token\<close>, \<^verbatim>\<open>TokenSafety\<close>, \<^verbatim>\<open>TokenIssuer\<close> (\<^verbatim>\<open>auth/token.go\<close>, \<^verbatim>\<open>issuer.go\<close>): what an accepted token guarantees, that
    rotations keep tokens valid, and that issued tokens verify; key IDs with a dot are the exception.
  \<^item> \<^verbatim>\<open>TokenReplay\<close> (\<^verbatim>\<open>gateway/token_replay.go\<close>, \<^verbatim>\<open>gateway/registry.go\<close>): a token is admitted once while it verifies, a
    device has one session.
  \<^item> \<^verbatim>\<open>GenState\<close>, \<^verbatim>\<open>GenStore\<close> (\<^verbatim>\<open>generation/state.go\<close>): records, transitions, encoding, and the store on a directory whose
    file operations can fail at any point. \<^verbatim>\<open>GenLog\<close>, \<^verbatim>\<open>GenProgress\<close> and \<^verbatim>\<open>Generation\<close> show that the store refines an
    append-only log, recovers after crashes, activates safely, and completes a handoff.
  \<^item> \<^verbatim>\<open>GenGuard\<close> (\<^verbatim>\<open>generation/guard.go\<close>): the gate of a replica and the fence it forms with the coordinator under
    independent clocks: replicas that allow updates at one instant serve one generation, as long as no call of the
    coordinator waits longer for the lock of the store than the drain exceeds the lease (5 seconds).
  \<^item> \<^verbatim>\<open>GenApi\<close> (\<^verbatim>\<open>generation/api.go\<close>, \<^verbatim>\<open>client.go\<close>, \<^verbatim>\<open>registry.go\<close>): the coordinator over HTTP. \<^verbatim>\<open>GenApiSafety\<close> and
    \<^verbatim>\<open>GenService\<close> show that a handled request changes the store only by what its body says and only if the publisher, or
    the registered replica concerned, signed this body for this path, that requests are not replayed inside their
    window, and that client and server agree on the state.

  \<^bold>\<open>Correspondence.\<close> A struct is a record, an error a value of a sum or option type, a method a function of the same name
  (with a prefix where names clash) that returns the updated state. The stores hold a mutex in every method, so a run
  is a sequence of calls; the step relations (\<open>usage_step\<close>, \<open>claim_any_step\<close>, \<open>consent_any_step\<close>, \<open>gen_any_step\<close>,
  \<open>api_step\<close>, \<open>fence_step\<close>, \<open>replay_run\<close>, \<open>session_run\<close>) have one rule per call and leave order, arguments and clocks
  free; the steps of the server carry the event they handle. Clock readings, random bytes and failing file operations are arguments. \<open>go_system\<close> is interpreted on the
  claim store, the consent store, the coordinator's store and the fence.

  \<^bold>\<open>Bounds.\<close> All definitions terminate and none needs fuel: loops recur on their list, and the retries of the claim
  store's identifiers and of \<^verbatim>\<open>Refresh\<close> are bounded by the constants of the source. The number \<open>io\<close> of a commit counts the
  file operations that succeed; seven or more means that all do. Hypotheses such as \<open>unix_of_wall now < 2 ^ 62\<close> keep
  instants inside the range of Go's \<^verbatim>\<open>time\<close>.

  \<^bold>\<open>What the theorems show to go wrong.\<close> A managed key ID with a dot signs tokens nobody accepts
  (\<open>dotted_key_tokens_refused\<close>). After the commit deadline no call leaves COMMITTING (\<open>gen_commit_deadline_stuck\<close>). A
  request stamped 292 years ahead passes as fresh (\<open>far_future_replayed\<close>). The state of a large fleet exceeds the limit
  of its clients (\<open>large_fleet_unreadable\<close>).

  \<^bold>\<open>Not modelled.\<close> The PostgreSQL variants of the stores (\<^verbatim>\<open>postgres.go\<close> in several packages, \<^verbatim>\<open>runtimecoordination\<close>), whose
  behaviour is that of the database; HTTP routing, WebSocket sessions and configuration (\<^verbatim>\<open>controlplane\<close>, \<^verbatim>\<open>agentproxy\<close>,
  \<^verbatim>\<open>gateway/handler.go\<close>, \<^verbatim>\<open>config\<close>, \<^verbatim>\<open>cmd\<close>); public-key signatures and provider clients (\<^verbatim>\<open>auth/companion_jwt.go\<close>,
  \<^verbatim>\<open>provisioning\<close>, \<^verbatim>\<open>ota\<close>, \<^verbatim>\<open>pushdelivery\<close>, \<^verbatim>\<open>factorytime\<close>, \<^verbatim>\<open>speechidentity\<close>); the qualification and bundle tools; the
  development gateway \<^verbatim>\<open>s3camdev\<close>; and the firmware, companion app and scripts outside \<^verbatim>\<open>src/gateway\<close>. File
  ownership, locks and permissions, the wiping of secrets and the constant time of comparisons have no counterpart in
  the models.
\<close>

end
